(* ===== verification/Prelude.thy ===== *)
theory Prelude
  imports Main "HOL-Library.Word"
begin

text \<open>
  The vocabulary that every component of the development shares.

  \<^item> Bytes and text: a \<open>std::string\<close> is a \<^typ>\<open>string\<close>, a list of 8-bit characters;
    \<open>crlf\<close> is the two-byte line terminator of the protocol.
  \<^item> Numbers: \<open>std::uint64_t\<close> is \<^typ>\<open>64 word\<close> (it wraps), \<open>std::int64_t\<close> is an
    \<^typ>\<open>int\<close> that stays in the range \<open>int64_range\<close>. Signed arithmetic that leaves the range is
    undefined behaviour in C++; \<open>checked_int64\<close> makes it the value \<^const>\<open>None\<close>.
  \<^item> Undefined behaviour: a result of type \<open>'a option\<close> in the model of an operation that has an
    undefined case reads \<^const>\<open>None\<close> as ``the C++ program has no defined behaviour from here on''
    (signed overflow, an invalid iterator range).
  \<^item> \<open>std::to_string\<close> and \<open>std::from_chars\<close> for integers, with the round trip between them.
  \<^item> \<open>std::string_view::find\<close> for a character and for the line terminator.
\<close>

named_theorems wf_intros \<open>preservation of the well-formedness invariants\<close>
named_theorems frame_simps \<open>what an operation leaves unchanged\<close>

type_synonym u64 = "64 word"
type_synonym time_point = int
type_synonym key = string
type_synonym client_id = "64 word"

section \<open>Text\<close>

definition crlf :: string where
  "crlf = [CHR 0x0D, CHR 0x0A]"

definition is_digit :: "char \<Rightarrow> bool" where
  "is_digit c \<longleftrightarrow> 48 \<le> (of_char c :: nat) \<and> (of_char c :: nat) \<le> 57"

definition digit_char :: "nat \<Rightarrow> char" where
  "digit_char d = char_of (48 + d)"

definition digit_val :: "char \<Rightarrow> nat" where
  "digit_val c = of_char c - 48"

text \<open>
  The position of the first line terminator at or after the start of a text
  (\<open>std::string_view::find\<close> applied to the two-byte pattern).
\<close>

fun find_crlf :: "string \<Rightarrow> nat option" where
  "find_crlf (a # b # s) =
     (if a = CHR 0x0D \<and> b = CHR 0x0A then Some 0 else map_option Suc (find_crlf (b # s)))"
| "find_crlf _ = None"

text \<open>The position of the first occurrence of a character (\<open>std::string_view::find\<close>).\<close>

fun find_char :: "char \<Rightarrow> string \<Rightarrow> nat option" where
  "find_char c [] = None"
| "find_char c (a # s) = (if a = c then Some 0 else map_option Suc (find_char c s))"

text \<open>Walking down a chain of conditionals, one goal per branch.\<close>

lemma if_eqE:
  assumes "(if b then x else y) = z"
  obtains (yes) "b" "x = z" | (no) "\<not> b" "y = z"
  using assms by (cases b) simp_all

section \<open>Decimal output\<close>

fun dec_of_nat :: "nat \<Rightarrow> string" where
  "dec_of_nat n = (if n < 10 then [digit_char n] else dec_of_nat (n div 10) @ [digit_char (n mod 10)])"

declare dec_of_nat.simps [simp del]

definition dec_of_int :: "int \<Rightarrow> string" where
  "dec_of_int i = (if i < 0 then CHR ''-'' # dec_of_nat (nat (- i)) else dec_of_nat (nat i))"

section \<open>Decimal input\<close>

text \<open>
  \<open>std::from_chars\<close> on the text \<open>s\<close> returns an end pointer and an error code and stores a value.
  Here the end pointer is the unread rest of the text. An unsigned type takes digits only; a signed
  type also takes one leading minus sign. There is no leading space or plus sign. A value out of
  range is read to its end and reported, and nothing is stored: the caller's zero stays.
\<close>

datatype errc = errc_ok | invalid_argument | result_out_of_range

definition digits_value :: "string \<Rightarrow> nat" where
  "digits_value s = foldl (\<lambda>acc c. 10 * acc + digit_val c) 0 s"

definition from_chars_unsigned :: "nat \<Rightarrow> string \<Rightarrow> string \<times> errc \<times> nat" where
  "from_chars_unsigned w s =
     (let ds = takeWhile is_digit s; rest = dropWhile is_digit s; v = digits_value ds in
      if ds = [] then (s, invalid_argument, 0)
      else if v < 2 ^ w then (rest, errc_ok, v) else (rest, result_out_of_range, 0))"

definition from_chars_signed :: "nat \<Rightarrow> string \<Rightarrow> string \<times> errc \<times> int" where
  "from_chars_signed w s =
     (let neg = (s \<noteq> [] \<and> hd s = CHR ''-''); body = (if neg then tl s else s);
          ds = takeWhile is_digit body; rest = dropWhile is_digit body;
          v = (if neg then - int (digits_value ds) else int (digits_value ds)) in
      if ds = [] then (s, invalid_argument, 0)
      else if - (2 ^ (w - 1)) \<le> v \<and> v < 2 ^ (w - 1) then (rest, errc_ok, v)
      else (rest, result_out_of_range, 0))"

section \<open>Signed 64-bit arithmetic\<close>

definition int64_range :: "int \<Rightarrow> bool" where
  "int64_range x \<longleftrightarrow> - (2 ^ 63) \<le> x \<and> x < 2 ^ 63"

definition checked_int64 :: "int \<Rightarrow> int option" where
  "checked_int64 x = (if int64_range x then Some x else None)"

section \<open>Digits\<close>

lemma is_digit_digit_char [simp]: "d < 10 \<Longrightarrow> is_digit (digit_char d)"
  by (simp add: is_digit_def digit_char_def of_char_of)

lemma digit_val_digit_char [simp]: "d < 10 \<Longrightarrow> digit_val (digit_char d) = d"
  by (simp add: digit_val_def digit_char_def of_char_of)

lemma is_digit_not_special [simp]:
  "\<not> is_digit (CHR 0x0D)" "\<not> is_digit (CHR 0x0A)" "\<not> is_digit (CHR ''-'')" "\<not> is_digit (CHR '' '')"
  "\<not> is_digit (CHR ''*'')" "\<not> is_digit (CHR ''$'')"
  by (simp_all add: is_digit_def)

lemma dec_of_nat_digits [simp]: "\<forall>c \<in> set (dec_of_nat n). is_digit c"
proof (induction n rule: dec_of_nat.induct)
  case (1 n)
  then show ?case by (subst dec_of_nat.simps) auto
qed

lemma dec_of_nat_nonempty [simp]: "dec_of_nat n \<noteq> []"
  by (subst dec_of_nat.simps) simp

lemma digits_value_append_digit [simp]:
  "digits_value (s @ [c]) = 10 * digits_value s + digit_val c"
  by (simp add: digits_value_def)

lemma digits_value_dec_of_nat [simp]: "digits_value (dec_of_nat n) = n"
proof (induction n rule: dec_of_nat.induct)
  case (1 n)
  show ?case
  proof (cases "n < 10")
    case True
    then show ?thesis by (subst dec_of_nat.simps) (simp add: digits_value_def)
  next
    case False
    with 1 show ?thesis by (subst dec_of_nat.simps) simp
  qed
qed

lemma takeWhile_digits_dec [simp]:
  "takeWhile is_digit (dec_of_nat n @ rest) = dec_of_nat n @ takeWhile is_digit rest"
  by (rule takeWhile_append2) (use dec_of_nat_digits in blast)

lemma dropWhile_digits_dec [simp]:
  "dropWhile is_digit (dec_of_nat n @ rest) = dropWhile is_digit rest"
  by (rule dropWhile_append2) (use dec_of_nat_digits in blast)

lemma takeWhile_dec [simp]: "takeWhile is_digit (dec_of_nat n) = dec_of_nat n"
  using takeWhile_digits_dec [of n "[]"] by simp

lemma dropWhile_dec [simp]: "dropWhile is_digit (dec_of_nat n) = []"
  using dropWhile_digits_dec [of n "[]"] by simp

text \<open>The round trips between \<open>std::to_string\<close> and \<open>std::from_chars\<close>.\<close>

lemma from_chars_unsigned_dec:
  "n < 2 ^ w \<Longrightarrow> from_chars_unsigned w (dec_of_nat n) = ([], errc_ok, n)"
  by (simp add: from_chars_unsigned_def Let_def)

lemma hd_dec_of_nat: "is_digit (hd (dec_of_nat n))"
  using dec_of_nat_digits [of n] hd_in_set [OF dec_of_nat_nonempty] by blast

lemma hd_dec_of_nat_minus [simp]: "hd (dec_of_nat n) \<noteq> CHR ''-''"
  using hd_dec_of_nat [of n] is_digit_not_special(3) by metis

lemma from_chars_signed_dec:
  "- (2 ^ (w - 1)) \<le> i \<Longrightarrow> i < 2 ^ (w - 1) \<Longrightarrow> from_chars_signed w (dec_of_int i) = ([], errc_ok, i)"
  by (simp add: from_chars_signed_def dec_of_int_def Let_def)

lemma from_chars_unsigned_bound:
  "from_chars_unsigned w s = (rest, errc_ok, v) \<Longrightarrow> v < 2 ^ w"
  by (auto simp: from_chars_unsigned_def Let_def split: if_splits)

lemma from_chars_signed_bound:
  "from_chars_signed w s = (rest, errc_ok, v) \<Longrightarrow> - (2 ^ (w - 1)) \<le> v \<and> v < 2 ^ (w - 1)"
  by (auto simp: from_chars_signed_def Let_def split: if_splits)

lemma from_chars_unsigned_Nil [simp]: "from_chars_unsigned w [] = ([], invalid_argument, 0)"
  by (simp add: from_chars_unsigned_def)

lemma from_chars_signed_Nil [simp]: "from_chars_signed w [] = ([], invalid_argument, 0)"
  by (simp add: from_chars_signed_def)

lemma checked_int64_Some [simp]: "checked_int64 x = Some y \<longleftrightarrow> int64_range x \<and> y = x"
  by (auto simp: checked_int64_def)

lemma checked_int64_None [simp]: "checked_int64 x = None \<longleftrightarrow> \<not> int64_range x"
  by (simp add: checked_int64_def)

section \<open>Searching\<close>

lemma find_crlf_bound: "find_crlf s = Some n \<Longrightarrow> n + 2 \<le> length s"
  by (induction s arbitrary: n rule: find_crlf.induct) (auto split: if_splits)

lemma find_crlf_here [simp]: "find_crlf (crlf @ s) = Some 0"
  by (simp add: crlf_def)

lemma find_crlf_skip:
  "a \<noteq> CHR 0x0D \<Longrightarrow> find_crlf (a # s) = map_option Suc (find_crlf s)"
  by (cases s) auto

text \<open>A text without a carriage return ends exactly where the terminator that follows it starts.\<close>

lemma find_crlf_line:
  "CHR 0x0D \<notin> set l \<Longrightarrow> find_crlf (l @ crlf @ s) = Some (length l)"
  by (induction l) (auto simp: find_crlf_skip simp del: find_crlf.simps)

lemma find_crlf_append: "find_crlf s = Some n \<Longrightarrow> find_crlf (s @ t) = Some n"
  by (induction s arbitrary: n rule: find_crlf.induct) (auto split: if_splits)

text \<open>No strict prefix of a terminated line holds the terminator.\<close>

lemma find_crlf_take:
  "find_crlf s = Some n \<Longrightarrow> m < n + 2 \<Longrightarrow> find_crlf (take m s) = None"
proof (induction s arbitrary: n m rule: find_crlf.induct)
  case (1 a b s)
  show ?case
  proof (cases "m \<le> 1")
    case True
    then show ?thesis by (cases m) auto
  next
    case False
    then obtain k where m: "m = Suc (Suc k)" by (metis One_nat_def Suc_le_D not_less_eq_eq)
    show ?thesis
    proof (cases "a = CHR 0x0D \<and> b = CHR 0x0A")
      case True
      with 1 False show ?thesis by auto
    next
      case F: False
      with "1.prems" obtain n' where n': "n = Suc n'" "find_crlf (b # s) = Some n'" by auto
      have "find_crlf (take (Suc k) (b # s)) = None"
        using "1.IH" [OF F n'(2), of "Suc k"] "1.prems" n' m by simp
      then show ?thesis using F m by auto
    qed
  qed
qed auto

lemma find_char_bound: "find_char c s = Some n \<Longrightarrow> n < length s \<and> s ! n = c"
  by (induction s arbitrary: n) (auto split: if_splits)

lemma find_char_append: "c \<notin> set s \<Longrightarrow> find_char c (s @ c # t) = Some (length s)"
  by (induction s) auto

lemma find_char_None: "find_char c s = None \<longleftrightarrow> c \<notin> set s"
  by (induction s) auto

lemma cr_notin_dec [simp]: "CHR 0x0D \<notin> set (dec_of_nat n)"
  using dec_of_nat_digits is_digit_not_special(1) by metis

lemma dash_notin_dec [simp]: "CHR ''-'' \<notin> set (dec_of_nat n)"
  using dec_of_nat_digits is_digit_not_special(3) by metis

end
