(* ===== verification/Stream_Types.thy ===== *)
theory Stream_Types
  imports Prelude
begin

text \<open>
  The stream types of \<open>rstream_types.hpp\<close>. A stream ID is a pair of unsigned 64-bit numbers that the
  defaulted three-way comparison orders lexicographically; here it is an instance of \<open>linorder\<close>,
  so the library's facts on sorted lists apply to streams.
\<close>

datatype stream_id = StreamId (milliseconds: u64) (sequence: u64)

instantiation stream_id :: linorder
begin

definition less_eq_stream_id :: "stream_id \<Rightarrow> stream_id \<Rightarrow> bool" where
  "less_eq_stream_id a b \<longleftrightarrow>
     milliseconds a < milliseconds b \<or> (milliseconds a = milliseconds b \<and> sequence a \<le> sequence b)"

definition less_stream_id :: "stream_id \<Rightarrow> stream_id \<Rightarrow> bool" where
  "less_stream_id a b \<longleftrightarrow>
     milliseconds a < milliseconds b \<or> (milliseconds a = milliseconds b \<and> sequence a < sequence b)"

instance
  by standard (auto simp: less_eq_stream_id_def less_stream_id_def intro: stream_id.expand)

end

definition stream_id_to_string :: "stream_id \<Rightarrow> string" where
  "stream_id_to_string i = dec_of_nat (unat (milliseconds i)) @ ''-'' @ dec_of_nat (unat (sequence i))"

record stream_entry =
  entry_id :: stream_id
  entry_values :: "(string \<times> string) list"

datatype id_mode = AUTOMATIC | AUTOMATIC_SEQUENCE | EXPLICIT

record id_request =
  req_mode :: id_mode
  req_milliseconds :: u64
  req_sequence :: u64

datatype read_mode = IMMEDIATE | BLOCK_INDEFINITELY | BLOCK_WITH_TIMEOUT

record read_options =
  read_mode :: read_mode
  read_timeout :: int

datatype read_start_mode = AFTER_ID | LATEST

record read_request =
  read_key :: key
  start_mode :: read_start_mode
  after_id :: stream_id

record read_command =
  read_requests :: "read_request list"
  options :: read_options

record read_result =
  result_key :: key
  result_entries :: "stream_entry list"

text \<open>The value that \<open>StreamId{}\<close> builds, and the largest ID.\<close>

abbreviation stream_id_zero :: stream_id where
  "stream_id_zero \<equiv> StreamId 0 0"

abbreviation stream_id_max :: stream_id where
  "stream_id_max \<equiv> StreamId (- 1) (- 1)"

lemma stream_id_le_max: "i \<le> stream_id_max"
  by (auto simp: less_eq_stream_id_def order.strict_iff_order)

lemma stream_id_zero_le: "stream_id_zero \<le> i"
  by (auto simp: less_eq_stream_id_def order.strict_iff_order)

text \<open>The printed form of an ID determines it.\<close>

lemma stream_id_dash: "find_char (CHR ''-'') (stream_id_to_string i) = Some (length (dec_of_nat (unat (milliseconds i))))"
  using find_char_append [of "CHR ''-''" "dec_of_nat (unat (milliseconds i))"]
  by (simp add: stream_id_to_string_def)

lemma stream_id_parts:
  "take (length (dec_of_nat (unat (milliseconds i)))) (stream_id_to_string i) = dec_of_nat (unat (milliseconds i))"
  "drop (Suc (length (dec_of_nat (unat (milliseconds i))))) (stream_id_to_string i) = dec_of_nat (unat (sequence i))"
  by (simp_all add: stream_id_to_string_def)

end
