(* ===== verification/Database.thy ===== *)
theory Database
  imports Stream_Types
begin

text \<open>
  The typed key-value store (\<open>database.hpp\<close>, \<open>database.cpp\<close>).

  \<^item> State: \<open>_entries\<close> is a finite map from keys to entries, \<open>_key_revisions\<close> and \<open>_next_revision\<close>
    are the revision log that \<open>WATCH\<close> reads.
  \<^item> Every method is one definition of the same name. A method that reads the steady clock takes its
    reading \<open>now\<close> (nanoseconds, \<open>std::int64_t\<close>) as an argument; \<open>read_streams\<close>, which reads the
    clock once per request and loop, takes the sequence of its readings. \<open>add_stream\<close> also takes the
    reading of the system clock in milliseconds.
  \<^item> The iteration order of \<open>std::unordered_map\<close> is unspecified: \<open>db_keys\<close> takes the order of its
    traversal as an argument.
  \<^item> \<open>db_set\<close>, \<open>increment_key\<close> and \<open>stream_range\<close> have undefined behaviour on some inputs (overflow of
    the expiry arithmetic, overflow of the increment, an iterator range that runs backwards), which
    is the value \<^const>\<open>None\<close>.

  The lemmas show that every operation keeps the invariant \<open>db_wf\<close> (lists and streams are never
  empty, streams are strictly ordered by ID), changes only the keys it marks as modified (relation
  \<open>touches\<close> and the locale \<open>keyed_operation\<close>), and computes what its reference definition says.
\<close>

section \<open>State\<close>

datatype db_value = StringValue string | ListValue "string list" | StreamValue "stream_entry list"

record db_entry =
  entry_value :: db_value
  expires_at :: "time_point option"

record database =
  entries :: "key \<rightharpoonup> db_entry"
  key_revisions :: "key \<rightharpoonup> u64"
  next_revision :: u64

datatype list_add_mode = APPEND | PREPEND

datatype db_error =
    KEY_NOT_FOUND
  | WRONG_TYPE
  | INVALID_STREAM_ID_MODE
  | INVALID_STREAM_ID_VALUE
  | VALUE_NOT_INTEGER

datatype value_type = TYPE_NONE | TYPE_STRING | TYPE_LIST | TYPE_STREAM

definition empty_database :: database where
  "empty_database = \<lparr>entries = Map.empty, key_revisions = Map.empty, next_revision = 1\<rparr>"

definition put_entry :: "key \<Rightarrow> db_entry \<Rightarrow> database \<Rightarrow> database" where
  "put_entry k e db = db\<lparr>entries := (entries db)(k \<mapsto> e)\<rparr>"

definition erase_entry :: "key \<Rightarrow> database \<Rightarrow> database" where
  "erase_entry k db = db\<lparr>entries := (entries db)(k := None)\<rparr>"

section \<open>Operations\<close>

definition mark_key_modified :: "key \<Rightarrow> database \<Rightarrow> database" where
  "mark_key_modified k db =
     db\<lparr>key_revisions := (key_revisions db)(k \<mapsto> next_revision db),
        next_revision := next_revision db + 1\<rparr>"

definition is_expired :: "time_point \<Rightarrow> db_entry \<Rightarrow> bool" where
  "is_expired now e = (case expires_at e of None \<Rightarrow> False | Some t \<Rightarrow> t \<le> now)"

definition find_active_entry :: "time_point \<Rightarrow> key \<Rightarrow> database \<Rightarrow> database \<times> db_entry option" where
  "find_active_entry now k db =
     (case entries db k of
        None \<Rightarrow> (db, None)
      | Some e \<Rightarrow>
          if is_expired now e then (mark_key_modified k (erase_entry k db), None)
          else (db, Some e))"

text \<open>
  \<open>steady_clock::now() + *expiry\<close>: the milliseconds are converted to the clock's nanoseconds and
  added, both in \<open>std::int64_t\<close>.
\<close>

definition deadline_after :: "time_point \<Rightarrow> int \<Rightarrow> time_point option" where
  "deadline_after now ms =
     Option.bind (checked_int64 (ms * 1000000)) (\<lambda>ns. checked_int64 (now + ns))"

definition db_set :: "time_point \<Rightarrow> key \<Rightarrow> string \<Rightarrow> int option \<Rightarrow> database \<Rightarrow> database option" where
  "db_set now k v expiry db =
     (case expiry of
        None \<Rightarrow> Some (mark_key_modified k (put_entry k \<lparr>entry_value = StringValue v, expires_at = None\<rparr> db))
      | Some ms \<Rightarrow>
          Option.bind (deadline_after now ms) (\<lambda>t.
            Some (mark_key_modified k
              (put_entry k \<lparr>entry_value = StringValue v, expires_at = Some t\<rparr> db))))"

definition db_get :: "time_point \<Rightarrow> key \<Rightarrow> database \<Rightarrow> database \<times> (db_error + string)" where
  "db_get now k db =
     (case find_active_entry now k db of
        (db', None) \<Rightarrow> (db', Inl KEY_NOT_FOUND)
      | (db', Some e) \<Rightarrow>
          (case entry_value e of
             StringValue s \<Rightarrow> (db', Inr s)
           | _ \<Rightarrow> (db', Inl WRONG_TYPE)))"

definition get_type :: "time_point \<Rightarrow> key \<Rightarrow> database \<Rightarrow> database \<times> value_type" where
  "get_type now k db =
     (case find_active_entry now k db of
        (db', None) \<Rightarrow> (db', TYPE_NONE)
      | (db', Some e) \<Rightarrow>
          (db', (case entry_value e of
                   StringValue _ \<Rightarrow> TYPE_STRING
                 | ListValue _ \<Rightarrow> TYPE_LIST
                 | StreamValue _ \<Rightarrow> TYPE_STREAM)))"

text \<open>The traversal of \<open>keys()\<close>: expired entries are marked and erased on the way.\<close>

fun keys_loop :: "time_point \<Rightarrow> key list \<Rightarrow> database \<Rightarrow> key list \<Rightarrow> database \<times> key list" where
  "keys_loop now [] db result = (db, result)"
| "keys_loop now (k # ks) db result =
     (case entries db k of
        Some e \<Rightarrow>
          if is_expired now e then keys_loop now ks (erase_entry k (mark_key_modified k db)) result
          else keys_loop now ks db (result @ [k])
      | None \<Rightarrow> keys_loop now ks db result)"

definition db_keys :: "time_point \<Rightarrow> key list \<Rightarrow> database \<Rightarrow> database \<times> key list" where
  "db_keys now order db = keys_loop now order db []"

definition add_list_elements ::
  "time_point \<Rightarrow> key \<Rightarrow> string list \<Rightarrow> list_add_mode \<Rightarrow> database \<Rightarrow> database \<times> (db_error + nat)" where
  "add_list_elements now k new_values mode db =
     (case find_active_entry now k db of
        (db1, found) \<Rightarrow>
          let e = (case found of Some e \<Rightarrow> e | None \<Rightarrow> \<lparr>entry_value = ListValue [], expires_at = None\<rparr>);
              db2 = (case found of Some _ \<Rightarrow> db1 | None \<Rightarrow> put_entry k e db1)
          in (case entry_value e of
                ListValue xs \<Rightarrow>
                  let ys = (if mode = APPEND then xs @ new_values else rev new_values @ xs)
                  in (mark_key_modified k (put_entry k (e\<lparr>entry_value := ListValue ys\<rparr>) db2), Inr (length ys))
              | _ \<Rightarrow> (db2, Inl WRONG_TYPE)))"

definition list_elements ::
  "time_point \<Rightarrow> key \<Rightarrow> int \<Rightarrow> int \<Rightarrow> database \<Rightarrow> database \<times> (db_error + string list)" where
  "list_elements now k start stop db =
     (case find_active_entry now k db of
        (db', None) \<Rightarrow> (db', Inr [])
      | (db', Some e) \<Rightarrow>
          (case entry_value e of
             ListValue xs \<Rightarrow>
               let size = int (length xs) in
               if size = 0 then (db', Inr [])
               else
                 let start1 = (if start < 0 then start + size else start);
                     stop1 = (if stop < 0 then stop + size else stop);
                     start2 = (if start1 < 0 then 0 else start1);
                     stop2 = (if size \<le> stop1 then size - 1 else stop1)
                 in if stop2 < 0 \<or> size \<le> start2 \<or> stop2 < start2 then (db', Inr [])
                    else (db', Inr (drop (nat start2) (take (nat (stop2 + 1)) xs)))
           | _ \<Rightarrow> (db', Inl WRONG_TYPE)))"

definition get_list_length :: "time_point \<Rightarrow> key \<Rightarrow> database \<Rightarrow> database \<times> (db_error + nat)" where
  "get_list_length now k db =
     (case find_active_entry now k db of
        (db', None) \<Rightarrow> (db', Inr 0)
      | (db', Some e) \<Rightarrow>
          (case entry_value e of
             ListValue xs \<Rightarrow> (db', Inr (length xs))
           | _ \<Rightarrow> (db', Inl WRONG_TYPE)))"

text \<open>What the two pops do after the list changed: an empty list is erased, the key is marked.\<close>

definition store_popped :: "key \<Rightarrow> db_entry \<Rightarrow> string list \<Rightarrow> database \<Rightarrow> database" where
  "store_popped k e xs db =
     mark_key_modified k
       (if xs = [] then erase_entry k db else put_entry k (e\<lparr>entry_value := ListValue xs\<rparr>) db)"

definition pop_list_element :: "time_point \<Rightarrow> key \<Rightarrow> database \<Rightarrow> database \<times> (db_error + string)" where
  "pop_list_element now k db =
     (case find_active_entry now k db of
        (db', None) \<Rightarrow> (db', Inl KEY_NOT_FOUND)
      | (db', Some e) \<Rightarrow>
          (case entry_value e of
             ListValue [] \<Rightarrow> (db', Inl KEY_NOT_FOUND)
           | ListValue (x # xs) \<Rightarrow> (store_popped k e xs db', Inr x)
           | _ \<Rightarrow> (db', Inl WRONG_TYPE)))"

text \<open>The loop that moves \<open>count\<close> elements off the front.\<close>

fun pop_front_loop :: "nat \<Rightarrow> string list \<Rightarrow> string list \<Rightarrow> string list \<times> string list" where
  "pop_front_loop (Suc n) (x # xs) result = pop_front_loop n xs (result @ [x])"
| "pop_front_loop _ xs result = (xs, result)"

definition pop_list_elements ::
  "time_point \<Rightarrow> key \<Rightarrow> int \<Rightarrow> database \<Rightarrow> database \<times> (db_error + string list)" where
  "pop_list_elements now k number_of_items db =
     (case find_active_entry now k db of
        (db', None) \<Rightarrow> (db', Inl KEY_NOT_FOUND)
      | (db', Some e) \<Rightarrow>
          (case entry_value e of
             ListValue xs \<Rightarrow>
               if xs = [] then (db', Inl KEY_NOT_FOUND)
               else if number_of_items \<le> 0 then (db', Inr [])
               else
                 (case pop_front_loop (min (nat number_of_items) (length xs)) xs [] of
                    (ys, result) \<Rightarrow> (store_popped k e ys db', Inr result))
           | _ \<Rightarrow> (db', Inl WRONG_TYPE)))"

text \<open>The \<open>switch\<close> over the ID mode in \<open>add_stream\<close>; the sequence number is unsigned and wraps.\<close>

definition new_stream_id :: "int \<Rightarrow> id_request \<Rightarrow> bool \<Rightarrow> stream_id \<Rightarrow> stream_id" where
  "new_stream_id unix_ms req has_entries last_id =
     (case req_mode req of
        EXPLICIT \<Rightarrow> StreamId (req_milliseconds req) (req_sequence req)
      | AUTOMATIC_SEQUENCE \<Rightarrow>
          let sequence0 = (if req_milliseconds req = 0 then 1 else 0) in
          StreamId (req_milliseconds req)
            (if has_entries \<and> req_milliseconds req = milliseconds last_id then sequence last_id + 1
             else sequence0)
      | AUTOMATIC \<Rightarrow>
          let current_time = word_of_int unix_ms in
          if has_entries \<and> current_time \<le> milliseconds last_id
          then StreamId (milliseconds last_id) (sequence last_id + 1)
          else StreamId current_time 0)"

definition add_stream ::
  "time_point \<Rightarrow> int \<Rightarrow> key \<Rightarrow> id_request \<Rightarrow> (string \<times> string) list \<Rightarrow> database
     \<Rightarrow> database \<times> (db_error + stream_id)" where
  "add_stream now unix_ms k req new_values db =
     (case find_active_entry now k db of
        (db1, found) \<Rightarrow>
          let e = (case found of Some e \<Rightarrow> e | None \<Rightarrow> \<lparr>entry_value = StreamValue [], expires_at = None\<rparr>);
              db2 = (case found of Some _ \<Rightarrow> db1 | None \<Rightarrow> put_entry k e db1)
          in (case entry_value e of
                StreamValue es \<Rightarrow>
                  let has_entries = (es \<noteq> []);
                      last_id = (if has_entries then entry_id (last es) else stream_id_zero);
                      new_id = new_stream_id unix_ms req has_entries last_id
                  in if has_entries \<and> new_id \<le> last_id then (db2, Inl INVALID_STREAM_ID_VALUE)
                     else
                       (mark_key_modified k
                          (put_entry k (e\<lparr>entry_value := StreamValue (es @ [\<lparr>entry_id = new_id, entry_values = new_values\<rparr>])\<rparr>) db2),
                        Inr new_id)
              | _ \<Rightarrow> (db2, Inl WRONG_TYPE)))"

text \<open>
  The binary search of \<open>std::ranges::lower_bound\<close> and \<open>std::ranges::upper_bound\<close>: the half-open
  range starts at \<open>first\<close> and has \<open>len\<close> elements; \<open>go_right\<close> says that the middle element lies before
  the wanted position.
\<close>

function bound_search :: "('a \<Rightarrow> bool) \<Rightarrow> 'a list \<Rightarrow> nat \<Rightarrow> nat \<Rightarrow> nat" where
  "bound_search go_right xs first len =
     (if len = 0 then first
      else
        let half = len div 2; middle = first + half in
        if go_right (xs ! middle) then bound_search go_right xs (middle + 1) (len - half - 1)
        else bound_search go_right xs first half)"
  by pat_completeness auto
termination
  by (relation "measure (\<lambda>(_, _, _, len). len)") auto

declare bound_search.simps [simp del]

definition lower_bound :: "stream_entry list \<Rightarrow> stream_id \<Rightarrow> nat" where
  "lower_bound es i = bound_search (\<lambda>e. entry_id e < i) es 0 (length es)"

definition upper_bound :: "stream_entry list \<Rightarrow> stream_id \<Rightarrow> nat" where
  "upper_bound es i = bound_search (\<lambda>e. \<not> i < entry_id e) es 0 (length es)"

text \<open>Copying the iterator range \<open>[first, last)\<close> needs \<open>first\<close> not to lie behind \<open>last\<close>.\<close>

definition copy_range :: "'a list \<Rightarrow> nat \<Rightarrow> nat \<Rightarrow> 'a list option" where
  "copy_range xs first behind = (if first \<le> behind then Some (drop first (take behind xs)) else None)"

definition stream_range ::
  "time_point \<Rightarrow> key \<Rightarrow> stream_id \<Rightarrow> stream_id \<Rightarrow> database
     \<Rightarrow> (database \<times> (db_error + stream_entry list)) option" where
  "stream_range now k start stop db =
     (case find_active_entry now k db of
        (db', None) \<Rightarrow> Some (db', Inl KEY_NOT_FOUND)
      | (db', Some e) \<Rightarrow>
          (case entry_value e of
             StreamValue es \<Rightarrow>
               Option.bind (copy_range es (lower_bound es start) (upper_bound es stop))
                 (\<lambda>range. Some (db', Inr range))
           | _ \<Rightarrow> Some (db', Inl WRONG_TYPE)))"

text \<open>
  The first loop of \<open>read_streams\<close> replaces the position \<open>LATEST\<close> by the ID of the newest entry; it
  stops at the first key that holds another type, with the requests before it already rewritten. The
  \<open>i\<close>-th clock reading of the call is \<open>clk i\<close>.
\<close>

fun resolve_requests ::
  "(nat \<Rightarrow> time_point) \<Rightarrow> nat \<Rightarrow> read_request list \<Rightarrow> database
     \<Rightarrow> database \<times> read_request list \<times> bool" where
  "resolve_requests clk i [] db = (db, [], True)"
| "resolve_requests clk i (r # rs) db =
     (case find_active_entry (clk i) (read_key r) db of
        (db1, None) \<Rightarrow>
          let r' = (if start_mode r = LATEST then r\<lparr>after_id := stream_id_zero, start_mode := AFTER_ID\<rparr> else r)
          in (case resolve_requests clk (Suc i) rs db1 of (db2, rs', ok) \<Rightarrow> (db2, r' # rs', ok))
      | (db1, Some e) \<Rightarrow>
          (case entry_value e of
             StreamValue es \<Rightarrow>
               let r' = (if start_mode r = LATEST
                         then r\<lparr>after_id := (if es = [] then stream_id_zero else entry_id (last es)),
                                start_mode := AFTER_ID\<rparr>
                         else r)
               in (case resolve_requests clk (Suc i) rs db1 of (db2, rs', ok) \<Rightarrow> (db2, r' # rs', ok))
           | _ \<Rightarrow> (db1, r # rs, False)))"

text \<open>The second loop collects the entries behind each request's position.\<close>

fun collect_results ::
  "(nat \<Rightarrow> time_point) \<Rightarrow> nat \<Rightarrow> read_request list \<Rightarrow> database \<Rightarrow> read_result list
     \<Rightarrow> database \<times> (db_error + read_result list)" where
  "collect_results clk i [] db results = (db, Inr results)"
| "collect_results clk i (r # rs) db results =
     (case find_active_entry (clk i) (read_key r) db of
        (db1, None) \<Rightarrow> collect_results clk (Suc i) rs db1 results
      | (db1, Some e) \<Rightarrow>
          (case entry_value e of
             StreamValue es \<Rightarrow>
               let first_entry = upper_bound es (after_id r) in
               if first_entry = length es then collect_results clk (Suc i) rs db1 results
               else collect_results clk (Suc i) rs db1
                      (results @ [\<lparr>result_key = read_key r, result_entries = drop first_entry es\<rparr>])
           | _ \<Rightarrow> (db1, Inl WRONG_TYPE)))"

definition read_streams ::
  "(nat \<Rightarrow> time_point) \<Rightarrow> read_request list \<Rightarrow> database
     \<Rightarrow> database \<times> read_request list \<times> (db_error + read_result list)" where
  "read_streams clk requests db =
     (case resolve_requests clk 0 requests db of
        (db1, requests1, ok) \<Rightarrow>
          if \<not> ok then (db1, requests1, Inl WRONG_TYPE)
          else
            (case collect_results clk (length requests) requests1 db1 [] of
               (db2, result) \<Rightarrow> (db2, requests1, result)))"

definition parse_value_to_increment :: "string \<Rightarrow> int option" where
  "parse_value_to_increment text =
     (case from_chars_signed 64 text of
        (end_, error, result) \<Rightarrow>
          if text = [] \<or> error \<noteq> errc_ok \<or> end_ \<noteq> [] then None else Some result)"

definition increment_key :: "time_point \<Rightarrow> key \<Rightarrow> database \<Rightarrow> (database \<times> (db_error + int)) option" where
  "increment_key now k db =
     (case find_active_entry now k db of
        (db', Some e) \<Rightarrow>
          (case entry_value e of
             StringValue text \<Rightarrow>
               (case parse_value_to_increment text of
                  None \<Rightarrow> Some (db', Inl VALUE_NOT_INTEGER)
                | Some n \<Rightarrow>
                    Option.bind (checked_int64 (n + 1)) (\<lambda>result.
                      Some (mark_key_modified k (put_entry k (e\<lparr>entry_value := StringValue (dec_of_int result)\<rparr>) db'),
                            Inr result)))
           | _ \<Rightarrow> Some (db', Inl WRONG_TYPE))
      | (db', None) \<Rightarrow>
          Some (mark_key_modified k
                  (put_entry k \<lparr>entry_value = StringValue (dec_of_int 1), expires_at = None\<rparr> db'),
                Inr 1))"

definition key_revision :: "time_point \<Rightarrow> key \<Rightarrow> database \<Rightarrow> database \<times> u64" where
  "key_revision now k db =
     (let db' = fst (find_active_entry now k db) in
      (db', case key_revisions db' k of None \<Rightarrow> 0 | Some r \<Rightarrow> r))"

section \<open>Building blocks\<close>

lemma store_simps [simp]:
  "entries (mark_key_modified k db) = entries db"
  "key_revisions (mark_key_modified k db) = (key_revisions db)(k \<mapsto> next_revision db)"
  "next_revision (mark_key_modified k db) = next_revision db + 1"
  "entries (put_entry k e db) = (entries db)(k \<mapsto> e)"
  "key_revisions (put_entry k e db) = key_revisions db"
  "next_revision (put_entry k e db) = next_revision db"
  "entries (erase_entry k db) = (entries db)(k := None)"
  "key_revisions (erase_entry k db) = key_revisions db"
  "next_revision (erase_entry k db) = next_revision db"
  by (simp_all add: mark_key_modified_def put_entry_def erase_entry_def)

text \<open>The abstract content of the store at a moment: an expired entry is as good as absent.\<close>

definition live :: "time_point \<Rightarrow> database \<Rightarrow> key \<rightharpoonup> db_entry" where
  "live now db k = (case entries db k of None \<Rightarrow> None | Some e \<Rightarrow> if is_expired now e then None else Some e)"

lemma find_active_entry_live: "snd (find_active_entry now k db) = live now db k"
  by (simp add: find_active_entry_def live_def split: option.splits)

lemma find_active_entry_cases:
  obtains (absent) "entries db k = None" "live now db k = None" "find_active_entry now k db = (db, None)"
  | (expired) e where "entries db k = Some e" "is_expired now e" "live now db k = None"
      "find_active_entry now k db = (mark_key_modified k (erase_entry k db), None)"
  | (active) e where "entries db k = Some e" "\<not> is_expired now e" "live now db k = Some e"
      "find_active_entry now k db = (db, Some e)"
  by (cases "entries db k"; cases "is_expired now (the (entries db k))")
    (auto simp: find_active_entry_def live_def)

section \<open>The invariant\<close>

fun value_wf :: "db_value \<Rightarrow> bool" where
  "value_wf (StringValue _) = True"
| "value_wf (ListValue xs) = (xs \<noteq> [])"
| "value_wf (StreamValue es) = (es \<noteq> [] \<and> sorted_wrt (<) (map entry_id es))"

definition entry_wf :: "db_entry \<Rightarrow> bool" where
  "entry_wf e \<longleftrightarrow> value_wf (entry_value e) \<and> (expires_at e \<noteq> None \<longrightarrow> (\<exists>s. entry_value e = StringValue s))"

definition db_wf :: "database \<Rightarrow> bool" where
  "db_wf db \<longleftrightarrow> finite (dom (entries db)) \<and> (\<forall>k e. entries db k = Some e \<longrightarrow> entry_wf e)"

lemma db_wf_empty [wf_intros]: "db_wf empty_database"
  by (simp add: db_wf_def empty_database_def)

lemma db_wf_mark [wf_intros]: "db_wf db \<Longrightarrow> db_wf (mark_key_modified k db)"
  by (simp add: db_wf_def)

lemma db_wf_put [wf_intros]: "db_wf db \<Longrightarrow> entry_wf e \<Longrightarrow> db_wf (put_entry k e db)"
  by (auto simp: db_wf_def)

lemma db_wf_erase [wf_intros]: "db_wf db \<Longrightarrow> db_wf (erase_entry k db)"
  by (auto simp: db_wf_def)

lemma db_wf_live: "db_wf db \<Longrightarrow> live now db k = Some e \<Longrightarrow> entry_wf e"
  by (auto simp: db_wf_def live_def split: option.splits if_splits)

lemma db_wf_find [wf_intros]: "db_wf db \<Longrightarrow> db_wf (fst (find_active_entry now k db))"
  by (cases rule: find_active_entry_cases [of db k now]) (auto intro: wf_intros)

section \<open>The revision log\<close>

text \<open>
  \<open>touches ks db db'\<close>: on the way from \<open>db\<close> to \<open>db'\<close> the keys \<open>ks\<close> were marked as modified, in this
  order, and no entry outside of \<open>ks\<close> changed.
\<close>

definition touches :: "key list \<Rightarrow> database \<Rightarrow> database \<Rightarrow> bool" where
  "touches ks db db' \<longleftrightarrow>
     key_revisions db' = key_revisions (foldl (\<lambda>d k. mark_key_modified k d) db ks) \<and>
     next_revision db' = next_revision (foldl (\<lambda>d k. mark_key_modified k d) db ks) \<and>
     (\<forall>k. k \<notin> set ks \<longrightarrow> entries db' k = entries db k)"

lemma foldl_mark_cong:
  assumes "key_revisions d = key_revisions d'" "next_revision d = next_revision d'"
  shows "key_revisions (foldl (\<lambda>d k. mark_key_modified k d) d ks) =
           key_revisions (foldl (\<lambda>d k. mark_key_modified k d) d' ks) \<and>
         next_revision (foldl (\<lambda>d k. mark_key_modified k d) d ks) =
           next_revision (foldl (\<lambda>d k. mark_key_modified k d) d' ks)"
  using assms by (induction ks arbitrary: d d') simp_all

lemma touches_refl [simp]: "touches [] db db' \<longleftrightarrow>
    key_revisions db' = key_revisions db \<and> next_revision db' = next_revision db \<and> entries db' = entries db"
  by (auto simp: touches_def fun_eq_iff)

lemma touches_one: "touches [k] db (mark_key_modified k db') \<longleftrightarrow>
    (key_revisions db')(k \<mapsto> next_revision db') = (key_revisions db)(k \<mapsto> next_revision db) \<and>
    next_revision db' = next_revision db \<and> (\<forall>j. j \<noteq> k \<longrightarrow> entries db' j = entries db j)"
  by (auto simp: touches_def)

lemma touches_trans:
  assumes "touches ks db db1" "touches js db1 db2"
  shows "touches (ks @ js) db db2"
  using assms foldl_mark_cong [of db1 "foldl (\<lambda>d k. mark_key_modified k d) db ks" js]
  by (auto simp: touches_def)

text \<open>
  The counter hands out fresh revisions as long as it has not wrapped around: a key that was marked
  carries a revision that is at least the counter of the earlier state, and any other key keeps its own.
\<close>

definition revisions_fresh :: "database \<Rightarrow> bool" where
  "revisions_fresh db \<longleftrightarrow>
     0 < next_revision db \<and> (\<forall>k r. key_revisions db k = Some r \<longrightarrow> 0 < r \<and> r < next_revision db)"

lemma revisions_fresh_empty: "revisions_fresh empty_database"
  by (simp add: revisions_fresh_def empty_database_def)

lemma next_revision_less:
  "unat (next_revision db) + 1 < 2 ^ 64 \<Longrightarrow> next_revision db < next_revision db + 1"
  by (simp add: word_less_nat_alt unat_word_ariths)

lemma revisions_fresh_mark:
  assumes "revisions_fresh db" "unat (next_revision db) + 1 < 2 ^ 64"
  shows "revisions_fresh (mark_key_modified k db)"
proof -
  note less = next_revision_less [OF assms(2)]
  have pos: "0 < next_revision db" using assms(1) by (simp add: revisions_fresh_def)
  have "0 < r \<and> r < next_revision db + 1" if "key_revisions (mark_key_modified k db) j = Some r" for j r
  proof (cases "j = k")
    case True
    with that pos less show ?thesis by simp
  next
    case False
    with that assms(1) have "0 < r" "r < next_revision db" by (auto simp: revisions_fresh_def)
    with less show ?thesis by (metis less_trans)
  qed
  with less_trans [OF pos less] show ?thesis by (simp add: revisions_fresh_def)
qed

lemma foldl_mark_fresh:
  assumes "revisions_fresh db" "unat (next_revision db) + length ks < 2 ^ 64"
  shows "revisions_fresh (foldl (\<lambda>d k. mark_key_modified k d) db ks) \<and>
    next_revision db \<le> next_revision (foldl (\<lambda>d k. mark_key_modified k d) db ks) \<and>
    (\<forall>k. key_revisions (foldl (\<lambda>d k. mark_key_modified k d) db ks) k = key_revisions db k \<and> k \<notin> set ks \<or>
         k \<in> set ks \<and> (\<exists>r. key_revisions (foldl (\<lambda>d k. mark_key_modified k d) db ks) k = Some r \<and>
                            next_revision db \<le> r))"
  using assms
proof (induction ks arbitrary: db)
  case Nil
  then show ?case by simp
next
  case (Cons j ks)
  let ?d = "mark_key_modified j db"
  have room: "unat (next_revision db) + 1 < 2 ^ 64" using Cons.prems(2) by simp
  have un: "unat (next_revision db + 1) = unat (next_revision db) + 1"
    using room by (simp add: unat_word_ariths)
  have less: "next_revision db < next_revision ?d" using next_revision_less [OF room] by simp
  have IH: "revisions_fresh (foldl (\<lambda>d k. mark_key_modified k d) ?d ks) \<and>
    next_revision ?d \<le> next_revision (foldl (\<lambda>d k. mark_key_modified k d) ?d ks) \<and>
    (\<forall>k. key_revisions (foldl (\<lambda>d k. mark_key_modified k d) ?d ks) k = key_revisions ?d k \<and> k \<notin> set ks \<or>
         k \<in> set ks \<and> (\<exists>r. key_revisions (foldl (\<lambda>d k. mark_key_modified k d) ?d ks) k = Some r \<and>
                            next_revision ?d \<le> r))"
    using Cons.IH [OF revisions_fresh_mark [OF Cons.prems(1) room]] Cons.prems(2) un by simp
  show ?case
  proof (intro conjI allI)
    fix k
    from IH consider "key_revisions (foldl (\<lambda>d k. mark_key_modified k d) ?d ks) k = key_revisions ?d k" "k \<notin> set ks"
      | r where "k \<in> set ks" "key_revisions (foldl (\<lambda>d k. mark_key_modified k d) ?d ks) k = Some r" "next_revision ?d \<le> r"
      by blast
    then show "key_revisions (foldl (\<lambda>d k. mark_key_modified k d) db (j # ks)) k = key_revisions db k \<and> k \<notin> set (j # ks) \<or>
         k \<in> set (j # ks) \<and> (\<exists>r. key_revisions (foldl (\<lambda>d k. mark_key_modified k d) db (j # ks)) k = Some r \<and>
                            next_revision db \<le> r)"
    proof cases
      case 1
      then show ?thesis by (cases "k = j") auto
    next
      case (2 r)
      with less have "next_revision db \<le> r" by (metis less_imp_le order_trans)
      with 2 show ?thesis by auto
    qed
  qed (use IH order_trans [OF less_imp_le [OF less]] in simp_all)
qed

lemma touches_fresh:
  assumes "revisions_fresh db" "touches ks db db'" "unat (next_revision db) + length ks < 2 ^ 64"
  shows "revisions_fresh db'"
  using foldl_mark_fresh [OF assms(1,3)] assms(2) by (simp add: touches_def revisions_fresh_def)

lemma touches_unmarked: "touches ks db db' \<Longrightarrow> k \<notin> set ks \<Longrightarrow> entries db' k = entries db k"
  by (simp add: touches_def)

lemma touches_changed_iff:
  assumes "revisions_fresh db" "touches ks db db'" "unat (next_revision db) + length ks < 2 ^ 64"
  shows "key_revisions db' k \<noteq> key_revisions db k \<longleftrightarrow> k \<in> set ks"
proof -
  have "key_revisions db' k = key_revisions db k \<and> k \<notin> set ks \<or>
        k \<in> set ks \<and> (\<exists>r. key_revisions db' k = Some r \<and> next_revision db \<le> r)"
    using foldl_mark_fresh [OF assms(1,3)] assms(2) by (simp add: touches_def)
  with assms(1) show ?thesis by (fastforce simp: revisions_fresh_def)
qed

section \<open>The contract of an operation on one key\<close>

text \<open>
  What a client of the store relies on for an operation on the key \<open>k\<close>: the operation marks nothing
  but \<open>k\<close> (at most twice: once for an expired entry it removes, once for its own write), leaves the
  entries of all other keys alone, and keeps the invariant. An undefined execution is \<^const>\<open>None\<close>.
\<close>

locale keyed_operation =
  fixes op :: "key \<Rightarrow> database \<Rightarrow> database option"
  assumes op_touches: "op k db = Some db' \<Longrightarrow> \<exists>n \<le> 2. touches (replicate n k) db db'"
    and op_wf: "op k db = Some db' \<Longrightarrow> db_wf db \<Longrightarrow> db_wf db'"
begin

lemma op_other_key: "op k db = Some db' \<Longrightarrow> j \<noteq> k \<Longrightarrow> entries db' j = entries db j"
  using op_touches [of k db db'] by (auto dest: touches_unmarked)

lemma op_fresh:
  assumes "op k db = Some db'" "revisions_fresh db" "unat (next_revision db) + 2 < 2 ^ 64"
  shows "revisions_fresh db'"
proof -
  obtain n where n: "n \<le> 2" "touches (replicate n k) db db'" using op_touches [OF assms(1)] by blast
  show ?thesis by (rule touches_fresh [OF assms(2) n(2)]) (use n(1) assms(3) in simp)
qed

text \<open>A value never changes behind the back of the revision log.\<close>

lemma op_change_detected:
  assumes "op k db = Some db'" "revisions_fresh db" "unat (next_revision db) + 2 < 2 ^ 64"
    and "entries db' j \<noteq> entries db j"
  shows "key_revisions db' j \<noteq> key_revisions db j"
proof -
  obtain n where n: "n \<le> 2" "touches (replicate n k) db db'" using op_touches [OF assms(1)] by blast
  with assms(4) have "j \<in> set (replicate n k)" by (auto dest: touches_unmarked)
  then show ?thesis using touches_changed_iff [OF assms(2) n(2)] assms(3) n(1) by simp
qed

end

section \<open>Every operation meets the contract\<close>

lemma put_put [simp]: "put_entry k e (put_entry k d db) = put_entry k e db"
  by (simp add: put_entry_def)

lemma find_touches: "\<exists>n \<le> 1. touches (replicate n k) db (fst (find_active_entry now k db))"
proof (cases rule: find_active_entry_cases [of db k now])
  case absent
  then show ?thesis by (intro exI [of _ 0]) simp
next
  case (expired e)
  then show ?thesis by (intro exI [of _ 1]) (simp add: touches_one)
next
  case (active e)
  then show ?thesis by (intro exI [of _ 0]) simp
qed

lemma find_touches_le2: "\<exists>n \<le> 2. touches (replicate n k) db (fst (find_active_entry now k db))"
  using find_touches [of k db now] by (meson le_trans one_le_numeral)

lemma touches_mark:
  assumes "touches ks db db1" "\<And>j. j \<noteq> k \<Longrightarrow> entries db2 j = entries db1 j"
    "key_revisions db2 = key_revisions db1" "next_revision db2 = next_revision db1"
  shows "touches (ks @ [k]) db (mark_key_modified k db2)"
  by (rule touches_trans [OF assms(1)]) (use assms(2-4) in \<open>simp add: touches_one\<close>)

text \<open>A write on \<open>k\<close> after looking \<open>k\<close> up: at most two marks in all.\<close>

lemma find_then_mark:
  assumes "\<And>j. j \<noteq> k \<Longrightarrow> entries db2 j = entries (fst (find_active_entry now k db)) j"
    "key_revisions db2 = key_revisions (fst (find_active_entry now k db))"
    "next_revision db2 = next_revision (fst (find_active_entry now k db))"
  shows "\<exists>n \<le> 2. touches (replicate n k) db (mark_key_modified k db2)"
proof -
  obtain n where n: "n \<le> 1" "touches (replicate n k) db (fst (find_active_entry now k db))"
    using find_touches by blast
  have "touches (replicate n k @ [k]) db (mark_key_modified k db2)"
    using n(2) assms by (rule touches_mark)
  then have "touches (replicate (Suc n) k) db (mark_key_modified k db2)"
    by (simp add: replicate_append_same)
  with n(1) show ?thesis by (intro exI [of _ "Suc n"]) simp
qed

text \<open>Shape of the operations that look a key up and write at most that key.\<close>

lemma keyed_operation_lookup:
  assumes "\<And>k db. op k db = None \<or> op k db = Some (fst (find_active_entry now k db))"
  shows "keyed_operation op"
proof
  show "\<exists>n \<le> 2. touches (replicate n k) db db'" if "op k db = Some db'" for k db db'
    using assms [of k db] that find_touches_le2 [of k db now] by auto
  show "db_wf db'" if "op k db = Some db'" "db_wf db" for k db db'
    using assms [of k db] that by (auto intro: wf_intros)
qed

lemma fst_lookups:
  "fst (db_get now k db) = fst (find_active_entry now k db)"
  "fst (get_type now k db) = fst (find_active_entry now k db)"
  "fst (list_elements now k i j db) = fst (find_active_entry now k db)"
  "fst (get_list_length now k db) = fst (find_active_entry now k db)"
  "fst (key_revision now k db) = fst (find_active_entry now k db)"
  by (auto simp: db_get_def get_type_def list_elements_def get_list_length_def key_revision_def Let_def
      split: prod.splits option.splits db_value.splits)

lemma stream_range_lookup:
  "map_option fst (stream_range now k start stop db) \<in> {None, Some (fst (find_active_entry now k db))}"
  by (auto simp: stream_range_def split: prod.splits option.splits db_value.splits bind_splits)

interpretation get_op: keyed_operation "\<lambda>k db. Some (fst (db_get now k db))" for now
  by (rule keyed_operation_lookup [of _ now]) (simp add: fst_lookups)

interpretation type_op: keyed_operation "\<lambda>k db. Some (fst (get_type now k db))" for now
  by (rule keyed_operation_lookup [of _ now]) (simp add: fst_lookups)

interpretation list_elements_op: keyed_operation "\<lambda>k db. Some (fst (list_elements now k start stop db))"
  for now start stop
  by (rule keyed_operation_lookup [of _ now]) (simp add: fst_lookups)

interpretation list_length_op: keyed_operation "\<lambda>k db. Some (fst (get_list_length now k db))" for now
  by (rule keyed_operation_lookup [of _ now]) (simp add: fst_lookups)

interpretation revision_op: keyed_operation "\<lambda>k db. Some (fst (key_revision now k db))" for now
  by (rule keyed_operation_lookup [of _ now]) (simp add: fst_lookups)

interpretation stream_range_op: keyed_operation "\<lambda>k db. map_option fst (stream_range now k start stop db)"
  for now start stop
  by (rule keyed_operation_lookup [of _ now]) (use stream_range_lookup in blast)

text \<open>
  Shape of the operations that look a key up and then either return or mark the key after storing or
  erasing its entry.
\<close>

lemma keyed_operation_write:
  assumes "\<And>k db db'. op k db = Some db' \<Longrightarrow>
      db' = fst (find_active_entry now k db) \<or>
      (\<exists>e. db' = mark_key_modified k (put_entry k e (fst (find_active_entry now k db))) \<and>
           (db_wf db \<longrightarrow> entry_wf e)) \<or>
      db' = mark_key_modified k (erase_entry k (fst (find_active_entry now k db)))"
  shows "keyed_operation op"
proof
  fix k db db'
  assume op: "op k db = Some db'"
  show "\<exists>n \<le> 2. touches (replicate n k) db db'"
    using assms [OF op] find_touches_le2 [of k db now]
    by (elim disjE exE) (auto intro: find_then_mark [where now = now])
  show "db_wf db'" if "db_wf db"
    using assms [OF op] that by (elim disjE exE) (auto intro!: wf_intros)
qed

lemma set_write:
  "db_set now k v expiry db = Some db' \<Longrightarrow>
   \<exists>t. db' = mark_key_modified k (put_entry k \<lparr>entry_value = StringValue v, expires_at = t\<rparr> db)"
  by (auto simp: db_set_def split: option.splits bind_splits)

interpretation set_op: keyed_operation "\<lambda>k db. db_set now k v expiry db" for now v expiry
proof
  fix k db db'
  assume "db_set now k v expiry db = Some db'"
  then obtain t where db': "db' = mark_key_modified k (put_entry k \<lparr>entry_value = StringValue v, expires_at = t\<rparr> db)"
    using set_write by blast
  have "touches (replicate 1 k) db db'" using db' by (simp add: touches_one)
  then show "\<exists>n \<le> 2. touches (replicate n k) db db'" by (meson one_le_numeral)
  show "db_wf db'" if "db_wf db" using db' that by (auto intro!: wf_intros simp: entry_wf_def)
qed

lemma add_list_elements_write:
  assumes "new_values \<noteq> []" and db': "db' = fst (add_list_elements now k new_values mode db)"
  shows "db' = fst (find_active_entry now k db) \<or>
    (\<exists>e. db' = mark_key_modified k (put_entry k e (fst (find_active_entry now k db))) \<and>
         (db_wf db \<longrightarrow> entry_wf e))"
proof (cases rule: find_active_entry_cases [of db k now])
  case (active e)
  with db_wf_live [of db now k e] assms show ?thesis
    by (auto simp: add_list_elements_def entry_wf_def Let_def split: db_value.splits)
qed (use assms in \<open>auto simp: add_list_elements_def entry_wf_def Let_def\<close>)

interpretation add_list_op: keyed_operation "\<lambda>k db. Some (fst (add_list_elements now k (v # vs) mode db))"
  for now v vs mode
  by (rule keyed_operation_write [of _ now])
    (use add_list_elements_write [of "v # vs", OF _ refl] in fastforce)

lemma store_popped_cases:
  assumes "db_wf db" "live now db k = Some e" "entry_value e = ListValue ys"
  shows "store_popped k e xs db' = mark_key_modified k (erase_entry k db') \<or>
   (\<exists>e'. store_popped k e xs db' = mark_key_modified k (put_entry k e' db') \<and> entry_wf e')"
  using db_wf_live [OF assms(1,2)] assms(3) by (cases xs) (auto simp: store_popped_def entry_wf_def)

lemma store_popped_shape:
  "store_popped k e xs db' = mark_key_modified k (erase_entry k db') \<or>
   (\<exists>e'. store_popped k e xs db' = mark_key_modified k (put_entry k e' db'))"
  by (cases xs) (auto simp: store_popped_def)

lemma popped_write:
  assumes "db' = fst (find_active_entry now k db) \<or>
     (\<exists>e ys xs. live now db k = Some e \<and> entry_value e = ListValue ys \<and>
                db' = store_popped k e xs (fst (find_active_entry now k db)))"
  shows "db' = fst (find_active_entry now k db) \<or>
      (\<exists>e. db' = mark_key_modified k (put_entry k e (fst (find_active_entry now k db))) \<and>
           (db_wf db \<longrightarrow> entry_wf e)) \<or>
      db' = mark_key_modified k (erase_entry k (fst (find_active_entry now k db)))"
  using assms store_popped_cases [of db now k] store_popped_shape
  by (cases "db_wf db") (elim disjE exE conjE; metis)+

lemma pop_list_element_write:
  "fst (pop_list_element now k db) = fst (find_active_entry now k db) \<or>
     (\<exists>e ys xs. live now db k = Some e \<and> entry_value e = ListValue ys \<and>
                fst (pop_list_element now k db) = store_popped k e xs (fst (find_active_entry now k db)))"
  by (cases rule: find_active_entry_cases [of db k now])
    (auto simp: pop_list_element_def split: db_value.splits list.splits)

lemma pop_list_elements_write:
  "fst (pop_list_elements now k n db) = fst (find_active_entry now k db) \<or>
     (\<exists>e ys xs. live now db k = Some e \<and> entry_value e = ListValue ys \<and>
                fst (pop_list_elements now k n db) = store_popped k e xs (fst (find_active_entry now k db)))"
  by (cases rule: find_active_entry_cases [of db k now])
    (auto simp: pop_list_elements_def split: db_value.splits prod.splits)

interpretation pop_op: keyed_operation "\<lambda>k db. Some (fst (pop_list_element now k db))" for now
  by (rule keyed_operation_write [of _ now]) (use popped_write [OF pop_list_element_write] in auto)

interpretation pops_op: keyed_operation "\<lambda>k db. Some (fst (pop_list_elements now k n db))" for now n
  by (rule keyed_operation_write [of _ now]) (use popped_write [OF pop_list_elements_write] in auto)

lemma increment_key_write:
  assumes "increment_key now k db = Some (db', r)"
  shows "db' = fst (find_active_entry now k db) \<or>
    (\<exists>e. db' = mark_key_modified k (put_entry k e (fst (find_active_entry now k db))) \<and> entry_wf e)"
  using assms
  by (auto simp: increment_key_def entry_wf_def split: prod.splits option.splits db_value.splits bind_splits)

interpretation increment_op: keyed_operation "\<lambda>k db. map_option fst (increment_key now k db)" for now
  by (rule keyed_operation_write [of _ now]) (use increment_key_write in \<open>force\<close>)

section \<open>Streams stay strictly ordered\<close>

lemma sorted_wrt_snoc:
  "sorted_wrt (<) (xs @ [x]) \<longleftrightarrow> sorted_wrt (<) xs \<and> (xs = [] \<or> last xs < (x :: 'a :: linorder))"
proof (cases xs rule: rev_cases)
  case (snoc ys y)
  then show ?thesis by (auto simp: sorted_wrt_append)
qed simp

lemma add_stream_write:
  assumes db': "db' = fst (add_stream now unix_ms k req new_values db)"
  shows "db' = fst (find_active_entry now k db) \<or>
    (\<exists>e. db' = mark_key_modified k (put_entry k e (fst (find_active_entry now k db))) \<and>
         (db_wf db \<longrightarrow> entry_wf e))"
proof (cases rule: find_active_entry_cases [of db k now])
  case (active e)
  have "entry_wf e" if "db_wf db" using that active(3) by (rule db_wf_live)
  with active show ?thesis
    unfolding db'
    by (auto simp: add_stream_def entry_wf_def Let_def sorted_wrt_snoc last_map not_le split: db_value.splits)
qed (auto simp: db' add_stream_def entry_wf_def Let_def)

interpretation add_stream_op: keyed_operation "\<lambda>k db. Some (fst (add_stream now unix_ms k req new_values db))"
  for now unix_ms req new_values
  by (rule keyed_operation_write [of _ now]) (use add_stream_write in blast)

section \<open>The binary search finds the partition point\<close>

text \<open>
  The interface of a search in an ordered sequence: on a good list, the elements that lie before the
  position of \<open>v\<close> form a prefix. The search then returns the length of that prefix.
\<close>

locale ordered_search =
  fixes go_right :: "'v \<Rightarrow> 'a \<Rightarrow> bool" and good :: "'a list \<Rightarrow> bool"
  assumes prefix_closed: "good xs \<Longrightarrow> i \<le> j \<Longrightarrow> j < length xs \<Longrightarrow> go_right v (xs ! j) \<Longrightarrow> go_right v (xs ! i)"
begin

lemma bound_search_partition:
  assumes "good xs" "first + len \<le> length xs" "\<And>i. i < first \<Longrightarrow> go_right v (xs ! i)"
    "\<And>i. first + len \<le> i \<Longrightarrow> i < length xs \<Longrightarrow> \<not> go_right v (xs ! i)"
  shows "bound_search (go_right v) xs first len = length (takeWhile (go_right v) xs)"
  using assms
proof (induction len arbitrary: first rule: less_induct)
  case (less len)
  show ?case
  proof (cases "len = 0")
    case True
    have "takeWhile (go_right v) xs = take first xs"
      using less.prems True by (intro takeWhile_eq_take_P_nth) auto
    with True less.prems(2) show ?thesis by (simp add: bound_search.simps [of _ _ first 0])
  next
    case False
    let ?m = "first + len div 2"
    have m: "?m < length xs" using False less.prems(2) by linarith
    show ?thesis
    proof (cases "go_right v (xs ! ?m)")
      case True
      have left: "go_right v (xs ! i)" if "i < ?m + 1" for i
        using prefix_closed [OF assms(1), of i ?m v] True m that by simp
      have "bound_search (go_right v) xs (?m + 1) (len - len div 2 - 1) = length (takeWhile (go_right v) xs)"
        using False less.prems by (intro less.IH left) auto
      with False True show ?thesis by (simp add: bound_search.simps [of _ _ first len] Let_def)
    next
      case F: False
      have right: "\<not> go_right v (xs ! i)" if "?m \<le> i" "i < length xs" for i
        using prefix_closed [OF assms(1), of ?m i v] F that by blast
      have "bound_search (go_right v) xs first (len div 2) = length (takeWhile (go_right v) xs)"
        using False less.prems right by (intro less.IH) auto
      with False F show ?thesis by (simp add: bound_search.simps [of _ _ first len] Let_def)
    qed
  qed
qed

lemma behind_partition:
  assumes "good xs" "x \<in> set (dropWhile (go_right v) xs)"
  shows "\<not> go_right v x"
proof -
  let ?n = "length (takeWhile (go_right v) xs)"
  obtain i where i: "i < length (drop ?n xs)" "x = drop ?n xs ! i"
    using assms(2) unfolding dropWhile_eq_drop by (metis in_set_conv_nth)
  then have "\<not> go_right v (xs ! ?n)" by (intro nth_length_takeWhile) simp
  moreover have "?n + i < length xs" using i(1) by simp
  ultimately show ?thesis using prefix_closed [OF assms(1), of ?n "?n + i" v] i(2) by auto
qed

lemma take_search:
  assumes "good xs"
  shows "take (bound_search (go_right v) xs 0 (length xs)) xs = filter (go_right v) xs"
proof -
  have "takeWhile (go_right v) xs = filter (go_right v) xs"
    by (rule takeWhile_eq_filter) (rule behind_partition [OF assms])
  with bound_search_partition [OF assms, of 0 "length xs" v] show ?thesis
    by (metis add_0 le_refl less_nat_zero_code linorder_not_le takeWhile_eq_take)
qed

lemma search_filter:
  assumes "good xs"
  shows "bound_search (go_right v) xs 0 (length xs) = length (filter (go_right v) xs)"
proof -
  have "bound_search (go_right v) xs 0 (length xs) \<le> length xs"
    using bound_search_partition [OF assms, of 0 "length xs" v] by (simp add: length_takeWhile_le)
  then show ?thesis by (simp flip: take_search [OF assms])
qed

lemma drop_search:
  assumes "good xs"
  shows "drop (bound_search (go_right v) xs 0 (length xs)) xs = filter (\<lambda>x. \<not> go_right v x) xs"
proof -
  let ?n = "bound_search (go_right v) xs 0 (length xs)"
  have "drop ?n xs = dropWhile (go_right v) xs"
    using bound_search_partition [OF assms, of 0 "length xs" v] by (simp add: dropWhile_eq_drop)
  then have "filter (\<lambda>x. \<not> go_right v x) (drop ?n xs) = drop ?n xs"
    by (simp add: filter_id_conv behind_partition [OF assms])
  moreover have "filter (\<lambda>x. \<not> go_right v x) (take ?n xs) = []"
    by (simp add: take_search [OF assms])
  ultimately have "filter (\<lambda>x. \<not> go_right v x) (take ?n xs @ drop ?n xs) = drop ?n xs"
    by (simp only: filter_append append_Nil)
  then show ?thesis by simp
qed

end

text \<open>The IDs of a well-formed stream, as the entries in memory see them.\<close>

abbreviation ordered :: "stream_entry list \<Rightarrow> bool" where
  "ordered es \<equiv> sorted_wrt (<) (map entry_id es)"

lemma ordered_nth: "ordered es \<Longrightarrow> i \<le> j \<Longrightarrow> j < length es \<Longrightarrow> entry_id (es ! i) \<le> entry_id (es ! j)"
  by (cases "i = j") (auto simp: sorted_wrt_iff_nth_less intro: less_imp_le)

interpretation lower: ordered_search "\<lambda>i e. entry_id e < i" ordered
  by unfold_locales (use ordered_nth in \<open>fastforce intro: le_less_trans\<close>)

interpretation upper: ordered_search "\<lambda>i e. \<not> i < entry_id e" ordered
  by unfold_locales (use ordered_nth in \<open>fastforce intro: less_le_trans\<close>)

lemma lower_bound_eq: "ordered es \<Longrightarrow> lower_bound es i = length (filter (\<lambda>e. entry_id e < i) es)"
  by (simp add: lower_bound_def lower.search_filter)

lemma upper_bound_eq: "ordered es \<Longrightarrow> upper_bound es i = length (filter (\<lambda>e. entry_id e \<le> i) es)"
  using upper.search_filter [of es i] by (simp add: upper_bound_def not_less)

lemma drop_lower_bound: "ordered es \<Longrightarrow> drop (lower_bound es i) es = filter (\<lambda>e. i \<le> entry_id e) es"
  using lower.drop_search [of es i] by (simp add: lower_bound_def not_less)

lemma drop_upper_bound: "ordered es \<Longrightarrow> drop (upper_bound es i) es = filter (\<lambda>e. i < entry_id e) es"
  using upper.drop_search [of es i] by (simp add: upper_bound_def)

text \<open>The reference answer of a range query, and when the iterator range is valid.\<close>

lemma bounds_order:
  assumes "ordered es"
  shows "lower_bound es a \<le> upper_bound es b \<longleftrightarrow> a \<le> b \<or> \<not> (\<exists>e \<in> set es. b < entry_id e \<and> entry_id e < a)"
proof -
  let ?lo = "\<lambda>e. entry_id e < a" and ?hi = "\<lambda>e. entry_id e \<le> b"
  show ?thesis
  proof (cases "a \<le> b")
    case True
    then have imp: "?lo e \<Longrightarrow> ?hi e" for e by (meson less_imp_le order_trans)
    have "length (filter ?lo es) \<le> length (filter ?hi es)"
      by (induction es) (auto dest: imp)
    with True assms show ?thesis by (simp add: lower_bound_eq upper_bound_eq)
  next
    case False
    have "length (filter ?lo es) = length (filter ?hi es) + length (filter (\<lambda>e. b < entry_id e \<and> entry_id e < a) es)"
      by (induction es) (use False in auto)
    with False assms show ?thesis
      by (auto simp: lower_bound_eq upper_bound_eq filter_empty_conv)
  qed
qed

lemma copy_range_filter:
  assumes "ordered es" "lower_bound es a \<le> upper_bound es b"
  shows "copy_range es (lower_bound es a) (upper_bound es b) =
         Some (filter (\<lambda>e. a \<le> entry_id e \<and> entry_id e \<le> b) es)"
proof -
  let ?lo = "lower_bound es a" and ?hi = "upper_bound es b"
  have low: "take ?lo es = filter (\<lambda>e. entry_id e < a) es"
    by (simp add: lower_bound_def lower.take_search assms(1))
  have hi: "take ?hi es = filter (\<lambda>e. entry_id e \<le> b) es"
    using upper.take_search [OF assms(1), of b] by (simp add: upper_bound_def not_less)
  have "set (drop ?lo (take ?hi es)) \<subseteq> set (drop ?lo es)"
    by (simp add: drop_take set_take_subset)
  then have "filter (\<lambda>e. a \<le> entry_id e) (drop ?lo (take ?hi es)) = drop ?lo (take ?hi es)"
    using drop_lower_bound [OF assms(1), of a] by (auto simp: filter_id_conv)
  moreover have "filter (\<lambda>e. a \<le> entry_id e) (take ?lo es) = []"
    using low by (auto simp: filter_empty_conv)
  moreover have "take ?hi es = take ?lo es @ drop ?lo (take ?hi es)"
    using assms(2) by (metis append_take_drop_id min.absorb1 take_take)
  ultimately have "filter (\<lambda>e. a \<le> entry_id e) (take ?hi es) = drop ?lo (take ?hi es)"
    by (metis append_Nil filter_append)
  with hi assms(2) show ?thesis by (simp add: copy_range_def conj_commute)
qed

end
