(* ===== verification/Database_Correct.thy ===== *)
theory Database_Correct
  imports Database
begin

text \<open>
  What the operations of the store compute. \<open>db_step\<close> is the step relation of the store (one rule per
  public method), \<open>db_reachable\<close> the states it can get into. The reference definitions are: the list
  held by a key (\<open>list_view\<close>) with the deque operations on it, the index arithmetic of \<open>LRANGE\<close>
  (\<open>range_slice\<close>), the stream held by a key (\<open>stream_view\<close>) with filters on IDs, and the content at a
  moment (\<open>live\<close>).
\<close>

section \<open>The store as a state machine\<close>

inductive db_step :: "database \<Rightarrow> database \<Rightarrow> bool" where
  step_set: "db_set now k v expiry db = Some db' \<Longrightarrow> db_step db db'"
| step_get: "db_step db (fst (db_get now k db))"
| step_type: "db_step db (fst (get_type now k db))"
| step_keys: "db_step db (fst (db_keys now order db))"
| step_add_list: "vs \<noteq> [] \<Longrightarrow> db_step db (fst (add_list_elements now k vs mode db))"
| step_list_elements: "db_step db (fst (list_elements now k start stop db))"
| step_list_length: "db_step db (fst (get_list_length now k db))"
| step_pop: "db_step db (fst (pop_list_element now k db))"
| step_pops: "db_step db (fst (pop_list_elements now k n db))"
| step_add_stream: "db_step db (fst (add_stream now unix_ms k req vs db))"
| step_stream_range: "stream_range now k start stop db = Some (db', r) \<Longrightarrow> db_step db db'"
| step_read_streams: "db_step db (fst (read_streams clk requests db))"
| step_increment: "increment_key now k db = Some (db', r) \<Longrightarrow> db_step db db'"
| step_revision: "db_step db (fst (key_revision now k db))"

text \<open>A run of the store, with the keys that it marked as modified on its way.\<close>

inductive db_steps :: "key list \<Rightarrow> database \<Rightarrow> database \<Rightarrow> bool" where
  steps_refl: "db_steps [] db db"
| steps_step: "db_steps ks db db1 \<Longrightarrow> db_step db1 db2 \<Longrightarrow> touches js db1 db2 \<Longrightarrow> db_steps (ks @ js) db db2"

inductive db_reachable :: "database \<Rightarrow> bool" where
  reach_empty: "db_reachable empty_database"
| reach_step: "db_reachable db \<Longrightarrow> db_step db db' \<Longrightarrow> db_reachable db'"

section \<open>Tracked changes\<close>

text \<open>
  \<open>tracked K db db'\<close>: the way from \<open>db\<close> to \<open>db'\<close> keeps the invariant, and what it changed it also
  marked, all inside the key set \<open>K\<close>. The relation is reflexive and composes, so it carries from single
  operations to traversals, handlers and whole runs.
\<close>

definition tracked :: "key set \<Rightarrow> database \<Rightarrow> database \<Rightarrow> bool" where
  "tracked K db db' \<longleftrightarrow> (\<exists>ks. set ks \<subseteq> K \<and> touches ks db db') \<and> (db_wf db \<longrightarrow> db_wf db')"

lemma tracked_refl [simp]: "tracked K db db"
  by (auto simp: tracked_def intro: exI [of _ "[]"])

lemma tracked_mono: "tracked K db db' \<Longrightarrow> K \<subseteq> L \<Longrightarrow> tracked L db db'"
  by (auto simp: tracked_def)

lemma tracked_trans:
  assumes "tracked K db db1" "tracked K db1 db2"
  shows "tracked K db db2"
proof -
  obtain ks js where "set ks \<subseteq> K" "touches ks db db1" "set js \<subseteq> K" "touches js db1 db2"
    using assms by (auto simp: tracked_def)
  then have "set (ks @ js) \<subseteq> K" "touches (ks @ js) db db2" using touches_trans by auto
  with assms show ?thesis unfolding tracked_def by blast
qed

lemma tracked_wf: "tracked K db db' \<Longrightarrow> db_wf db \<Longrightarrow> db_wf db'"
  by (simp add: tracked_def)

lemma tracked_other: "tracked K db db' \<Longrightarrow> k \<notin> K \<Longrightarrow> entries db' k = entries db k"
  by (auto simp: tracked_def touches_def)

lemma tracked_find [simp]: "tracked {k} db (fst (find_active_entry now k db))"
proof -
  obtain n where "touches (replicate n k) db (fst (find_active_entry now k db))"
    using find_touches by blast
  then show ?thesis unfolding tracked_def by (auto intro: wf_intros exI [of _ "replicate n k"])
qed

context keyed_operation
begin

lemma op_tracked: "op k db = Some db' \<Longrightarrow> tracked {k} db db'"
  using op_touches [of k db db'] op_wf [of k db db'] unfolding tracked_def
  by (metis empty_iff insert_iff set_replicate_conv_if subsetI)

end

lemmas op_trackeds =
  set_op.op_tracked get_op.op_tracked [OF refl] type_op.op_tracked [OF refl]
  list_elements_op.op_tracked [OF refl] list_length_op.op_tracked [OF refl]
  pop_op.op_tracked [OF refl] pops_op.op_tracked [OF refl] add_stream_op.op_tracked [OF refl]
  revision_op.op_tracked [OF refl]

lemma add_list_tracked: "vs \<noteq> [] \<Longrightarrow> tracked {k} db (fst (add_list_elements now k vs mode db))"
  using add_list_op.op_tracked [OF refl] by (cases vs) auto

lemma stream_range_tracked: "stream_range now k start stop db = Some (db', r) \<Longrightarrow> tracked {k} db db'"
  by (rule stream_range_op.op_tracked [where now = now and start = start and stop = stop]) simp

lemma increment_tracked: "increment_key now k db = Some (db', r) \<Longrightarrow> tracked {k} db db'"
  by (rule increment_op.op_tracked [where now = now]) simp

lemma keys_loop_tracked: "tracked (set ks) db (fst (keys_loop now ks db result))"
proof (induction ks arbitrary: db result)
  case Nil
  then show ?case by simp
next
  case (Cons k ks)
  show ?case
  proof (cases "\<exists>e. entries db k = Some e \<and> is_expired now e")
    case True
    then obtain e where e: "entries db k = Some e" "is_expired now e" by blast
    let ?d = "erase_entry k (mark_key_modified k db)"
    have "tracked (set (k # ks)) db ?d"
      unfolding tracked_def by (auto simp: touches_def intro: wf_intros exI [of _ "[k]"])
    moreover have "tracked (set (k # ks)) ?d (fst (keys_loop now ks ?d result))"
      using Cons.IH by (rule tracked_mono) auto
    ultimately have "tracked (set (k # ks)) db (fst (keys_loop now ks ?d result))" by (rule tracked_trans)
    with e show ?thesis by simp
  next
    case False
    then have "keys_loop now (k # ks) db result =
        keys_loop now ks db (case entries db k of None \<Rightarrow> result | Some _ \<Rightarrow> result @ [k])"
      by (auto split: option.splits)
    moreover have "tracked (set (k # ks)) db (fst (keys_loop now ks db r))" for r
      using Cons.IH by (rule tracked_mono) auto
    ultimately show ?thesis by simp
  qed
qed

lemma resolve_requests_tracked: "tracked (read_key ` set rs) db (fst (resolve_requests clk i rs db))"
proof (induction rs arbitrary: db i)
  case Nil
  then show ?case by simp
next
  case (Cons r rs)
  let ?K = "read_key ` set (r # rs)"
  let ?d = "fst (find_active_entry (clk i) (read_key r) db)"
  have one: "tracked ?K db ?d" by (rule tracked_mono [OF tracked_find]) simp
  have "tracked ?K ?d (fst (resolve_requests clk (Suc i) rs ?d))" using Cons.IH by (rule tracked_mono) auto
  with one have "tracked ?K db (fst (resolve_requests clk (Suc i) rs ?d))" by (rule tracked_trans)
  moreover have "fst (resolve_requests clk i (r # rs) db) \<in> {?d, fst (resolve_requests clk (Suc i) rs ?d)}"
    by (auto simp: Let_def split: option.splits db_value.splits prod.splits)
  ultimately show ?case using one by auto
qed

lemma collect_results_tracked: "tracked (read_key ` set rs) db (fst (collect_results clk i rs db results))"
proof (induction rs arbitrary: db i results)
  case Nil
  then show ?case by simp
next
  case (Cons r rs)
  let ?K = "read_key ` set (r # rs)"
  let ?d = "fst (find_active_entry (clk i) (read_key r) db)"
  have one: "tracked ?K db ?d" by (rule tracked_mono [OF tracked_find]) simp
  have "tracked ?K ?d (fst (collect_results clk (Suc i) rs ?d res))" for res
    using Cons.IH by (rule tracked_mono) auto
  with one have two: "tracked ?K db (fst (collect_results clk (Suc i) rs ?d res))" for res
    by (blast intro: tracked_trans)
  have "fst (collect_results clk i (r # rs) db results) = ?d \<or>
      (\<exists>res. fst (collect_results clk i (r # rs) db results) = fst (collect_results clk (Suc i) rs ?d res))"
    by (auto simp: Let_def split: option.splits db_value.splits prod.splits)
  then show ?case using one two by auto
qed

lemma resolve_requests_keys: "map read_key (fst (snd (resolve_requests clk i rs db))) = map read_key rs"
proof (induction rs arbitrary: db i)
  case (Cons r rs)
  have IH: "map read_key rs' = map read_key rs"
    if "resolve_requests clk (Suc i) rs d = (db2, rs', ok)" for d db2 rs' ok
    using Cons.IH [of "Suc i" d] that by simp
  show ?case
    by (auto simp: Let_def dest: IH split: option.splits db_value.splits prod.splits)
qed simp

lemma read_streams_tracked: "tracked (read_key ` set requests) db (fst (read_streams clk requests db))"
proof -
  obtain db1 rs1 ok where r: "resolve_requests clk 0 requests db = (db1, rs1, ok)"
    by (metis prod_cases3)
  have keys: "read_key ` set rs1 = read_key ` set requests"
    using resolve_requests_keys [of clk 0 requests db] r by (metis fst_conv list.set_map snd_conv)
  have one: "tracked (read_key ` set requests) db db1"
    using resolve_requests_tracked [of requests db clk 0] r by simp
  have "tracked (read_key ` set requests) db1 (fst (collect_results clk (length requests) rs1 db1 []))"
    using collect_results_tracked [of rs1] keys by simp
  with one show ?thesis
    using r by (auto simp: read_streams_def split: prod.splits intro: tracked_trans)
qed

lemma db_step_tracked: "db_step db db' \<Longrightarrow> tracked UNIV db db'"
proof (induction rule: db_step.induct)
  case (step_keys db now order)
  show ?case unfolding db_keys_def by (rule tracked_mono [OF keys_loop_tracked]) simp
next
  case (step_add_list vs db now k mode)
  then show ?case by (rule tracked_mono [OF add_list_tracked]) simp
next
  case (step_stream_range now k start stop db db' r)
  then show ?case by (rule tracked_mono [OF stream_range_tracked]) simp
next
  case (step_read_streams db clk requests)
  show ?case by (rule tracked_mono [OF read_streams_tracked]) simp
next
  case (step_increment now k db db' r)
  then show ?case by (rule tracked_mono [OF increment_tracked]) simp
qed (blast intro: tracked_mono op_trackeds)+

lemma db_reachable_wf: "db_reachable db \<Longrightarrow> db_wf db"
  by (induction rule: db_reachable.induct) (auto intro: wf_intros tracked_wf db_step_tracked)

text \<open>Every reachable state is the end of a run whose marks are known.\<close>

lemma db_reachable_steps: "db_reachable db \<Longrightarrow> \<exists>ks. db_steps ks empty_database db"
proof (induction rule: db_reachable.induct)
  case (reach_step db db')
  then obtain ks where "db_steps ks empty_database db" by blast
  moreover obtain js where "touches js db db'"
    using db_step_tracked [OF reach_step(2)] by (auto simp: tracked_def)
  ultimately show ?case using reach_step(2) by (blast intro: steps_step)
qed (blast intro: steps_refl)

lemma db_steps_touches: "db_steps ks db db' \<Longrightarrow> touches ks db db'"
  by (induction rule: db_steps.induct) (auto intro: touches_trans)

section \<open>The state machine keeps the invariant and an exact revision log\<close>

text \<open>
  C17: In every state the store can reach from empty, no key holds an empty list or an empty stream,
  the entries of every stream are strictly increasing in their IDs, and only strings carry an
  expiration time.
\<close>

theorem store_invariant: "db_reachable db \<Longrightarrow> db_wf db"
  by (rule db_reachable_wf)

theorem store_invariant_witness:
  "db_wf (fst (add_list_elements 0 ''l'' [''a'', ''b''] PREPEND empty_database))"
proof (rule store_invariant)
  have "db_step empty_database (fst (add_list_elements 0 ''l'' [''a'', ''b''] PREPEND empty_database))"
    by (rule step_add_list) simp
  then show "db_reachable (fst (add_list_elements 0 ''l'' [''a'', ''b''] PREPEND empty_database))"
    by (rule reach_step [OF reach_empty])
qed



section \<open>Lists are double-ended queues\<close>

text \<open>The list that a key holds at a moment: empty if there is none, undefined for another type.\<close>

definition list_view :: "time_point \<Rightarrow> database \<Rightarrow> key \<Rightarrow> string list option" where
  "list_view now db k =
     (case live now db k of
        None \<Rightarrow> Some []
      | Some e \<Rightarrow> (case entry_value e of ListValue xs \<Rightarrow> Some xs | _ \<Rightarrow> None))"

lemma live_store [simp]:
  "live now (mark_key_modified k db) = live now db"
  "live now (put_entry k e db) j = (if j = k then (if is_expired now e then None else Some e) else live now db j)"
  "live now (erase_entry k db) j = (if j = k then None else live now db j)"
  by (auto simp: live_def fun_eq_iff)

lemma live_find [simp]: "live now (fst (find_active_entry now k db)) = live now db"
  by (cases rule: find_active_entry_cases [of db k now]) (auto simp: fun_eq_iff)

lemma is_expired_update [simp]: "is_expired now (e\<lparr>entry_value := v\<rparr>) = is_expired now e"
  "\<not> is_expired now \<lparr>entry_value = v, expires_at = None\<rparr>"
  by (simp_all add: is_expired_def)

lemma list_view_cases:
  obtains (wrong) e where "live now db k = Some e" "\<forall>xs. entry_value e \<noteq> ListValue xs" "list_view now db k = None"
  | (absent) "live now db k = None" "list_view now db k = Some []"
  | (present) e xs where "live now db k = Some e" "entry_value e = ListValue xs" "list_view now db k = Some xs"
  by (cases "live now db k"; cases "entry_value (the (live now db k))") (auto simp: list_view_def)

lemma find_live:
  "live now db k = Some e \<Longrightarrow> find_active_entry now k db = (db, Some e) \<and> \<not> is_expired now e"
  by (cases rule: find_active_entry_cases [of db k now]) auto

lemma find_none:
  "live now db k = None \<Longrightarrow> \<exists>db'. find_active_entry now k db = (db', None) \<and> live now db' = live now db"
  by (cases rule: find_active_entry_cases [of db k now]) (auto simp: fun_eq_iff)

lemma pop_front_loop_eq: "n \<le> length xs \<Longrightarrow> pop_front_loop n xs result = (drop n xs, result @ take n xs)"
  by (induction n xs result rule: pop_front_loop.induct) auto

lemma list_view_mark_put:
  "list_view now (mark_key_modified k (put_entry k e db)) k =
     (if is_expired now e then Some [] else case entry_value e of ListValue xs \<Rightarrow> Some xs | _ \<Rightarrow> None)"
  by (simp add: list_view_def)

lemma list_view_popped:
  "\<not> is_expired now e \<Longrightarrow> list_view now (store_popped k e xs db) k = Some xs"
  by (simp add: store_popped_def list_view_def)

lemma add_list_elements_view:
  assumes "list_view now db k = Some xs"
  shows "snd (add_list_elements now k vs mode db) = Inr (length xs + length vs) \<and>
    list_view now (fst (add_list_elements now k vs mode db)) k =
      Some (if mode = APPEND then xs @ vs else rev vs @ xs)"
proof (cases rule: list_view_cases [of now db k])
  case absent
  with assms find_none [OF absent(1)] show ?thesis
    by (auto simp: add_list_elements_def Let_def list_view_mark_put)
next
  case (present e ys)
  with assms find_live [OF present(1)] show ?thesis
    by (auto simp: add_list_elements_def Let_def list_view_mark_put)
qed (use assms in simp)

lemma pop_list_element_view:
  assumes "list_view now db k = Some xs"
  shows "(case xs of
       [] \<Rightarrow> snd (pop_list_element now k db) = Inl KEY_NOT_FOUND
     | x # xs' \<Rightarrow> snd (pop_list_element now k db) = Inr x) \<and>
    list_view now (fst (pop_list_element now k db)) k = Some (tl xs)"
proof (cases rule: list_view_cases [of now db k])
  case absent
  with assms find_none [OF absent(1)] show ?thesis
    by (auto simp: pop_list_element_def list_view_def)
next
  case (present e ys)
  with assms find_live [OF present(1)] show ?thesis
    by (cases ys) (auto simp: pop_list_element_def list_view_popped)
qed (use assms in simp)

lemma pop_list_elements_view:
  assumes "list_view now db k = Some xs" "0 < n"
  shows "snd (pop_list_elements now k n db) = (if xs = [] then Inl KEY_NOT_FOUND else Inr (take (nat n) xs)) \<and>
    list_view now (fst (pop_list_elements now k n db)) k = Some (drop (nat n) xs)"
proof (cases rule: list_view_cases [of now db k])
  case absent
  with assms find_none [OF absent(1)] show ?thesis
    by (auto simp: pop_list_elements_def list_view_def)
next
  case (present e ys)
  with assms find_live [OF present(1)] show ?thesis
    by (cases "ys = []")
      (auto simp: pop_list_elements_def list_view_popped pop_front_loop_eq min_def)
qed (use assms in simp)

lemma get_list_length_view:
  "list_view now db k = Some xs \<Longrightarrow> snd (get_list_length now k db) = Inr (length xs)"
  by (cases rule: list_view_cases [of now db k])
    (auto simp: get_list_length_def dest!: find_live find_none)

lemma list_operations_wrong_type:
  assumes "list_view now db k = None"
  shows "add_list_elements now k vs mode db = (db, Inl WRONG_TYPE)"
    and "pop_list_element now k db = (db, Inl WRONG_TYPE)"
    and "pop_list_elements now k n db = (db, Inl WRONG_TYPE)"
    and "get_list_length now k db = (db, Inl WRONG_TYPE)"
    and "list_elements now k i j db = (db, Inl WRONG_TYPE)"
  using assms
  by (cases rule: list_view_cases [of now db k];
      auto simp: add_list_elements_def pop_list_element_def pop_list_elements_def get_list_length_def
        list_elements_def Let_def dest: find_live split: db_value.splits)+

text \<open>
  The interface of a list as seen by the code that queues work on it: pushes at both ends, pops at
  the front. The laws give the order in which elements come out again.
\<close>

locale deque =
  fixes view :: "'s \<Rightarrow> 'a list option"
    and push_back :: "'a list \<Rightarrow> 's \<Rightarrow> 's"
    and push_front :: "'a list \<Rightarrow> 's \<Rightarrow> 's"
    and pop :: "'s \<Rightarrow> 's"
    and front :: "'s \<Rightarrow> 'a option"
  assumes view_push_back: "view s = Some xs \<Longrightarrow> view (push_back vs s) = Some (xs @ vs)"
    and view_push_front: "view s = Some xs \<Longrightarrow> view (push_front vs s) = Some (rev vs @ xs)"
    and view_pop: "view s = Some xs \<Longrightarrow> view (pop s) = Some (tl xs)"
    and view_front: "view s = Some xs \<Longrightarrow> front s = (if xs = [] then None else Some (hd xs))"
begin

lemma view_pops: "view s = Some xs \<Longrightarrow> view ((pop ^^ n) s) = Some (drop n xs)"
  by (induction n) (auto simp: view_pop tl_drop drop_Suc)

lemma pops_in_order:
  assumes "view s = Some xs"
  shows "map (\<lambda>n. front ((pop ^^ n) s)) [0..<length xs] = map Some xs"
  by (rule nth_equalityI) (auto simp: view_front [OF view_pops [OF assms]] hd_drop_conv_nth)

lemma fifo:
  assumes "view s = Some xs"
  shows "map (\<lambda>n. front ((pop ^^ n) (push_back vs s))) [0..<length xs + length vs] = map Some (xs @ vs)"
  using pops_in_order [OF view_push_back [OF assms]] by simp

lemma lifo:
  assumes "view s = Some xs"
  shows "map (\<lambda>n. front ((pop ^^ n) (push_front vs s))) [0..<length vs + length xs] = map Some (rev vs @ xs)"
  using pops_in_order [OF view_push_front [OF assms]] by simp

end

interpretation list_deque: deque
  "\<lambda>db. list_view now db k"
  "\<lambda>vs db. fst (add_list_elements now k vs APPEND db)"
  "\<lambda>vs db. fst (add_list_elements now k vs PREPEND db)"
  "\<lambda>db. fst (pop_list_element now k db)"
  "\<lambda>db. case snd (pop_list_element now k db) of Inl _ \<Rightarrow> None | Inr x \<Rightarrow> Some x"
  for now k
proof
  fix s xs assume v: "list_view now s k = Some xs"
  show "list_view now (fst (add_list_elements now k vs APPEND s)) k = Some (xs @ vs)" for vs
    using add_list_elements_view [OF v] by simp
  show "list_view now (fst (add_list_elements now k vs PREPEND s)) k = Some (rev vs @ xs)" for vs
    using add_list_elements_view [OF v] by simp
  show "list_view now (fst (pop_list_element now k s)) k = Some (tl xs)"
    using pop_list_element_view [OF v] by simp
  show "(case snd (pop_list_element now k s) of Inl _ \<Rightarrow> None | Inr x \<Rightarrow> Some x) =
      (if xs = [] then None else Some (hd xs))"
    using pop_list_element_view [OF v] by (cases xs) auto
qed

section \<open>Index ranges\<close>

text \<open>
  The elements whose index lies between the two bounds, where a negative bound counts from the end:
  no clamping is needed to say it.
\<close>

definition from_end :: "nat \<Rightarrow> int \<Rightarrow> int" where
  "from_end n i = (if i < 0 then i + int n else i)"

definition range_slice :: "'a list \<Rightarrow> int \<Rightarrow> int \<Rightarrow> 'a list" where
  "range_slice xs start stop =
     map ((!) xs)
       (filter (\<lambda>i. from_end (length xs) start \<le> int i \<and> int i \<le> from_end (length xs) stop) [0..<length xs])"

lemma filter_upt_interval: "filter (\<lambda>i. m \<le> i \<and> i < n) [0..<k] = [m..<min n k]"
  by (induction k) (auto simp: min_def le_Suc_eq)

lemma map_nth_interval: "n \<le> length xs \<Longrightarrow> map ((!) xs) [m..<n] = drop m (take n xs)"
  by (rule nth_equalityI) auto

lemma range_slice_drop_take:
  assumes "0 \<le> from_end (length xs) stop"
  shows "range_slice xs start stop =
    drop (nat (from_end (length xs) start)) (take (nat (min (from_end (length xs) stop + 1) (int (length xs)))) xs)"
proof -
  let ?a = "from_end (length xs) start" and ?b = "from_end (length xs) stop"
  have "(\<lambda>i. ?a \<le> int i \<and> int i \<le> ?b) = (\<lambda>i. nat ?a \<le> i \<and> i < nat (?b + 1))"
    using assms by (auto simp: fun_eq_iff)
  moreover have "min (nat (?b + 1)) (length xs) = nat (min (?b + 1) (int (length xs)))" by linarith
  ultimately show ?thesis
    unfolding range_slice_def by (simp only: filter_upt_interval map_nth_interval min.cobounded2 refl)
qed

lemma range_slice_empty:
  "from_end (length xs) stop < 0 \<or> from_end (length xs) stop < from_end (length xs) start \<or>
   int (length xs) \<le> from_end (length xs) start \<Longrightarrow> range_slice xs start stop = []"
  by (auto simp: range_slice_def filter_empty_conv)

lemma list_elements_view:
  assumes "list_view now db k = Some xs"
  shows "snd (list_elements now k start stop db) = Inr (range_slice xs start stop)"
proof (cases rule: list_view_cases [of now db k])
  case absent
  with assms have "xs = []" by simp
  with find_none [OF absent(1)] show ?thesis by (auto simp: list_elements_def range_slice_def)
next
  case (present e ys)
  then have eq: "ys = xs" using assms by simp
  let ?a = "from_end (length xs) start" and ?b = "from_end (length xs) stop"
  show ?thesis
  proof (cases "?b < 0 \<or> ?b < ?a \<or> int (length xs) \<le> ?a")
    case True
    with range_slice_empty [OF True] present eq find_live [OF present(1)] show ?thesis
      by (auto simp: list_elements_def Let_def from_end_def)
  next
    case False
    with range_slice_drop_take [of xs stop start] present eq find_live [OF present(1)] show ?thesis
      by (auto simp: list_elements_def Let_def from_end_def min_def split: if_splits)
  qed
qed (use assms in simp)

text \<open>
  The list operations refine a double-ended queue. If a key holds the list \<open>xs\<close> (an absent or
  expired key counts as empty), appending and prepending store \<open>xs @ vs\<close> and \<open>rev vs @ xs\<close> and return the
  new length, popping returns the head and stores the tail, popping \<open>n\<close> returns and removes the first
  \<open>n\<close>, the length query returns the length, and a range query returns the elements whose index lies
  between the bounds, negative bounds counting from the end.
\<close>

theorem list_operations_refine_deque:
  assumes "list_view now db k = Some xs" and "0 < n"
  shows "snd (add_list_elements now k vs APPEND db) = Inr (length xs + length vs) \<and>
    list_view now (fst (add_list_elements now k vs APPEND db)) k = Some (xs @ vs) \<and>
    snd (add_list_elements now k vs PREPEND db) = Inr (length xs + length vs) \<and>
    list_view now (fst (add_list_elements now k vs PREPEND db)) k = Some (rev vs @ xs) \<and>
    snd (pop_list_element now k db) = (if xs = [] then Inl KEY_NOT_FOUND else Inr (hd xs)) \<and>
    list_view now (fst (pop_list_element now k db)) k = Some (tl xs) \<and>
    snd (pop_list_elements now k n db) = (if xs = [] then Inl KEY_NOT_FOUND else Inr (take (nat n) xs)) \<and>
    list_view now (fst (pop_list_elements now k n db)) k = Some (drop (nat n) xs) \<and>
    snd (get_list_length now k db) = Inr (length xs) \<and>
    snd (list_elements now k start stop db) = Inr (range_slice xs start stop)"
  using add_list_elements_view [OF assms(1), of vs APPEND] add_list_elements_view [OF assms(1), of vs PREPEND]
    pop_list_element_view [OF assms(1)] pop_list_elements_view [OF assms]
    get_list_length_view [OF assms(1)] list_elements_view [OF assms(1)]
  by (cases xs) simp_all

theorem list_operations_refine_deque_witness:
  "list_view 5 (fst (add_list_elements 5 ''q'' [''a'', ''b''] PREPEND empty_database)) ''q'' = Some [''b'', ''a'']"
proof -
  have "list_view 5 empty_database ''q'' = Some []"
    by (simp add: list_view_def live_def empty_database_def)
  from list_operations_refine_deque [OF this zero_less_one, of "[''a'', ''b'']"] show ?thesis by simp
qed

text \<open>
  Elements leave a list in the order the pushes prescribe: after appending \<open>vs\<close> to a key that holds
  \<open>xs\<close>, repeated pops return \<open>xs\<close> and then \<open>vs\<close>, first in first out; after prepending, they return
  \<open>vs\<close> in reverse and then \<open>xs\<close>.
\<close>

lemma list_pop_order:
  assumes "list_view now db k = Some xs"
  shows "map (\<lambda>n. case snd (pop_list_element now k (((\<lambda>d. fst (pop_list_element now k d)) ^^ n)
              (fst (add_list_elements now k vs APPEND db)))) of Inl _ \<Rightarrow> None | Inr x \<Rightarrow> Some x)
           [0..<length xs + length vs] = map Some (xs @ vs) \<and>
    map (\<lambda>n. case snd (pop_list_element now k (((\<lambda>d. fst (pop_list_element now k d)) ^^ n)
              (fst (add_list_elements now k vs PREPEND db)))) of Inl _ \<Rightarrow> None | Inr x \<Rightarrow> Some x)
           [0..<length vs + length xs] = map Some (rev vs @ xs)"
  using list_deque.fifo [OF assms] list_deque.lifo [OF assms] by simp_all

lemma list_pop_order_witness:
  "map (\<lambda>n. case snd (pop_list_element 0 ''q'' (((\<lambda>d. fst (pop_list_element 0 ''q'' d)) ^^ n)
              (fst (add_list_elements 0 ''q'' [''a'', ''b''] APPEND empty_database)))) of Inl _ \<Rightarrow> None | Inr x \<Rightarrow> Some x)
     [0, 1] = [Some ''a'', Some ''b'']"
proof -
  have v: "list_view 0 empty_database ''q'' = Some []"
    by (simp add: list_view_def live_def empty_database_def)
  have i: "[0..<length ([] :: string list) + length [''a'', ''b'']] = [0, 1]" by (simp add: upt_rec)
  show ?thesis using list_pop_order [OF v, of "[''a'', ''b'']"] unfolding i by simp
qed

text \<open>
  Type errors are detected and change nothing: on a key that holds a live value of another type,
  every list operation returns \<open>WRONG_TYPE\<close> and leaves the store exactly as it was.
\<close>

lemma list_operations_type_error:
  assumes "list_view now db k = None"
  shows "add_list_elements now k vs mode db = (db, Inl WRONG_TYPE) \<and>
    pop_list_element now k db = (db, Inl WRONG_TYPE) \<and>
    pop_list_elements now k n db = (db, Inl WRONG_TYPE) \<and>
    get_list_length now k db = (db, Inl WRONG_TYPE) \<and>
    list_elements now k i j db = (db, Inl WRONG_TYPE)"
  using list_operations_wrong_type [OF assms] by simp

lemma list_operations_type_error_witness:
  "pop_list_element 0 ''s'' (the (db_set 0 ''s'' ''v'' None empty_database)) =
     (the (db_set 0 ''s'' ''v'' None empty_database), Inl WRONG_TYPE)"
proof -
  have "list_view 0 (the (db_set 0 ''s'' ''v'' None empty_database)) ''s'' = None"
    by (simp add: list_view_def db_set_def)
  then show ?thesis using list_operations_type_error by blast
qed

end
