(* ===== verification/Database_Queries.thy ===== *)
theory Database_Queries
  imports Database_Correct
begin

text \<open>
  The store's strings with their expiration times, counters, the enumeration of keys, and streams:
  appending with the three ID modes, range queries by binary search, and reads behind a position.
\<close>

section \<open>Strings and expiration\<close>

lemma db_get_live:
  "snd (db_get now k db) =
     (case live now db k of
        None \<Rightarrow> Inl KEY_NOT_FOUND
      | Some e \<Rightarrow> (case entry_value e of StringValue s \<Rightarrow> Inr s | _ \<Rightarrow> Inl WRONG_TYPE))"
  by (cases rule: find_active_entry_cases [of db k now])
    (auto simp: db_get_def split: db_value.splits)

lemma entries_find: "entries (fst (find_active_entry now k db)) j = (if j = k then live now db j else entries db j)"
  by (cases rule: find_active_entry_cases [of db k now]) (auto simp: live_def)

lemma db_set_entry:
  assumes "db_set now k v expiry db = Some db'"
  shows "entries db' = (entries db)(k \<mapsto> \<lparr>entry_value = StringValue v,
    expires_at = map_option (\<lambda>ms. now + ms * 1000000) expiry\<rparr>)"
  using assms by (auto simp: db_set_def deadline_after_def split: option.splits bind_splits)

text \<open>
  C19: A string is readable until its expiration time and gone from then on. After \<open>SET\<close> at the time
  \<open>now\<close>, a read at any later time returns the value if there is no expiry or the expiry has not been
  reached; otherwise it reports a missing key and removes the entry. Reads of other keys are not
  affected.
\<close>

theorem set_then_get:
  assumes "db_set now k v expiry db = Some db'"
  shows "snd (db_get later k db') =
      (case expiry of
         None \<Rightarrow> Inr v
       | Some ms \<Rightarrow> if now + ms * 1000000 \<le> later then Inl KEY_NOT_FOUND else Inr v) \<and>
    (expiry = Some ms \<and> now + ms * 1000000 \<le> later \<longrightarrow> entries (fst (db_get later k db')) k = None) \<and>
    (j \<noteq> k \<longrightarrow> snd (db_get later j db') = snd (db_get later j db))"
  using db_set_entry [OF assms]
  by (auto simp: db_get_live fst_lookups entries_find live_def is_expired_def split: option.splits)

theorem set_then_get_witness:
  "snd (db_get 4999999 ''k'' (the (db_set 0 ''k'' ''v'' (Some 5) empty_database))) = Inr ''v'' \<and>
   snd (db_get 5000000 ''k'' (the (db_set 0 ''k'' ''v'' (Some 5) empty_database))) = Inl KEY_NOT_FOUND"
proof -
  have "db_set 0 ''k'' ''v'' (Some 5) empty_database =
      Some (the (db_set 0 ''k'' ''v'' (Some 5) empty_database))"
    by (simp add: db_set_def deadline_after_def checked_int64_def int64_range_def)
  note set_then_get [OF this]
  from this [of 4999999] this [of 5000000] show ?thesis by simp
qed

section \<open>Counters\<close>

lemma parse_value_dec: "int64_range i \<Longrightarrow> parse_value_to_increment (dec_of_int i) = Some i"
  using from_chars_signed_dec [of 64 i]
  by (simp add: parse_value_to_increment_def int64_range_def dec_of_int_def)

lemma increment_key_live:
  "increment_key now k db =
     (case live now db k of
        None \<Rightarrow>
          Some (mark_key_modified k (put_entry k \<lparr>entry_value = StringValue (dec_of_int 1), expires_at = None\<rparr>
                  (fst (find_active_entry now k db))), Inr 1)
      | Some e \<Rightarrow>
          (case entry_value e of
             StringValue text \<Rightarrow>
               (case parse_value_to_increment text of
                  None \<Rightarrow> Some (db, Inl VALUE_NOT_INTEGER)
                | Some n \<Rightarrow>
                    if int64_range (n + 1)
                    then Some (mark_key_modified k (put_entry k (e\<lparr>entry_value := StringValue (dec_of_int (n + 1))\<rparr>) db),
                               Inr (n + 1))
                    else None)
           | _ \<Rightarrow> Some (db, Inl WRONG_TYPE)))"
  by (cases rule: find_active_entry_cases [of db k now])
    (auto simp: increment_key_def checked_int64_def split: db_value.splits option.splits)

fun increments :: "time_point \<Rightarrow> key \<Rightarrow> nat \<Rightarrow> database \<Rightarrow> database option" where
  "increments now k 0 db = Some db"
| "increments now k (Suc n) db = Option.bind (increments now k n db) (\<lambda>d. map_option fst (increment_key now k d))"

lemma increments_from_absent:
  assumes "live now db k = None" "int n < 2 ^ 63 - 1"
  shows "\<exists>db'. increments now k (Suc n) db = Some db' \<and>
    live now db' k = Some \<lparr>entry_value = StringValue (dec_of_int (int n + 1)), expires_at = None\<rparr>"
  using assms(2)
proof (induction n)
  case 0
  then show ?case using assms(1) by (simp add: increment_key_live)
next
  case (Suc n)
  then obtain d where d: "increments now k (Suc n) db = Some d"
    "live now d k = Some \<lparr>entry_value = StringValue (dec_of_int (int n + 1)), expires_at = None\<rparr>"
    by auto
  have "int64_range (int n + 1)" "int64_range (int n + 1 + 1)"
    using Suc.prems by (simp_all add: int64_range_def)
  then have "increment_key now k d = Some (mark_key_modified k
      (put_entry k \<lparr>entry_value = StringValue (dec_of_int (int n + 1 + 1)), expires_at = None\<rparr> d), Inr (int n + 1 + 1))"
    using d(2) by (simp add: increment_key_live parse_value_dec)
  with d(1) show ?case by (simp add: add.commute)
qed

text \<open>
  \<open>INCR\<close> counts. From a key that is absent or expired, \<open>n\<close> increments followed by one more return
  \<open>n + 1\<close> and leave the decimal text of that number in the store, for every \<open>n\<close> up to the largest
  signed 64-bit value; the increment after that has no defined result.
\<close>

theorem incr_counts:
  assumes "live now db k = None" "int n < 2 ^ 63"
  shows "\<exists>db'. increments now k n db = Some db' \<and>
     (if int n < 2 ^ 63 - 1
      then \<exists>db2. increment_key now k db' = Some (db2, Inr (int n + 1)) \<and>
                 snd (db_get now k db2) = Inr (dec_of_int (int n + 1))
      else increment_key now k db' = None)"
proof (cases n)
  case 0
  then show ?thesis using assms(1) by (simp add: increment_key_live db_get_live)
next
  case (Suc m)
  then obtain d where d: "increments now k n db = Some d"
    "live now d k = Some \<lparr>entry_value = StringValue (dec_of_int (int n)), expires_at = None\<rparr>"
    using increments_from_absent [OF assms(1), of m] assms(2) by (auto simp: add.commute)
  have "int64_range (int n)" using assms(2) by (simp add: int64_range_def)
  moreover have "int64_range (int n + 1) \<longleftrightarrow> int n < 2 ^ 63 - 1" using assms(2) by (auto simp: int64_range_def)
  ultimately show ?thesis
    using d by (simp add: increment_key_live parse_value_dec db_get_live)
qed

theorem incr_counts_witness:
  "\<exists>db'. increments 0 ''c'' 9 empty_database = Some db' \<and>
     (\<exists>db2. increment_key 0 ''c'' db' = Some (db2, Inr 10) \<and> snd (db_get 0 ''c'' db2) = Inr (dec_of_int 10))"
proof -
  have "live 0 empty_database ''c'' = None" by (simp add: live_def empty_database_def)
  moreover have "int 9 < 2 ^ 63" by simp
  ultimately have "\<exists>db'. increments 0 ''c'' 9 empty_database = Some db' \<and>
     (if int 9 < 2 ^ 63 - 1
      then \<exists>db2. increment_key 0 ''c'' db' = Some (db2, Inr (int 9 + 1)) \<and>
                 snd (db_get 0 ''c'' db2) = Inr (dec_of_int (int 9 + 1))
      else increment_key 0 ''c'' db' = None)"
    by (rule incr_counts)
  then show ?thesis by simp
qed

section \<open>Enumerating the keys\<close>

lemma keys_loop_spec:
  assumes "distinct ks" "set ks \<inter> set result = {}" "distinct result"
  shows "set (snd (keys_loop now ks db result)) = set result \<union> {k \<in> set ks. live now db k \<noteq> None} \<and>
    distinct (snd (keys_loop now ks db result)) \<and>
    (\<forall>j. entries (fst (keys_loop now ks db result)) j = (if j \<in> set ks then live now db j else entries db j))"
  using assms
proof (induction ks arbitrary: db result)
  case Nil
  then show ?case by simp
next
  case (Cons k ks)
  let ?d = "erase_entry k (mark_key_modified k db)"
  consider (absent) "entries db k = None" "live now db k = None"
    | (expired) e where "entries db k = Some e" "is_expired now e" "live now db k = None"
    | (active) e where "entries db k = Some e" "\<not> is_expired now e" "live now db k = Some e"
    by (cases rule: find_active_entry_cases [of db k now]) auto
  then show ?case
  proof cases
    case absent
    then show ?thesis using Cons.IH [of result db] Cons.prems by auto
  next
    case expired
    then show ?thesis using Cons.IH [of result ?d] Cons.prems by auto
  next
    case active
    then show ?thesis using Cons.IH [of "result @ [k]" db] Cons.prems by auto
  qed
qed

text \<open>
  C20: \<open>KEYS\<close> is exact and sweeps: for every order in which the hash table can be traversed, the result
  contains exactly the keys whose entries have not expired, each once, and afterwards the store
  contains those entries and no others.
\<close>

theorem keys_exact:
  assumes "set order = dom (entries db)" "distinct order"
  shows "set (snd (db_keys now order db)) = {k. live now db k \<noteq> None} \<and>
    distinct (snd (db_keys now order db)) \<and>
    entries (fst (db_keys now order db)) = live now db"
proof -
  have out: "live now db k = None" "entries db k = None" if "k \<notin> set order" for k
    using that assms(1) by (auto simp: live_def dom_def)
  show ?thesis
    using keys_loop_spec [OF assms(2), of "[]" now db] out
    by (auto simp: db_keys_def fun_eq_iff)
qed

theorem keys_exact_witness:
  "set (snd (db_keys 7000000 [''b'', ''a''] (the (db_set 0 ''a'' ''1'' (Some 5) (the (db_set 0 ''b'' ''2'' None empty_database)))))) = {''b''}"
proof -
  let ?db = "the (db_set 0 ''a'' ''1'' (Some 5) (the (db_set 0 ''b'' ''2'' None empty_database)))"
  have e: "entries ?db =
      [''b'' \<mapsto> \<lparr>entry_value = StringValue ''2'', expires_at = None\<rparr>,
       ''a'' \<mapsto> \<lparr>entry_value = StringValue ''1'', expires_at = Some 5000000\<rparr>]"
    by (simp add: db_set_def deadline_after_def checked_int64_def int64_range_def empty_database_def)
  have "set [''b'', ''a''] = dom (entries ?db)" "distinct [''b'', ''a'']" unfolding e by auto
  note keys_exact [OF this, of 7000000]
  moreover have "{k. live 7000000 ?db k \<noteq> None} = {''b''}"
    unfolding live_def e by (auto simp: is_expired_def split: if_splits)
  ultimately show ?thesis by simp
qed

section \<open>Streams\<close>

text \<open>The stream that a key holds at a moment: empty if there is none, undefined for another type.\<close>

definition stream_view :: "time_point \<Rightarrow> database \<Rightarrow> key \<Rightarrow> stream_entry list option" where
  "stream_view now db k =
     (case live now db k of
        None \<Rightarrow> Some []
      | Some e \<Rightarrow> (case entry_value e of StreamValue es \<Rightarrow> Some es | _ \<Rightarrow> None))"

lemma stream_view_cases:
  obtains (wrong) e where "live now db k = Some e" "\<forall>es. entry_value e \<noteq> StreamValue es" "stream_view now db k = None"
  | (absent) "live now db k = None" "stream_view now db k = Some []"
  | (present) e es where "live now db k = Some e" "entry_value e = StreamValue es" "stream_view now db k = Some es"
  by (cases "live now db k"; cases "entry_value (the (live now db k))") (auto simp: stream_view_def)

lemma stream_view_ordered:
  "db_wf db \<Longrightarrow> stream_view now db k = Some es \<Longrightarrow> ordered es"
  by (cases rule: stream_view_cases [of now db k]) (auto simp: entry_wf_def dest: db_wf_live)

lemma stream_view_mark_put:
  "stream_view now (mark_key_modified k (put_entry k e db)) k =
     (if is_expired now e then Some [] else case entry_value e of StreamValue es \<Rightarrow> Some es | _ \<Rightarrow> None)"
  by (simp add: stream_view_def)

definition newest_id :: "stream_entry list \<Rightarrow> stream_id" where
  "newest_id es = (if es = [] then stream_id_zero else entry_id (last es))"

lemma add_stream_view:
  assumes "stream_view now db k = Some es"
  shows "let i = new_stream_id unix_ms req (es \<noteq> []) (newest_id es) in
    if es \<noteq> [] \<and> i \<le> newest_id es
    then snd (add_stream now unix_ms k req vs db) = Inl INVALID_STREAM_ID_VALUE \<and>
         fst (add_stream now unix_ms k req vs db) = db
    else snd (add_stream now unix_ms k req vs db) = Inr i \<and>
         stream_view now (fst (add_stream now unix_ms k req vs db)) k =
           Some (es @ [\<lparr>entry_id = i, entry_values = vs\<rparr>])"
proof (cases rule: stream_view_cases [of now db k])
  case absent
  with assms find_none [OF absent(1)] show ?thesis
    by (auto simp: add_stream_def Let_def newest_id_def stream_view_mark_put)
next
  case (present e xs)
  with assms find_live [OF present(1)] show ?thesis
    by (auto simp: add_stream_def Let_def newest_id_def stream_view_mark_put)
qed (use assms in simp)

lemma ordered_newest: "ordered es \<Longrightarrow> newest_id es < i \<Longrightarrow> e \<in> set es \<Longrightarrow> entry_id e < i"
  by (cases es rule: rev_cases) (auto simp: newest_id_def sorted_wrt_append intro: less_trans)

text \<open>
  C21: Streams only grow at their end. On a key that holds the stream \<open>es\<close> (possibly none), \<open>add_stream\<close>
  either appends one entry whose ID is above every ID in \<open>es\<close> and returns that ID, or reports an invalid
  ID and leaves the store as it was; it does the latter exactly when \<open>es\<close> has entries and the computed
  ID does not exceed the newest one.
\<close>

theorem stream_append:
  assumes "db_wf db" "stream_view now db k = Some es"
  shows "let i = new_stream_id unix_ms req (es \<noteq> []) (newest_id es) in
    if es \<noteq> [] \<and> i \<le> newest_id es
    then add_stream now unix_ms k req vs db = (db, Inl INVALID_STREAM_ID_VALUE)
    else snd (add_stream now unix_ms k req vs db) = Inr i \<and> (\<forall>e \<in> set es. entry_id e < i) \<and>
         stream_view now (fst (add_stream now unix_ms k req vs db)) k =
           Some (es @ [\<lparr>entry_id = i, entry_values = vs\<rparr>])"
  using add_stream_view [OF assms(2), of unix_ms req vs] ordered_newest [OF stream_view_ordered [OF assms]]
  by (auto simp: Let_def not_le prod_eq_iff split: if_splits)

theorem stream_append_witness:
  "snd (add_stream 0 0 ''s'' \<lparr>req_mode = EXPLICIT, req_milliseconds = 5, req_sequence = 1\<rparr> [(''f'', ''v'')] empty_database) =
     Inr (StreamId 5 1)"
proof -
  have "stream_view 0 empty_database ''s'' = Some []"
    by (simp add: stream_view_def live_def empty_database_def)
  from stream_append [OF db_wf_empty this, of 0 "\<lparr>req_mode = EXPLICIT, req_milliseconds = 5, req_sequence = 1\<rparr>" "[(''f'', ''v'')]"]
  show ?thesis by (simp add: Let_def new_stream_id_def)
qed

lemma word_add_one_le: "(w :: u64) + 1 \<le> w \<longleftrightarrow> w = - 1"
proof (cases "w = - 1")
  case False
  then have "1 + w \<noteq> 0" by (simp add: eq_neg_iff_add_eq_0 add.commute)
  from unatSuc [OF this] have "unat (w + 1) = Suc (unat w)" by (simp add: add.commute)
  with False show ?thesis by (simp add: word_le_nat_alt)
qed simp

text \<open>
  The two automatic ID modes give an acceptable ID whenever there is one. With \<open>*\<close> the entry is
  refused only if the newest ID has the largest sequence number and the clock is not past its
  millisecond part; with \<open>ms-*\<close> it is refused exactly if \<open>ms\<close> lies before the newest ID's millisecond
  part, or equals it and the sequence number is the largest one.
\<close>

lemma stream_automatic_ids:
  assumes "stream_view now db k = Some es"
  shows "(req_mode req = AUTOMATIC \<longrightarrow>
      (snd (add_stream now unix_ms k req vs db) = Inl INVALID_STREAM_ID_VALUE \<longleftrightarrow>
         es \<noteq> [] \<and> word_of_int unix_ms \<le> milliseconds (newest_id es) \<and> sequence (newest_id es) = - 1)) \<and>
    (req_mode req = AUTOMATIC_SEQUENCE \<longrightarrow>
      (snd (add_stream now unix_ms k req vs db) = Inl INVALID_STREAM_ID_VALUE \<longleftrightarrow>
         es \<noteq> [] \<and> (req_milliseconds req < milliseconds (newest_id es) \<or>
           req_milliseconds req = milliseconds (newest_id es) \<and> sequence (newest_id es) = - 1)))"
proof -
  have "snd (add_stream now unix_ms k req vs db) = Inl INVALID_STREAM_ID_VALUE \<longleftrightarrow>
      es \<noteq> [] \<and> new_stream_id unix_ms req (es \<noteq> []) (newest_id es) \<le> newest_id es"
    using add_stream_view [OF assms, of unix_ms req vs] by (auto simp: Let_def split: if_splits)
  then show ?thesis
    by (cases "newest_id es")
      (auto simp: new_stream_id_def Let_def less_eq_stream_id_def word_add_one_le)
qed

lemma stream_automatic_ids_witness:
  "snd (add_stream 0 1 ''s'' \<lparr>req_mode = AUTOMATIC, req_milliseconds = 0, req_sequence = 0\<rparr> [] empty_database)
     \<noteq> Inl INVALID_STREAM_ID_VALUE"
proof -
  have "stream_view 0 empty_database ''s'' = Some []"
    by (simp add: stream_view_def live_def empty_database_def)
  from stream_automatic_ids [OF this, of "\<lparr>req_mode = AUTOMATIC, req_milliseconds = 0, req_sequence = 0\<rparr>" 1 "[]"]
  show ?thesis by simp
qed

text \<open>
  C22: A range query by two binary searches returns exactly the entries whose ID lies between the two
  bounds, in order. It is undefined (the two iterators cross) exactly when the bounds are reversed and
  some entry lies strictly between them.
\<close>

theorem stream_range_exact:
  assumes "db_wf db" "live now db k = Some e" "entry_value e = StreamValue es"
  shows "stream_range now k a b db =
    (if b < a \<and> (\<exists>e \<in> set es. b < entry_id e \<and> entry_id e < a) then None
     else Some (db, Inr (filter (\<lambda>e. a \<le> entry_id e \<and> entry_id e \<le> b) es)))"
proof -
  have o: "ordered es" using db_wf_live [OF assms(1,2)] assms(3) by (simp add: entry_wf_def)
  have "copy_range es (lower_bound es a) (upper_bound es b) =
    (if b < a \<and> (\<exists>e \<in> set es. b < entry_id e \<and> entry_id e < a) then None
     else Some (filter (\<lambda>e. a \<le> entry_id e \<and> entry_id e \<le> b) es))"
    using bounds_order [OF o, of a b] copy_range_filter [OF o, of a b] by (auto simp: copy_range_def)
  then show ?thesis
    using find_live [OF assms(2)] assms(3) by (simp add: stream_range_def)
qed

definition three_entries :: database where
  "three_entries = put_entry ''s'' \<lparr>entry_value = StreamValue
     [\<lparr>entry_id = StreamId 1 0, entry_values = []\<rparr>, \<lparr>entry_id = StreamId 2 0, entry_values = []\<rparr>,
      \<lparr>entry_id = StreamId 3 0, entry_values = []\<rparr>], expires_at = None\<rparr> empty_database"

theorem stream_range_exact_witness:
  "stream_range 0 ''s'' (StreamId 2 0) (StreamId 9 0) three_entries =
     Some (three_entries, Inr [\<lparr>entry_id = StreamId 2 0, entry_values = []\<rparr>, \<lparr>entry_id = StreamId 3 0, entry_values = []\<rparr>]) \<and>
   stream_range 0 ''s'' (StreamId 3 0) (StreamId 1 0) three_entries = None"
proof -
  let ?es = "[\<lparr>entry_id = StreamId 1 0, entry_values = []\<rparr>, \<lparr>entry_id = StreamId 2 0, entry_values = []\<rparr>,
      \<lparr>entry_id = StreamId 3 0, entry_values = []\<rparr>]"
  have wf: "db_wf three_entries"
    unfolding three_entries_def by (intro wf_intros) (simp add: entry_wf_def less_stream_id_def)
  have l: "live 0 three_entries ''s'' = Some \<lparr>entry_value = StreamValue ?es, expires_at = None\<rparr>"
    by (simp add: three_entries_def)
  note spec = stream_range_exact [OF wf l, of ?es, simplified]
  show ?thesis
    using spec [of "StreamId 2 0" "StreamId 9 0"] spec [of "StreamId 3 0" "StreamId 1 0"]
    by (simp add: less_stream_id_def less_eq_stream_id_def)
qed

section \<open>Reading several streams\<close>

text \<open>
  The reference answer: every request is resolved to a position (the newest entry for \<open>$\<close>), and its
  result is the entries behind that position; a stream without such entries is left out.
\<close>

definition read_position :: "(key \<Rightarrow> stream_entry list) \<Rightarrow> read_request \<Rightarrow> stream_id" where
  "read_position S r = (if start_mode r = LATEST then newest_id (S (read_key r)) else after_id r)"

definition resolved :: "(key \<Rightarrow> stream_entry list) \<Rightarrow> read_request \<Rightarrow> read_request" where
  "resolved S r = (if start_mode r = LATEST then r\<lparr>after_id := read_position S r, start_mode := AFTER_ID\<rparr> else r)"

definition entries_behind :: "(key \<Rightarrow> stream_entry list) \<Rightarrow> read_request \<Rightarrow> read_result list" where
  "entries_behind S r =
     (let es = filter (\<lambda>e. read_position S r < entry_id e) (S (read_key r))
      in if es = [] then [] else [\<lparr>result_key = read_key r, result_entries = es\<rparr>])"

definition streams_are :: "(nat \<Rightarrow> time_point) \<Rightarrow> (key \<Rightarrow> stream_entry list) \<Rightarrow> key set \<Rightarrow> database \<Rightarrow> bool" where
  "streams_are clk S K db \<longleftrightarrow> (\<forall>k \<in> K. \<forall>i. stream_view (clk i) db k = Some (S k))"

lemma streams_are_find:
  assumes "streams_are clk S K db" "k \<in> K"
  shows "streams_are clk S K (fst (find_active_entry (clk i) k db))"
proof -
  have "stream_view (clk i) db k = Some (S k)" using assms by (simp add: streams_are_def)
  with assms(1) show ?thesis
    by (cases rule: find_active_entry_cases [of db k "clk i"])
      (auto simp: streams_are_def stream_view_def)
qed

lemma resolve_requests_spec:
  assumes "streams_are clk S K db" "read_key ` set rs \<subseteq> K"
  shows "\<exists>db'. resolve_requests clk i rs db = (db', map (resolved S) rs, True) \<and> streams_are clk S K db'"
  using assms
proof (induction rs arbitrary: db i)
  case Nil
  then show ?case by simp
next
  case (Cons r rs)
  let ?d = "fst (find_active_entry (clk i) (read_key r) db)"
  have v: "stream_view (clk i) db (read_key r) = Some (S (read_key r))"
    using Cons.prems by (simp add: streams_are_def)
  have "streams_are clk S K ?d" using Cons.prems by (intro streams_are_find) auto
  then obtain db' where IH: "resolve_requests clk (Suc i) rs ?d = (db', map (resolved S) rs, True)"
    "streams_are clk S K db'"
    using Cons.IH [of ?d "Suc i"] Cons.prems by auto
  show ?case
  proof (cases rule: stream_view_cases [of "clk i" db "read_key r"])
    case absent
    with v IH find_none [OF absent(1)] show ?thesis
      by (auto simp: resolved_def read_position_def newest_id_def)
  next
    case (present e es)
    with v IH find_live [OF present(1)] show ?thesis
      by (auto simp: resolved_def read_position_def newest_id_def)
  qed (use v in simp)
qed

lemma collect_results_spec:
  assumes "streams_are clk S K db" "read_key ` set rs \<subseteq> K" "\<forall>k \<in> K. ordered (S k)"
    "\<forall>r \<in> set rs. start_mode r = AFTER_ID"
  shows "\<exists>db'. collect_results clk i rs db results = (db', Inr (results @ concat (map (entries_behind S) rs))) \<and>
    streams_are clk S K db'"
  using assms(1,2,4)
proof (induction rs arbitrary: db i results)
  case Nil
  then show ?case by simp
next
  case (Cons r rs)
  let ?d = "fst (find_active_entry (clk i) (read_key r) db)"
  have v: "stream_view (clk i) db (read_key r) = Some (S (read_key r))"
    using Cons.prems by (simp add: streams_are_def)
  have "streams_are clk S K ?d" using Cons.prems by (intro streams_are_find) auto
  then have IH: "\<exists>db'. collect_results clk (Suc i) rs ?d res = (db', Inr (res @ concat (map (entries_behind S) rs))) \<and>
      streams_are clk S K db'" for res
    using Cons.IH [of ?d "Suc i" res] Cons.prems by auto
  have es: "drop (upper_bound (S (read_key r)) (after_id r)) (S (read_key r)) =
      filter (\<lambda>e. after_id r < entry_id e) (S (read_key r))"
    using assms(3) Cons.prems by (intro drop_upper_bound) auto
  have le: "upper_bound (S (read_key r)) (after_id r) \<le> length (S (read_key r))"
    using assms(3) Cons.prems by (subst upper_bound_eq) auto
  have pos: "read_position S r = after_id r" using Cons.prems by (simp add: read_position_def)
  show ?case
  proof (cases rule: stream_view_cases [of "clk i" db "read_key r"])
    case absent
    with v IH [of results] find_none [OF absent(1)] show ?thesis
      by (auto simp: entries_behind_def [of S r])
  next
    case (present e xs)
    show ?thesis
    proof (cases "upper_bound (S (read_key r)) (after_id r) = length (S (read_key r))")
      case True
      with present v IH [of results] es pos find_live [OF present(1)] show ?thesis
        by (auto simp: entries_behind_def [of S r])
    next
      case False
      with le have "drop (upper_bound (S (read_key r)) (after_id r)) (S (read_key r)) \<noteq> []" by simp
      with False present v es pos find_live [OF present(1)]
        IH [of "results @ [\<lparr>result_key = read_key r,
          result_entries = filter (\<lambda>e. after_id r < entry_id e) (S (read_key r))\<rparr>]"]
      show ?thesis
        by (auto simp: entries_behind_def [of S r] Let_def)
    qed
  qed (use v in simp)
qed

lemma entries_behind_resolved: "entries_behind S (resolved S r) = entries_behind S r"
  by (simp add: entries_behind_def resolved_def read_position_def Let_def)

lemma resolved_simps [simp]: "read_key (resolved S r) = read_key r" "start_mode (resolved S r) = AFTER_ID"
  by (cases "start_mode r"; simp add: resolved_def)+

text \<open>
  C23: Reading several streams. If every requested key holds a stream \<open>S k\<close> (possibly none) during the
  call, the result lists, request by request and without the empty ones, exactly the entries behind the
  request's position, where \<open>$\<close> stands for the newest entry at the time of the call; the requests are
  rewritten so that a retry uses the same positions, and no stream changes.
\<close>

theorem read_streams_exact:
  assumes "db_wf db" "streams_are clk S (read_key ` set requests) db"
  shows "snd (read_streams clk requests db) =
      (map (resolved S) requests, Inr (concat (map (entries_behind S) requests))) \<and>
    streams_are clk S (read_key ` set requests) (fst (read_streams clk requests db))"
proof -
  let ?K = "read_key ` set requests"
  have o: "\<forall>k \<in> ?K. ordered (S k)"
    using assms stream_view_ordered unfolding streams_are_def by blast
  obtain db1 where r: "resolve_requests clk 0 requests db = (db1, map (resolved S) requests, True)"
    and s1: "streams_are clk S ?K db1"
    using resolve_requests_spec [OF assms(2) order_refl, of 0] by blast
  obtain db2 where "collect_results clk (length requests) (map (resolved S) requests) db1 [] =
      (db2, Inr (concat (map (entries_behind S) (map (resolved S) requests))))"
    and "streams_are clk S ?K db2"
    using collect_results_spec [OF s1, of "map (resolved S) requests" "length requests" "[]"] o by force
  with r show ?thesis by (simp add: read_streams_def o_def entries_behind_resolved)
qed

theorem read_streams_exact_witness:
  "snd (snd (read_streams (\<lambda>_. 0) [\<lparr>read_key = ''s'', start_mode = AFTER_ID, after_id = StreamId 2 0\<rparr>] three_entries)) =
     Inr [\<lparr>result_key = ''s'', result_entries = [\<lparr>entry_id = StreamId 3 0, entry_values = []\<rparr>]\<rparr>]"
proof -
  let ?es = "[\<lparr>entry_id = StreamId 1 0, entry_values = []\<rparr>, \<lparr>entry_id = StreamId 2 0, entry_values = []\<rparr>,
      \<lparr>entry_id = StreamId 3 0, entry_values = []\<rparr>]"
  let ?r = "\<lparr>read_key = ''s'', start_mode = AFTER_ID, after_id = StreamId 2 0\<rparr>"
  have wf: "db_wf three_entries"
    unfolding three_entries_def by (intro wf_intros) (simp add: entry_wf_def less_stream_id_def)
  have "streams_are (\<lambda>_. 0) (\<lambda>_. ?es) (read_key ` set [?r]) three_entries"
    by (simp add: streams_are_def stream_view_def three_entries_def)
  from read_streams_exact [OF wf this] show ?thesis
    by (simp add: entries_behind_def read_position_def less_stream_id_def)
qed

end
