(* ===== verification/Resp.thy ===== *)
theory Resp
  imports Prelude "HOL-Library.Sublist"
begin

text \<open>
  The RESP layer (\<open>resp.hpp\<close>, \<open>resp.cpp\<close>): the command parser that a connection, the append-only
  file and the replication stream share, the command serializer, and the response serializer.

  The parser keeps the source's shape: it reads \<open>input\<close> from a position, and every early return is
  an outcome (\<open>Incomplete\<close> or \<open>ParseError\<close>). \<open>std::size_t\<close> positions are natural numbers; the two
  subtractions \<open>input.size() - position\<close> never go below zero, because \<open>read_line\<close> and the length
  check keep the position inside the input.

  The lemmas show: a serialized command parses back to itself and consumes exactly its own bytes,
  whatever follows; every strict prefix of it is reported as incomplete; more input never changes a
  decided outcome; progress and bounds of \<open>bytes_consumed\<close>. The locale \<open>framed_stream\<close> states these
  laws as the interface that the readers of command streams rely on. For responses, \<open>wire\<close> gives the
  protocol value that a response denotes, and the serialization of well-framed responses is a
  self-delimiting code for these values.
\<close>

section \<open>Commands\<close>

type_synonym command = "string list"

datatype parse_error_code = INVALID_FORMAT | INVALID_LENGTH

datatype parse_outcome =
    ParseResult (parsed_command: command) (bytes_consumed: nat)
  | Incomplete
  | ParseError (error_code: parse_error_code) (error_message: string)

definition read_line :: "string \<Rightarrow> nat \<Rightarrow> (string \<times> nat) option" where
  "read_line input position =
     (case find_crlf (drop position input) of
        None \<Rightarrow> None
      | Some n \<Rightarrow> Some (take n (drop position input), position + n + 2))"

definition parse_length :: "string \<Rightarrow> parse_outcome + nat" where
  "parse_length text =
     (case from_chars_unsigned 64 text of
        (end_, error, length_) \<Rightarrow>
          if text = [] \<or> error \<noteq> errc_ok \<or> end_ \<noteq> []
          then Inl (ParseError INVALID_LENGTH ''Invalid RESP length'')
          else Inr length_)"

text \<open>The loop over the bulk strings; its first argument counts the iterations still to run.\<close>

fun parse_arguments :: "string \<Rightarrow> nat \<Rightarrow> nat \<Rightarrow> command \<Rightarrow> parse_outcome" where
  "parse_arguments input 0 position command = ParseResult command position"
| "parse_arguments input (Suc remaining) position command =
     (if length input \<le> position then Incomplete
      else if input ! position \<noteq> CHR ''$'' then ParseError INVALID_FORMAT ''Expected RESP bulk string''
      else
        (case read_line input (position + 1) of
           None \<Rightarrow> Incomplete
         | Some (bulk_length_text, position1) \<Rightarrow>
             (case parse_length bulk_length_text of
                Inl e \<Rightarrow> e
              | Inr bulk_length \<Rightarrow>
                  if length input - position1 < bulk_length then Incomplete
                  else
                    let argument = take bulk_length (drop position1 input);
                        position2 = position1 + bulk_length
                    in if length input - position2 < 2 then Incomplete
                       else if input ! position2 \<noteq> CHR 0x0D \<or> input ! (position2 + 1) \<noteq> CHR 0x0A
                       then ParseError INVALID_FORMAT ''Bulk string must end with CRLF''
                       else parse_arguments input remaining (position2 + 2) (command @ [argument]))))"

definition parse_command :: "string \<Rightarrow> parse_outcome" where
  "parse_command input =
     (if input = [] then Incomplete
      else if hd input \<noteq> CHR ''*'' then ParseError INVALID_FORMAT ''Expected RESP array''
      else
        (case read_line input 1 of
           None \<Rightarrow> Incomplete
         | Some (array_length_text, position) \<Rightarrow>
             (case parse_length array_length_text of
                Inl e \<Rightarrow> e
              | Inr array_length \<Rightarrow> parse_arguments input array_length position [])))"

definition append_bulk_string :: "string \<Rightarrow> string \<Rightarrow> string" where
  "append_bulk_string out value =
     out @ ''$'' @ dec_of_nat (length value) @ crlf @ value @ crlf"

definition serialize_command :: "command \<Rightarrow> string" where
  "serialize_command command =
     foldl append_bulk_string (''*'' @ dec_of_nat (length command) @ crlf) command"

section \<open>Responses\<close>

datatype response =
    SimpleString string
  | SimpleError string
  | BulkString string
  | Integer int
  | NullBulkString
  | NullArray
  | EmptyArray
  | NoResponse
  | Array "string list"
  | ResponseArray "response list"

fun append_response :: "string \<Rightarrow> response \<Rightarrow> string" where
  "append_response out (SimpleString v) = out @ ''+'' @ v @ crlf"
| "append_response out (SimpleError v) = out @ ''-'' @ v @ crlf"
| "append_response out (BulkString v) = append_bulk_string out v"
| "append_response out (Integer v) = out @ '':'' @ dec_of_int v @ crlf"
| "append_response out NullBulkString = out @ ''$-1'' @ crlf"
| "append_response out NullArray = out @ ''*-1'' @ crlf"
| "append_response out EmptyArray = out @ ''*0'' @ crlf"
| "append_response out NoResponse = out"
| "append_response out (Array vs) =
     foldl append_bulk_string (out @ ''*'' @ dec_of_nat (length vs) @ crlf) vs"
| "append_response out (ResponseArray rs) =
     foldl append_response (out @ ''*'' @ dec_of_nat (length rs) @ crlf) rs"

definition serialize_response :: "response \<Rightarrow> string" where
  "serialize_response response = append_response [] response"

section \<open>The bytes of a command\<close>

definition enc_bulk :: "string \<Rightarrow> string" where
  "enc_bulk v = ''$'' @ dec_of_nat (length v) @ crlf @ v @ crlf"

text \<open>Sizes that \<open>std::size_t\<close> can hold: every command the program can build satisfies this.\<close>

definition sized :: "command \<Rightarrow> bool" where
  "sized command \<longleftrightarrow> length command < 2 ^ 64 \<and> (\<forall>a \<in> set command. length a < 2 ^ 64)"

lemma append_bulk_string_eq: "append_bulk_string out v = out @ enc_bulk v"
  by (simp add: append_bulk_string_def enc_bulk_def)

lemma foldl_append_bulk_string:
  "foldl append_bulk_string out vs = out @ concat (map enc_bulk vs)"
  by (induction vs arbitrary: out) (auto simp: append_bulk_string_eq)

lemma serialize_command_eq:
  "serialize_command c = ''*'' @ dec_of_nat (length c) @ crlf @ concat (map enc_bulk c)"
  by (simp add: serialize_command_def foldl_append_bulk_string)

lemma serialize_command_nonempty [simp]: "serialize_command c \<noteq> []"
  by (simp add: serialize_command_eq)

lemma serialize_command_inj_step: "enc_bulk v \<noteq> []"
  by (simp add: enc_bulk_def)

section \<open>Reading a line and a length\<close>

lemma read_line_at:
  "CHR 0x0D \<notin> set l \<Longrightarrow>
   read_line (pre @ l @ crlf @ rest) (length pre) = Some (l, length pre + length l + 2)"
  by (simp add: read_line_def find_crlf_line)

lemma read_line_bound:
  "read_line input p = Some (l, q) \<Longrightarrow> p + 2 \<le> q \<and> q \<le> length input"
  by (auto simp: read_line_def dest!: find_crlf_bound split: option.splits)

lemma read_line_append:
  "read_line input p = Some (l, q) \<Longrightarrow> read_line (input @ t) p = Some (l, q)"
  by (cases "p \<le> length input")
    (auto simp: read_line_def find_crlf_append dest: find_crlf_bound split: option.splits)

lemma parse_length_dec: "n < 2 ^ 64 \<Longrightarrow> parse_length (dec_of_nat n) = Inr n"
  using from_chars_unsigned_dec [of n 64] by (simp add: parse_length_def)

lemma parse_length_bound: "parse_length t = Inr n \<Longrightarrow> n < 2 ^ 64"
  using from_chars_unsigned_bound [of 64 t]
  by (auto simp: parse_length_def split: prod.splits if_splits)

lemma parse_length_error: "parse_length t = Inl e \<Longrightarrow> e = ParseError INVALID_LENGTH ''Invalid RESP length''"
  by (auto simp: parse_length_def split: prod.splits if_splits)

section \<open>Parsing what was serialized\<close>

lemma length_enc_bulk: "length (enc_bulk v) = length (dec_of_nat (length v)) + length v + 5"
  by (simp add: enc_bulk_def crlf_def)

lemma parse_arguments_bulk:
  assumes "length v < 2 ^ 64"
  shows "parse_arguments (pre @ enc_bulk v @ rest) (Suc k) (length pre) acc =
         parse_arguments (pre @ enc_bulk v @ rest) k (length pre + length (enc_bulk v)) (acc @ [v])"
proof -
  let ?l = "dec_of_nat (length v)"
  define inp where "inp = pre @ enc_bulk v @ rest"
  have in1: "inp = (pre @ ''$'') @ ?l @ crlf @ v @ crlf @ rest"
    by (simp add: inp_def enc_bulk_def)
  have line: "read_line inp (Suc (length pre)) = Some (?l, length pre + length ?l + 3)"
    using read_line_at [of ?l "pre @ ''$''" "v @ crlf @ rest"] unfolding in1 by simp
  have d: "drop (length pre + length ?l + 3) inp = v @ crlf @ rest"
    by (simp add: inp_def enc_bulk_def crlf_def drop_Cons' numeral_eq_Suc)
  have n1: "inp ! (length pre + length ?l + 3 + length v) = CHR 0x0D"
    and n2: "inp ! Suc (length pre + length ?l + 3 + length v) = CHR 0x0A"
    unfolding in1 by (simp_all add: nth_append crlf_def)
  have len: "length inp = length pre + length ?l + length v + 5 + length rest"
    by (simp add: inp_def length_enc_bulk)
  have at: "inp ! length pre = CHR ''$''" by (simp add: inp_def enc_bulk_def nth_append)
  show ?thesis
    using line d n1 n2 len at parse_length_dec [OF assms]
    unfolding inp_def [symmetric] by (simp add: Let_def length_enc_bulk add_ac)
qed

lemma parse_arguments_bulks:
  assumes "\<forall>a \<in> set vs. length a < 2 ^ 64"
  shows "parse_arguments (pre @ concat (map enc_bulk vs) @ rest) (length vs) (length pre) acc =
         ParseResult (acc @ vs) (length pre + length (concat (map enc_bulk vs)))"
  using assms
proof (induction vs arbitrary: pre acc)
  case Nil
  then show ?case by simp
next
  case (Cons v vs)
  have "parse_arguments (pre @ enc_bulk v @ concat (map enc_bulk vs) @ rest) (Suc (length vs)) (length pre) acc
      = parse_arguments ((pre @ enc_bulk v) @ concat (map enc_bulk vs) @ rest) (length vs)
          (length (pre @ enc_bulk v)) (acc @ [v])"
    using parse_arguments_bulk [of v pre "concat (map enc_bulk vs) @ rest"] Cons.prems by simp
  also have "\<dots> = ParseResult ((acc @ [v]) @ vs)
      (length (pre @ enc_bulk v) + length (concat (map enc_bulk vs)))"
    using Cons.IH [of "pre @ enc_bulk v" "acc @ [v]"] Cons.prems by simp
  finally show ?case by simp
qed

text \<open>The header line of a serialized command, as the parser sees it in front of any continuation.\<close>

lemma parse_command_header:
  assumes "n < 2 ^ 64"
  shows "parse_command (''*'' @ dec_of_nat n @ crlf @ body) =
         parse_arguments (''*'' @ dec_of_nat n @ crlf @ body) n (length (''*'' @ dec_of_nat n @ crlf)) []"
proof -
  have "read_line (''*'' @ dec_of_nat n @ crlf @ body) (length ''*'') =
        Some (dec_of_nat n, length ''*'' + length (dec_of_nat n) + 2)"
    using read_line_at [of "dec_of_nat n" "''*''" body] by simp
  then show ?thesis
    using parse_length_dec [OF assms] by (simp add: parse_command_def crlf_def add.commute)
qed

lemma parse_serialize:
  assumes "sized c"
  shows "parse_command (serialize_command c @ rest) = ParseResult c (length (serialize_command c))"
proof -
  let ?h = "''*'' @ dec_of_nat (length c) @ crlf"
  have eq: "serialize_command c @ rest = ?h @ concat (map enc_bulk c) @ rest"
    by (simp add: serialize_command_eq)
  have "parse_command (serialize_command c @ rest)
      = parse_arguments (?h @ concat (map enc_bulk c) @ rest) (length c) (length ?h) []"
    using parse_command_header [of "length c" "concat (map enc_bulk c) @ rest"] assms
    by (simp add: eq sized_def)
  also have "\<dots> = ParseResult c (length ?h + length (concat (map enc_bulk c)))"
    using parse_arguments_bulks [of c ?h rest "[]"] assms by (simp add: sized_def)
  finally show ?thesis by (simp add: serialize_command_eq)
qed

section \<open>Strict prefixes are incomplete\<close>

lemma strict_prefix_append_cases:
  "strict_prefix p (a @ b) \<Longrightarrow> strict_prefix p a \<or> (\<exists>q. p = a @ q \<and> strict_prefix q b)"
  by (auto simp: strict_prefix_def prefix_append)

lemma strict_prefix_header:
  "strict_prefix p (a # h @ b) \<Longrightarrow>
   p = [] \<or> (\<exists>q. p = a # q \<and> strict_prefix q h) \<or> (\<exists>q. p = a # h @ q \<and> strict_prefix q b)"
  by (cases p) (auto dest: strict_prefix_append_cases)

lemma strict_prefix_take:
  "strict_prefix p s \<longleftrightarrow> (\<exists>m < length s. p = take m s)"
  by (metis prefix_order.dual_order.strict_iff_order prefix_length_less take_is_prefix
      length_take less_imp_le min_absorb2 nat_less_le prefix_def append_eq_conv_conj)

lemma read_line_strict_prefix:
  assumes "CHR 0x0D \<notin> set l" and "strict_prefix p (l @ crlf)"
  shows "read_line (pre @ p) (length pre) = None"
proof -
  obtain m where m: "m < length l + 2" "p = take m (l @ crlf)"
    using assms(2) by (auto simp: strict_prefix_take crlf_def)
  have "find_crlf (l @ crlf) = Some (length l)"
    using find_crlf_line [OF assms(1), of "[]"] by simp
  from find_crlf_take [OF this m(1)] m(2) show ?thesis by (simp add: read_line_def)
qed

lemma parse_arguments_bulk_prefix:
  assumes "length v < 2 ^ 64" and "strict_prefix p (enc_bulk v)"
  shows "parse_arguments (pre @ p) (Suc k) (length pre) acc = Incomplete"
proof -
  let ?l = "dec_of_nat (length v)"
  have "strict_prefix p (CHR ''$'' # (?l @ crlf) @ v @ crlf)"
    using assms(2) by (simp add: enc_bulk_def)
  from strict_prefix_header [OF this] consider "p = []"
    | q where "p = ''$'' @ q" "strict_prefix q (?l @ crlf)"
    | q where "p = ''$'' @ (?l @ crlf) @ q" "strict_prefix q (v @ crlf)"
    by auto
  then show ?thesis
  proof cases
    case 1
    then show ?thesis by simp
  next
    case (2 q)
    then have "read_line (pre @ p) (Suc (length pre)) = None"
      using read_line_strict_prefix [of ?l q "pre @ ''$''"] by simp
    with 2 show ?thesis by simp
  next
    case (3 q)
    have line: "read_line (pre @ p) (Suc (length pre)) = Some (?l, length pre + length ?l + 3)"
      using read_line_at [of ?l "pre @ ''$''" q] 3 by simp
    have "length q < length v + 2"
      using prefix_length_less [OF 3(2)] by (simp add: crlf_def)
    then have "length q - length v < 2" by arith
    moreover have "length (pre @ p) = length pre + length ?l + 3 + length q"
      using 3 by (simp add: crlf_def)
    moreover have "(pre @ p) ! length pre = CHR ''$''" "length pre < length (pre @ p)"
      using 3 by simp_all
    ultimately show ?thesis
      using line parse_length_dec [OF assms(1)] by (simp add: Let_def)
  qed
qed

lemma parse_arguments_prefix:
  assumes "\<forall>a \<in> set vs. length a < 2 ^ 64" and "strict_prefix p (concat (map enc_bulk vs))"
  shows "parse_arguments (pre @ p) (length vs) (length pre) acc = Incomplete"
  using assms
proof (induction vs arbitrary: pre p acc)
  case Nil
  then show ?case by simp
next
  case (Cons v vs)
  from Cons.prems(2) have "strict_prefix p (enc_bulk v @ concat (map enc_bulk vs))" by simp
  then consider "strict_prefix p (enc_bulk v)"
    | q where "p = enc_bulk v @ q" "strict_prefix q (concat (map enc_bulk vs))"
    by (auto dest!: strict_prefix_append_cases)
  then show ?case
  proof cases
    case 1
    with Cons.prems(1) show ?thesis using parse_arguments_bulk_prefix [of v p pre] by simp
  next
    case (2 q)
    have "parse_arguments (pre @ enc_bulk v @ q) (Suc (length vs)) (length pre) acc =
          parse_arguments ((pre @ enc_bulk v) @ q) (length vs) (length (pre @ enc_bulk v)) (acc @ [v])"
      using parse_arguments_bulk [of v pre q] Cons.prems(1) by simp
    also have "\<dots> = Incomplete" using Cons.IH [OF _ 2(2), of "pre @ enc_bulk v"] Cons.prems(1) by simp
    finally show ?thesis using 2 by simp
  qed
qed

lemma parse_prefix:
  assumes "sized c" and "strict_prefix p (serialize_command c)"
  shows "parse_command p = Incomplete"
proof -
  let ?n = "dec_of_nat (length c)"
  have "strict_prefix p (CHR ''*'' # (?n @ crlf) @ concat (map enc_bulk c))"
    using assms(2) by (simp add: serialize_command_eq)
  from strict_prefix_header [OF this] consider "p = []"
    | q where "p = ''*'' @ q" "strict_prefix q (?n @ crlf)"
    | q where "p = ''*'' @ ?n @ crlf @ q" "strict_prefix q (concat (map enc_bulk c))"
    by auto
  then show ?thesis
  proof cases
    case 1
    then show ?thesis by (simp add: parse_command_def)
  next
    case (2 q)
    then show ?thesis
      using read_line_strict_prefix [of ?n q "''*''"] by (simp add: parse_command_def)
  next
    case (3 q)
    have "parse_command p = parse_arguments ((''*'' @ ?n @ crlf) @ q) (length c) (length (''*'' @ ?n @ crlf)) []"
      using parse_command_header [of "length c" q] assms(1) 3(1) by (simp add: sized_def)
    moreover have "\<forall>a \<in> set c. length a < 2 ^ 64" using assms(1) unfolding sized_def by (rule conjunct2)
    ultimately show ?thesis by (simp only: parse_arguments_prefix [OF _ 3(2)])
  qed
qed

section \<open>More input never changes a decided outcome\<close>

text \<open>One iteration of the loop once all of its bytes are there, and what a decided outcome implies.\<close>

lemma parse_arguments_step:
  assumes "position < length input" "input ! position = CHR ''$''"
    "read_line input (position + 1) = Some (l, q)" "parse_length l = Inr b" "q + b + 2 \<le> length input"
  shows "parse_arguments input (Suc k) position acc =
     (if input ! (q + b) = CHR 0x0D \<and> input ! (q + b + 1) = CHR 0x0A
      then parse_arguments input k (q + b + 2) (acc @ [take b (drop q input)])
      else ParseError INVALID_FORMAT ''Bulk string must end with CRLF'')"
  using assms by (auto simp: Let_def)

lemma parse_arguments_decided:
  assumes "parse_arguments input (Suc k) position acc \<noteq> Incomplete"
  obtains (not_bulk) "position < length input" "input ! position \<noteq> CHR ''$''"
  | (bad_length) l q e where "position < length input" "input ! position = CHR ''$''"
      "read_line input (position + 1) = Some (l, q)" "parse_length l = Inl e"
  | (step) l q b where "position < length input" "input ! position = CHR ''$''"
      "read_line input (position + 1) = Some (l, q)" "parse_length l = Inr b" "q + b + 2 \<le> length input"
proof -
  have *: "position < length input" using assms by (auto split: if_splits)
  show thesis
  proof (cases "input ! position = CHR ''$''")
    case False
    with * show ?thesis by (rule not_bulk)
  next
    case True
    with assms * obtain l q where line: "read_line input (position + 1) = Some (l, q)"
      by (auto split: option.splits)
    show ?thesis
    proof (cases "parse_length l")
      case (Inl e)
      with * True line show ?thesis by (rule bad_length)
    next
      case (Inr b)
      have "q + b + 2 \<le> length input"
        using assms * True line Inr by (auto simp: Let_def split: if_splits)
      with * True line Inr show ?thesis by (rule step)
    qed
  qed
qed

lemma parse_arguments_append:
  "parse_arguments input k position acc \<noteq> Incomplete \<Longrightarrow>
   parse_arguments (input @ t) k position acc = parse_arguments input k position acc"
proof (induction k arbitrary: position acc)
  case 0
  then show ?case by simp
next
  case (Suc k)
  from Suc.prems show ?case
  proof (cases rule: parse_arguments_decided)
    case not_bulk
    then show ?thesis by (simp add: nth_append)
  next
    case (bad_length l q e)
    with read_line_append [OF bad_length(3), of t] show ?thesis by (simp add: nth_append)
  next
    case (step l q b)
    have step': "position < length (input @ t)" "(input @ t) ! position = CHR ''$''"
      "read_line (input @ t) (position + 1) = Some (l, q)" "q + b + 2 \<le> length (input @ t)"
      using step read_line_append [OF step(3), of t] by (simp_all add: nth_append)
    have same: "take b (drop q (input @ t)) = take b (drop q input)"
      "(input @ t) ! (q + b) = input ! (q + b)" "(input @ t) ! (q + b + 1) = input ! (q + b + 1)"
      using step(5) by (simp_all add: nth_append)
    show ?thesis
      using Suc.prems Suc.IH
      unfolding parse_arguments_step [OF step'(1-3) step(4) step'(4)] parse_arguments_step [OF step] same
      by (auto split: if_splits)
  qed
qed

lemma parse_append:
  assumes "parse_command s \<noteq> Incomplete"
  shows "parse_command (s @ t) = parse_command s"
proof (cases "s = [] \<or> hd s \<noteq> CHR ''*''")
  case True
  with assms show ?thesis by (auto simp: parse_command_def)
next
  case False
  with assms obtain l q where line: "read_line s 1 = Some (l, q)"
    by (auto simp: parse_command_def split: option.splits)
  show ?thesis
    using assms False line read_line_append [OF line, of t] parse_arguments_append
    by (auto simp: parse_command_def split: sum.splits)
qed

section \<open>Progress and bounds\<close>

lemma parse_arguments_bounds:
  "parse_arguments input k position acc = ParseResult c n \<Longrightarrow> position \<le> length input \<Longrightarrow>
   position \<le> n \<and> n \<le> length input"
proof (induction k arbitrary: position acc)
  case 0
  then show ?case by simp
next
  case (Suc k)
  from Suc.prems(1) have "parse_arguments input (Suc k) position acc \<noteq> Incomplete" by simp
  then show ?case
  proof (cases rule: parse_arguments_decided)
    case not_bulk
    with Suc.prems(1) show ?thesis by simp
  next
    case (bad_length l q e)
    with Suc.prems(1) parse_length_error show ?thesis by fastforce
  next
    case (step l q b)
    then have "parse_arguments input k (q + b + 2) (acc @ [take b (drop q input)]) = ParseResult c n"
      using Suc.prems(1) unfolding parse_arguments_step [OF step] by (simp split: if_splits)
    from Suc.IH [OF this step(5)] show ?thesis using read_line_bound [OF step(3)] by simp
  qed
qed

lemma parse_command_bounds:
  assumes "parse_command s = ParseResult c n"
  shows "0 < n \<and> n \<le> length s"
proof -
  from assms obtain l q b where line: "read_line s 1 = Some (l, q)"
    and rec: "parse_arguments s b q [] = ParseResult c n"
    by (auto simp: parse_command_def dest!: parse_length_error split: if_splits option.splits sum.splits)
  from parse_arguments_bounds [OF rec] read_line_bound [OF line] show ?thesis by simp
qed

section \<open>The interface of a command stream\<close>

text \<open>
  What a reader of a stream of commands (a connection, the append-only file, the replication link)
  relies on: frames are decoded one by one, an unfinished frame is never mistaken for anything else,
  bytes that arrive later do not revise a decision, and every decoded frame consumes input.
\<close>

locale framed_stream =
  fixes encode :: "command \<Rightarrow> string"
    and decode :: "string \<Rightarrow> parse_outcome"
    and ok :: "command \<Rightarrow> bool"
  assumes decode_encode: "ok c \<Longrightarrow> decode (encode c @ rest) = ParseResult c (length (encode c))"
    and decode_prefix: "ok c \<Longrightarrow> strict_prefix p (encode c) \<Longrightarrow> decode p = Incomplete"
    and decode_stable: "decode s \<noteq> Incomplete \<Longrightarrow> decode (s @ t) = decode s"
    and decode_progress: "decode s = ParseResult c n \<Longrightarrow> 0 < n \<and> n \<le> length s"
begin

lemma encode_nonempty: "ok c \<Longrightarrow> encode c \<noteq> []"
  using decode_encode [of c "[]"] decode_progress [of "encode c" c] by fastforce

lemma frame_unique:
  assumes "ok c" "ok d" "encode c @ s = encode d @ t"
  shows "c = d \<and> s = t"
proof -
  have "ParseResult c (length (encode c)) = ParseResult d (length (encode d))"
    using decode_encode [OF assms(1), of s] decode_encode [OF assms(2), of t] assms(3) by simp
  with assms(3) show ?thesis by simp
qed

text \<open>A log of frames holds one sequence of commands only.\<close>

lemma log_unique:
  "list_all ok cs \<Longrightarrow> list_all ok ds \<Longrightarrow> concat (map encode cs) = concat (map encode ds) \<Longrightarrow> cs = ds"
proof (induction cs arbitrary: ds)
  case Nil
  then show ?case using encode_nonempty by (cases ds) auto
next
  case (Cons c cs)
  then obtain d ds' where ds: "ds = d # ds'" using encode_nonempty by (cases ds) auto
  with Cons.prems have "c = d \<and> concat (map encode cs) = concat (map encode ds')"
    using frame_unique [of c d] by simp
  with Cons ds show ?case by simp
qed

text \<open>The next frame of a log in front of any tail, and what is left of the bytes behind it.\<close>

lemma log_step:
  assumes "ok c"
  shows "decode (concat (map encode (c # cs)) @ tail) = ParseResult c (length (encode c))"
    and "drop (length (encode c)) (concat (map encode (c # cs)) @ tail) = concat (map encode cs) @ tail"
  using decode_encode [OF assms] by simp_all

end

interpretation resp_stream: framed_stream serialize_command parse_command sized
  by unfold_locales (simp_all add: parse_serialize parse_prefix parse_append parse_command_bounds)

section \<open>Responses as protocol values\<close>

text \<open>
  The value that a response puts on the wire, and the protocol's encoding of values: this is the
  specification that the serializer is measured against. \<open>NoResponse\<close> puts nothing on the wire.
\<close>

datatype resp_value =
    VSimple string
  | VError string
  | VInt int
  | VBulk "string option"
  | VArray "resp_value list option"

fun wire :: "response \<Rightarrow> resp_value option" where
  "wire (SimpleString v) = Some (VSimple v)"
| "wire (SimpleError v) = Some (VError v)"
| "wire (BulkString v) = Some (VBulk (Some v))"
| "wire (Integer v) = Some (VInt v)"
| "wire NullBulkString = Some (VBulk None)"
| "wire NullArray = Some (VArray None)"
| "wire EmptyArray = Some (VArray (Some []))"
| "wire NoResponse = None"
| "wire (Array vs) = Some (VArray (Some (map (\<lambda>v. VBulk (Some v)) vs)))"
| "wire (ResponseArray rs) = map_option (\<lambda>vs. VArray (Some vs)) (those (map wire rs))"

fun encode_value :: "resp_value \<Rightarrow> string" where
  "encode_value (VSimple s) = ''+'' @ s @ crlf"
| "encode_value (VError s) = ''-'' @ s @ crlf"
| "encode_value (VInt i) = '':'' @ dec_of_int i @ crlf"
| "encode_value (VBulk None) = ''$-1'' @ crlf"
| "encode_value (VBulk (Some s)) = ''$'' @ dec_of_nat (length s) @ crlf @ s @ crlf"
| "encode_value (VArray None) = ''*-1'' @ crlf"
| "encode_value (VArray (Some vs)) = ''*'' @ dec_of_nat (length vs) @ crlf @ concat (map encode_value vs)"

text \<open>Simple strings and errors are delimited by their line end, so they must not hold one.\<close>

fun line_safe :: "resp_value \<Rightarrow> bool" where
  "line_safe (VSimple s) = (CHR 0x0D \<notin> set s)"
| "line_safe (VError s) = (CHR 0x0D \<notin> set s)"
| "line_safe (VArray (Some vs)) = list_all line_safe vs"
| "line_safe _ = True"

lemma foldl_append_response_if:
  assumes "\<And>out r. r \<in> set rs \<Longrightarrow> append_response out r = out @ serialize_response r"
  shows "foldl append_response out rs = out @ concat (map serialize_response rs)"
  using assms by (induction rs arbitrary: out) auto

lemma append_response_accumulates: "append_response out r = out @ serialize_response r"
proof (induction r arbitrary: out)
  case (ResponseArray rs)
  show ?case
    using foldl_append_response_if [of rs, OF ResponseArray.IH] by (simp add: serialize_response_def)
qed (simp_all add: append_bulk_string_eq foldl_append_bulk_string serialize_response_def)

lemma serialize_ResponseArray:
  "serialize_response (ResponseArray rs) =
   ''*'' @ dec_of_nat (length rs) @ crlf @ concat (map serialize_response rs)"
  using foldl_append_response_if [of rs, OF append_response_accumulates]
  by (simp add: serialize_response_def)

lemma those_Some: "those (map f rs) = Some vs \<longleftrightarrow> map f rs = map Some vs"
  by (induction rs arbitrary: vs) (auto split: option.splits)

lemma enc_bulk_value: "enc_bulk = (\<lambda>v. encode_value (VBulk (Some v)))"
  by (simp add: enc_bulk_def fun_eq_iff)

lemma dec_of_nat_0: "dec_of_nat 0 = ''0''"
  by code_simp

text \<open>The serializer writes the protocol encoding of the value that the response denotes.\<close>

lemma serialize_response_wire: "wire r = Some v \<Longrightarrow> serialize_response r = encode_value v"
proof (induction r arbitrary: v)
  case (ResponseArray rs)
  then obtain vs where vs: "v = VArray (Some vs)" "map wire rs = map Some vs"
    by (auto simp: those_Some)
  then have len: "length rs = length vs" by (metis length_map)
  have "map serialize_response rs = map encode_value vs"
  proof (rule nth_equalityI)
    fix i assume "i < length (map serialize_response rs)"
    then have "i < length rs" by simp
    moreover from this have "wire (rs ! i) = Some (vs ! i)"
      using vs(2) len by (metis nth_map)
    ultimately show "map serialize_response rs ! i = map encode_value vs ! i"
      using ResponseArray.IH [of "rs ! i" "vs ! i"] len by simp
  qed (simp add: len)
  with vs(1) len show ?case by (simp add: serialize_ResponseArray)
qed (auto simp: serialize_response_def append_bulk_string_eq foldl_append_bulk_string
      enc_bulk_value comp_def dec_of_nat_0)

section \<open>Responses are self-delimiting\<close>

lemma line_unique:
  assumes "CHR 0x0D \<notin> set l" "CHR 0x0D \<notin> set m" "l @ crlf @ s = m @ crlf @ t"
  shows "l = m \<and> s = t"
proof -
  have "Some (length l) = Some (length m)"
    using find_crlf_line [OF assms(1), of s] find_crlf_line [OF assms(2), of t] assms(3) by simp
  with assms(3) show ?thesis by simp
qed

lemma dec_of_nat_inj: "dec_of_nat m = dec_of_nat n \<longleftrightarrow> m = n"
  by (metis digits_value_dec_of_nat)

lemma cr_notin_dec_of_int [simp]: "CHR 0x0D \<notin> set (dec_of_int i)"
  by (simp add: dec_of_int_def)

lemma dec_not_minus [simp]: "dec_of_nat m @ s \<noteq> CHR ''-'' # t" "CHR ''-'' # t \<noteq> dec_of_nat m @ s"
proof -
  show "dec_of_nat m @ s \<noteq> CHR ''-'' # t"
  proof
    assume "dec_of_nat m @ s = CHR ''-'' # t"
    then have "hd (dec_of_nat m) = CHR ''-''" by (metis dec_of_nat_nonempty hd_append2 list.sel(1))
    then show False by simp
  qed
  then show "CHR ''-'' # t \<noteq> dec_of_nat m @ s" by metis
qed

lemma dec_of_int_inj: "dec_of_int i = dec_of_int j \<longleftrightarrow> i = j"
  using dec_not_minus [where s = "[]"] by (auto simp: dec_of_int_def dec_of_nat_inj)

lemma dec_line_unique:
  "dec_of_nat m @ crlf @ s = dec_of_nat n @ crlf @ t \<Longrightarrow> m = n \<and> s = t"
  using line_unique [of "dec_of_nat m" "dec_of_nat n" s t] by (simp add: dec_of_nat_inj)

lemma int_line_unique: "dec_of_int i @ crlf @ s = dec_of_int j @ crlf @ t \<Longrightarrow> i = j \<and> s = t"
  using line_unique [of "dec_of_int i" "dec_of_int j" s t] by (simp add: dec_of_int_inj)

lemma encode_values_unique:
  assumes "\<And>v w s t. v \<in> set vs \<Longrightarrow> line_safe w \<Longrightarrow> encode_value v @ s = encode_value w @ t \<Longrightarrow> v = w \<and> s = t"
    and "list_all line_safe ws" "length vs = length ws"
    and "concat (map encode_value vs) @ s = concat (map encode_value ws) @ t"
  shows "vs = ws \<and> s = t"
  using assms
proof (induction vs arbitrary: ws)
  case Nil
  then show ?case by simp
next
  case (Cons v vs)
  then obtain w ws' where ws: "ws = w # ws'" by (cases ws) auto
  have "v = w \<and> concat (map encode_value vs) @ s = concat (map encode_value ws') @ t"
    using Cons.prems(1) [of v w "concat (map encode_value vs) @ s" "concat (map encode_value ws') @ t"]
      Cons.prems(2,4) ws by simp
  moreover from this have "vs = ws' \<and> s = t"
    using Cons.prems(2,3) ws by (intro Cons.IH Cons.prems(1)) simp_all
  ultimately show ?case using ws by simp
qed

lemma encode_value_unique:
  assumes "line_safe v" "line_safe w" "encode_value v @ s = encode_value w @ t"
  shows "v = w \<and> s = t"
  using assms
proof (induction v arbitrary: w s t)
  case (VSimple l)
  then show ?case
    by (cases w rule: encode_value.cases) (auto dest: line_unique)
next
  case (VError l)
  then show ?case
    by (cases w rule: encode_value.cases) (auto dest: line_unique)
next
  case (VInt i)
  then show ?case
    by (cases w rule: encode_value.cases) (auto dest: int_line_unique)
next
  case (VBulk b)
  then show ?case
    by (cases b; cases w rule: encode_value.cases) (auto dest: dec_line_unique)
next
  case (VArray vs)
  show ?case
  proof (cases vs)
    case None
    with VArray.prems show ?thesis by (cases w rule: encode_value.cases) auto
  next
    case (Some xs)
    with VArray.prems obtain ws where w: "w = VArray (Some ws)"
      by (cases w rule: encode_value.cases) auto
    have eqs: "length xs = length ws \<and>
        concat (map encode_value xs) @ s = concat (map encode_value ws) @ t"
      using VArray.prems(3) Some w by (auto dest: dec_line_unique)
    have "xs = ws \<and> s = t"
    proof (rule encode_values_unique)
      show "v = w \<and> s = t"
        if "v \<in> set xs" "line_safe w" "encode_value v @ s = encode_value w @ t" for v w s t
        using VArray.IH [of xs v w s t] VArray.prems(1) Some that by (auto simp: list_all_iff)
    qed (use eqs VArray.prems(2) w in auto)
    with Some w show ?thesis by simp
  qed
qed

section \<open>The protocol's guarantees\<close>

text \<open>
  C15: Commands survive the wire. For every command whose sizes fit into 64 bits, parsing its serialized
  form in front of any further bytes gives the command back and consumes exactly those bytes, and every
  strict prefix of that form is reported as incomplete, never as an error and never as another command.
\<close>

theorem command_round_trip:
  assumes "sized c"
  shows "parse_command (serialize_command c @ rest) = ParseResult c (length (serialize_command c)) \<and>
    (strict_prefix p (serialize_command c) \<longrightarrow> parse_command p = Incomplete)"
  using resp_stream.decode_encode [OF assms] resp_stream.decode_prefix [OF assms] by blast

theorem command_round_trip_witness:
  "parse_command (serialize_command [''SET'', ''k'', []] @ ''*1'') =
     ParseResult [''SET'', ''k'', []] (length (serialize_command [''SET'', ''k'', []])) \<and>
   parse_command ''*'' = Incomplete"
proof -
  have "sized [''SET'', ''k'', []]" by (simp add: sized_def)
  note rt = command_round_trip [OF this]
  have "strict_prefix ''*'' (serialize_command [''SET'', ''k'', []])"
    by (simp add: serialize_command_eq strict_prefix_def)
  with rt show ?thesis by blast
qed

text \<open>
  C16: The parser is sound on a growing buffer: once it has decided (a command or an error), bytes that
  arrive later do not change the decision, and a parsed command has consumed at least one byte and at
  most the bytes that are there, so a caller that drops the consumed bytes makes progress.
\<close>

theorem parser_stable_and_progressing:
  assumes "parse_command s \<noteq> Incomplete"
  shows "parse_command (s @ t) = parse_command s \<and>
    (\<forall>c n. parse_command s = ParseResult c n \<longrightarrow> 0 < n \<and> n \<le> length s)"
  using resp_stream.decode_stable [OF assms] resp_stream.decode_progress by blast

theorem parser_stable_and_progressing_witness:
  "parse_command (''PING'' @ crlf) = ParseError INVALID_FORMAT ''Expected RESP array''"
proof -
  have p: "parse_command ''PING'' = ParseError INVALID_FORMAT ''Expected RESP array''"
    by (simp add: parse_command_def)
  then have "parse_command ''PING'' \<noteq> Incomplete" by simp
  from parser_stable_and_progressing [OF this, of crlf] p show ?thesis by simp
qed

text \<open>
  A byte log of commands (the append-only file, the replication stream) stands for one sequence of
  commands only, so replaying it cannot execute anything else than what was written.
\<close>

lemma command_log_unambiguous:
  assumes "list_all sized cs" "list_all sized ds"
    and "concat (map serialize_command cs) = concat (map serialize_command ds)"
  shows "cs = ds"
  using assms by (rule resp_stream.log_unique)

lemma command_log_unambiguous_witness:
  "concat (map serialize_command ([[''INCR'', ''k'']] @ [[''PING'']])) =
     concat (map serialize_command [[''INCR'', ''k''], [''PING'']]) \<and>
   [[''INCR'', ''k'']] @ [[''PING'']] = [[''INCR'', ''k''], [''PING'']]"
proof -
  have e: "concat (map serialize_command ([[''INCR'', ''k'']] @ [[''PING'']])) =
      concat (map serialize_command [[''INCR'', ''k''], [''PING'']])" by simp
  have "list_all sized ([[''INCR'', ''k'']] @ [[''PING'']])" "list_all sized [[''INCR'', ''k''], [''PING'']]"
    by (simp_all add: sized_def)
  from command_log_unambiguous [OF this e] e show ?thesis by (rule conjI [rotated])
qed

text \<open>
  Replies are self-delimiting. If two responses denote protocol values whose simple strings and
  errors are free of carriage returns, and their serialized forms start the same byte sequence, then they
  denote the same value and leave the same remainder: a client splits a pipelined reply stream in one
  way only, and empty arrays, null arrays, null strings and empty strings are never confused.
\<close>

theorem replies_self_delimiting:
  assumes "wire r = Some v" "wire q = Some w" "line_safe v" "line_safe w"
    and "serialize_response r @ s = serialize_response q @ t"
  shows "v = w \<and> s = t"
  using encode_value_unique [OF assms(3,4)] assms(5)
  by (simp add: serialize_response_wire [OF assms(1)] serialize_response_wire [OF assms(2)])

theorem replies_self_delimiting_witness:
  "wire EmptyArray = Some (VArray (Some [])) \<and> wire (ResponseArray []) = Some (VArray (Some [])) \<and>
   serialize_response EmptyArray @ '':1'' = serialize_response (ResponseArray []) @ '':1'' \<and>
   VArray (Some []) = VArray (Some []) \<and> '':1'' = '':1''"
proof -
  have e: "serialize_response EmptyArray @ '':1'' = serialize_response (ResponseArray []) @ '':1''"
    by (simp add: serialize_response_def dec_of_nat_0)
  have w: "wire EmptyArray = Some (VArray (Some []))" "wire (ResponseArray []) = Some (VArray (Some []))"
    by simp_all
  from replies_self_delimiting [OF w _ _ e] w e show ?thesis by simp
qed

end
