(* ===== verification/Time_Utils.thy ===== *)
theory Time_Utils
  imports Prelude Complex_Main
begin

text \<open>
  Timeouts and expirations in text form (\<open>utils/time.cpp\<close>). Two of the three parsers read integers;
  \<open>parse_blocking_timeout\<close> reads a binary64 number with \<open>std::from_chars\<close>. A finite binary64 number is
  represented by its exact rational value together with its sign; \<open>round_double\<close> is the rounding to
  nearest, ties to even, with the exponent range of the format, and \<open>None\<close> stands for overflow. A text
  other than zero whose value rounds to zero is out of range, as in the library the program is built
  with.
\<close>

section \<open>Rounding to binary64\<close>

fun bit_length :: "nat \<Rightarrow> nat" where
  "bit_length n = (if n = 0 then 0 else Suc (bit_length (n div 2)))"

declare bit_length.simps [simp del]

definition floor_log2 :: "rat \<Rightarrow> int" where
  "floor_log2 x =
     (case quotient_of x of
        (p, q) \<Rightarrow>
          let k = int (bit_length (nat p)) - int (bit_length (nat q))
          in if 2 powi k \<le> x then k else k - 1)"

definition round_half_even :: "rat \<Rightarrow> int" where
  "round_half_even x =
     (let f = \<lfloor>x\<rfloor>; r = x - of_int f in
      if r < 1 / 2 then f else if 1 / 2 < r then f + 1 else if even f then f else f + 1)"

definition round_double :: "rat \<Rightarrow> rat option" where
  "round_double x =
     (if x = 0 then Some 0
      else
        let e = max (- 1074) (floor_log2 x - 52);
            y = of_int (round_half_even (x / 2 powi e)) * 2 powi e
        in if 2 powi 1024 \<le> y then None else Some y)"

section \<open>Reading a binary64 number\<close>

datatype binary64 = Finite bool rat | Infinite bool | NaN

definition lower_char :: "char \<Rightarrow> char" where
  "lower_char c = (let n = (of_char c :: nat) in if 65 \<le> n \<and> n \<le> 90 then char_of (n + 32) else c)"

definition starts_with_nocase :: "string \<Rightarrow> string \<Rightarrow> bool" where
  "starts_with_nocase p s \<longleftrightarrow> length p \<le> length s \<and> map lower_char (take (length p) s) = p"

text \<open>The optional parts of the decimal format: fraction and exponent, each with the unread rest.\<close>

definition read_fraction :: "string \<Rightarrow> string \<times> string" where
  "read_fraction s =
     (case s of
        c # t \<Rightarrow> if c = CHR ''.'' then (takeWhile is_digit t, dropWhile is_digit t) else ([], s)
      | [] \<Rightarrow> ([], s))"

definition read_exponent :: "string \<Rightarrow> int \<times> string" where
  "read_exponent s =
     (case s of
        [] \<Rightarrow> (0, s)
      | c # t \<Rightarrow>
          if lower_char c \<noteq> CHR ''e'' then (0, s)
          else
            let neg = (t \<noteq> [] \<and> hd t = CHR ''-'');
                body = (if t \<noteq> [] \<and> (hd t = CHR ''-'' \<or> hd t = CHR ''+'') then tl t else t);
                ds = takeWhile is_digit body
            in if ds = [] then (0, s)
               else ((if neg then - int (digits_value ds) else int (digits_value ds)), dropWhile is_digit body))"

definition read_decimal :: "bool \<Rightarrow> string \<Rightarrow> string \<Rightarrow> string \<times> errc \<times> binary64" where
  "read_decimal neg s body =
     (let ip = takeWhile is_digit body in
      case read_fraction (dropWhile is_digit body) of
        (fp, s1) \<Rightarrow>
          if ip = [] \<and> (fp = []) then (s, invalid_argument, Finite False 0)
          else
            (case read_exponent s1 of
               (ex, s2) \<Rightarrow>
                 let x = of_nat (digits_value (ip @ fp)) * 10 powi (ex - int (length fp)) in
                 (case round_double x of
                    None \<Rightarrow> (s2, result_out_of_range, Finite False 0)
                  | Some y \<Rightarrow>
                      if y = 0 \<and> x \<noteq> 0 then (s2, result_out_of_range, Finite False 0)
                      else (s2, errc_ok, Finite neg y))))"

definition from_chars_double :: "string \<Rightarrow> string \<times> errc \<times> binary64" where
  "from_chars_double s =
     (let neg = (s \<noteq> [] \<and> hd s = CHR ''-''); body = (if neg then tl s else s) in
      if starts_with_nocase ''infinity'' body then (drop 8 body, errc_ok, Infinite neg)
      else if starts_with_nocase ''inf'' body then (drop 3 body, errc_ok, Infinite neg)
      else if starts_with_nocase ''nan'' body then (drop 3 body, errc_ok, NaN)
      else read_decimal neg s body)"

section \<open>The parsers\<close>

definition parse_expiry :: "string \<Rightarrow> int option" where
  "parse_expiry text =
     (case from_chars_signed 64 text of
        (end_, error, count) \<Rightarrow>
          if error \<noteq> errc_ok \<or> end_ \<noteq> [] \<or> count \<le> 0 then None else Some count)"

definition parse_blocking_timeout :: "string \<Rightarrow> rat option" where
  "parse_blocking_timeout text =
     (case from_chars_double text of
        (end_, error, seconds) \<Rightarrow>
          if text = [] \<or> error \<noteq> errc_ok \<or> end_ \<noteq> [] then None
          else
            (case seconds of
               Finite neg y \<Rightarrow> if neg \<and> y \<noteq> 0 then None else Some y
             | _ \<Rightarrow> None))"

definition parse_stream_blocking_timeout :: "string \<Rightarrow> int option" where
  "parse_stream_blocking_timeout text =
     (case from_chars_signed 64 text of
        (end_, error, count) \<Rightarrow>
          if error \<noteq> errc_ok \<or> end_ \<noteq> [] \<or> count < 0 then None else Some count)"

text \<open>
  \<open>duration_cast\<close> from seconds in binary64 to integral milliseconds: a binary64 multiplication, then a
  conversion that drops the fraction and is undefined outside of the range of the target type. An
  infinite product is outside of that range.
\<close>

definition milliseconds_of_seconds :: "rat \<Rightarrow> int option" where
  "milliseconds_of_seconds seconds = Option.bind (round_double (seconds * 1000)) (\<lambda>ms. checked_int64 \<lfloor>ms\<rfloor>)"

section \<open>Rounding is exact on the integers below two to the fifty-third\<close>

lemma bit_length_bounds: "0 < n \<Longrightarrow> 2 ^ (bit_length n - 1) \<le> n \<and> n < 2 ^ bit_length n \<and> 0 < bit_length n"
proof (induction n rule: bit_length.induct)
  case (1 n)
  show ?case
  proof (cases "n = 1")
    case True
    then show ?thesis by (simp add: bit_length.simps)
  next
    case False
    with 1 have IH: "2 ^ (bit_length (n div 2) - 1) \<le> n div 2 \<and> n div 2 < 2 ^ bit_length (n div 2) \<and>
        0 < bit_length (n div 2)" by simp
    have eq: "bit_length n = Suc (bit_length (n div 2))" using 1(2) by (subst bit_length.simps) simp
    obtain m where m: "bit_length (n div 2) = Suc m" using IH gr0_implies_Suc by blast
    show ?thesis using IH unfolding eq m by (auto simp: less_eq_div_iff_mult_less_eq div_less_iff_less_mult)
  qed
qed

lemma floor_log2_lower:
  assumes "0 < x"
  shows "2 powi floor_log2 x \<le> x"
proof -
  obtain p q where pq: "quotient_of x = (p, q)" by fastforce
  have q: "0 < q" using pq quotient_of_denom_pos by simp
  have x: "x = of_int p / of_int q" using pq quotient_of_div by simp
  with assms q have p: "0 < p" by (simp add: zero_less_divide_iff)
  let ?a = "bit_length (nat p)" and ?b = "bit_length (nat q)"
  have p': "2 ^ (?a - 1) \<le> nat p" "0 < ?a" using bit_length_bounds [of "nat p"] p by simp_all
  have q': "nat q < 2 ^ ?b" using bit_length_bounds [of "nat q"] q by simp
  have "int (2 ^ (?a - 1)) \<le> int (nat p)" using p'(1) by (simp only: of_nat_le_iff)
  then have "2 ^ (?a - 1) \<le> p" using p by simp
  then have "(of_int (2 ^ (?a - 1)) :: rat) \<le> of_int p" by (simp only: of_int_le_iff)
  then have P: "(2 :: rat) ^ (?a - 1) \<le> of_int p" by simp
  have "int (nat q) \<le> int (2 ^ ?b)" using q' by (simp only: of_nat_le_iff)
  then have "q \<le> 2 ^ ?b" using q by simp
  then have "(of_int q :: rat) \<le> of_int (2 ^ ?b)" by (simp only: of_int_le_iff)
  then have Q: "(of_int q :: rat) \<le> 2 ^ ?b" by simp
  have "(2 :: rat) powi (int ?a - int ?b - 1) = 2 powi (int (?a - 1) - int ?b)"
    using p'(2) by (simp add: algebra_simps of_nat_diff)
  also have "\<dots> = 2 ^ (?a - 1) / 2 ^ ?b" by (simp add: power_int_diff)
  also have "\<dots> \<le> of_int p / of_int q"
    using P Q q p by (intro frac_le) simp_all
  also have "\<dots> = x" by (simp add: x)
  finally show ?thesis by (simp add: floor_log2_def pq Let_def)
qed

lemma round_double_0 [simp]: "round_double 0 = Some 0"
  by (simp add: round_double_def)

lemma round_half_even_int [simp]: "round_half_even (of_int i) = i"
  by (simp add: round_half_even_def)

lemma round_double_int:
  assumes "n < 2 ^ 53"
  shows "round_double (of_nat n) = Some (of_nat n)"
proof (cases "n = 0")
  case False
  define l where "l = floor_log2 (of_nat n)"
  define e where "e = max (- 1074) (l - 52)"
  have n: "(of_nat n :: rat) < 2 ^ 53" using assms by (metis of_nat_less_iff of_nat_numeral of_nat_power)
  have low: "(2 :: rat) powi l \<le> of_nat n" unfolding l_def using False by (intro floor_log2_lower) simp
  have "l < 53"
  proof (rule ccontr)
    assume "\<not> l < 53"
    then have "(2 :: rat) powi 53 \<le> 2 powi l" by (intro power_int_increasing) auto
    with low n show False by simp
  qed
  then have e: "e \<le> 0" by (simp add: e_def)
  then have "(of_nat n :: rat) / 2 powi e = of_int (int n * 2 ^ nat (- e))"
    by (simp add: power_int_def field_simps)
  then have "round_half_even (of_nat n / 2 powi e) = int n * 2 ^ nat (- e)"
    by (simp only: round_half_even_int)
  moreover have "of_int (int n * 2 ^ nat (- e)) * 2 powi e = (of_nat n :: rat)"
    using e by (simp add: power_int_def field_simps)
  moreover have "\<not> 2 powi 1024 \<le> (of_nat n :: rat)"
  proof -
    have "(2 :: rat) ^ 53 \<le> 2 ^ 1024" by (intro power_increasing) simp_all
    with n show ?thesis by (simp add: power_int_def)
  qed
  ultimately have "of_int (round_half_even (of_nat n / 2 powi e)) * 2 powi e = (of_nat n :: rat)"
    "\<not> 2 powi 1024 \<le> (of_nat n :: rat)" by simp_all
  then show ?thesis
    using False unfolding round_double_def l_def [symmetric] e_def [symmetric] Let_def
    by (simp only: if_False of_nat_eq_0_iff refl)
qed simp

lemma lower_char_digit: "is_digit c \<Longrightarrow> lower_char c = c"
  by (simp add: is_digit_def lower_char_def Let_def)

lemma starts_with_dec:
  assumes "p \<noteq> []" "\<not> is_digit (hd p)"
  shows "\<not> starts_with_nocase p (dec_of_nat n)"
proof
  assume "starts_with_nocase p (dec_of_nat n)"
  then have "hd (map lower_char (take (length p) (dec_of_nat n))) = hd p"
    by (simp add: starts_with_nocase_def)
  then have "lower_char (hd (dec_of_nat n)) = hd p" using assms(1) by (simp add: hd_map hd_take)
  with hd_dec_of_nat [of n] assms(2) show False by (simp add: lower_char_digit)
qed

lemma from_chars_double_dec:
  assumes "n < 2 ^ 53"
  shows "from_chars_double (dec_of_nat n) = ([], errc_ok, Finite False (of_nat n))"
proof -
  have "from_chars_double (dec_of_nat n) = read_decimal False (dec_of_nat n) (dec_of_nat n)"
    using starts_with_dec [of "''infinity''" n] starts_with_dec [of "''inf''" n] starts_with_dec [of "''nan''" n]
    by (simp add: from_chars_double_def Let_def is_digit_def)
  then show ?thesis
    by (cases "n = 0") (simp_all add: read_decimal_def read_fraction_def read_exponent_def round_double_int [OF assms])
qed

lemma parse_blocking_timeout_dec: "n < 2 ^ 53 \<Longrightarrow> parse_blocking_timeout (dec_of_nat n) = Some (of_nat n)"
  by (simp add: parse_blocking_timeout_def from_chars_double_dec)

lemma milliseconds_of_seconds_int:
  assumes "n * 1000 < 2 ^ 53"
  shows "milliseconds_of_seconds (of_nat n) = Some (int n * 1000)"
proof -
  have "round_double (of_nat n * 1000) = Some (of_int (int n * 1000))"
    using round_double_int [OF assms] by simp
  moreover have "\<lfloor>of_int (int n * 1000) :: rat\<rfloor> = int n * 1000" by (rule floor_of_int)
  moreover have "int64_range (int n * 1000)" using assms by (simp add: int64_range_def)
  ultimately show ?thesis by (simp add: milliseconds_of_seconds_def)
qed

lemma parse_expiry_range: "parse_expiry s = Some n \<Longrightarrow> 0 < n \<and> n < 2 ^ 63"
  using from_chars_signed_bound [of 64 s]
  by (auto simp: parse_expiry_def split: prod.splits if_splits)

lemma parse_expiry_dec: "0 < n \<Longrightarrow> n < 2 ^ 63 \<Longrightarrow> parse_expiry (dec_of_int n) = Some n"
  by (simp add: parse_expiry_def from_chars_signed_dec)

lemma parse_stream_blocking_timeout_range: "parse_stream_blocking_timeout s = Some n \<Longrightarrow> 0 \<le> n \<and> n < 2 ^ 63"
  using from_chars_signed_bound [of 64 s]
  by (auto simp: parse_stream_blocking_timeout_def split: prod.splits if_splits)

end
