(* ===== verification/Commands.thy ===== *)
theory Commands
  imports Resp Database_Queries Time_Utils
begin

text \<open>
  The handlers of \<open>commands.cpp\<close>. A handler takes what the machine supplies during one command (the
  readings of the clocks and the order in which the hash table is traversed), the store and the
  command, and returns the new store and the response; \<open>None\<close> is undefined behaviour.
\<close>

record env =
  steady_clock :: "nat \<Rightarrow> time_point"
  system_clock :: int
  traversal :: "database \<Rightarrow> key list"

type_synonym handler = "env \<Rightarrow> database \<Rightarrow> command \<Rightarrow> (database \<times> response) option"

text \<open>What is relied on: a traversal of the hash table visits every key once.\<close>

definition env_ok :: "env \<Rightarrow> bool" where
  "env_ok env \<longleftrightarrow>
     (\<forall>db. finite (dom (entries db)) \<longrightarrow> set (traversal env db) = dom (entries db) \<and> distinct (traversal env db))"

definition wrong_type_error :: response where
  "wrong_type_error = SimpleError ''WRONGTYPE Operation against a key holding the wrong kind of value''"

definition ping :: "command \<Rightarrow> response" where
  "ping command = SimpleString ''PONG''"

definition echo :: "command \<Rightarrow> response" where
  "echo command =
     (if length command \<noteq> 2 then SimpleError ''ERR expected format ECHO <text>''
      else BulkString (command ! 1))"

definition expiry_of :: "string \<Rightarrow> int \<Rightarrow> (response + int) option" where
  "expiry_of unit_text count =
     (if unit_text = ''PX'' then Some (Inr count)
      else if unit_text = ''EX'' then map_option Inr (checked_int64 (count * 1000))
      else Some (Inl (SimpleError ''ERR syntax error'')))"

definition set_command :: handler where
  "set_command env db command =
     (if length command = 3 then
        map_option (\<lambda>db'. (db', SimpleString ''OK''))
          (db_set (steady_clock env 0) (command ! 1) (command ! 2) None db)
      else if length command = 5 then
        (case parse_expiry (command ! 4) of
           None \<Rightarrow> Some (db, SimpleError ''ERR invalid expire time in set command'')
         | Some parsed_expiration \<Rightarrow>
             Option.bind (expiry_of (command ! 3) parsed_expiration) (\<lambda>parsed.
               case parsed of
                 Inl e \<Rightarrow> Some (db, e)
               | Inr expiry \<Rightarrow>
                   map_option (\<lambda>db'. (db', SimpleString ''OK''))
                     (db_set (steady_clock env 0) (command ! 1) (command ! 2) (Some expiry) db)))
      else Some (db, SimpleError ''ERR invalid syntax. Expected usage SET <key> <value> <EX/PX> <time>''))"

definition get_command :: handler where
  "get_command env db command =
     (if length command \<noteq> 2 then Some (db, SimpleError ''ERR invalid syntax. Expected usage GET <key>'')
      else
        (case db_get (steady_clock env 0) (command ! 1) db of
           (db', Inl e) \<Rightarrow> Some (db', if e = WRONG_TYPE then wrong_type_error else NullBulkString)
         | (db', Inr v) \<Rightarrow> Some (db', BulkString v)))"

definition keys_command :: handler where
  "keys_command env db command =
     (if length command \<noteq> 2 then Some (db, SimpleError ''ERR wrong number of arguments for 'keys' command'')
      else if command ! 1 \<noteq> ''*'' then Some (db, SimpleError ''ERR only the '*' key pattern is supported'')
      else
        (case db_keys (steady_clock env 0) (traversal env db) db of
           (db', ks) \<Rightarrow> Some (db', Array ks)))"

definition type_command :: handler where
  "type_command env db command =
     (if length command \<noteq> 2 then Some (db, SimpleError ''ERR invalid syntax. Expected usage TYPE <key>'')
      else
        (case get_type (steady_clock env 0) (command ! 1) db of
           (db', t) \<Rightarrow>
             Some (db', (case t of
                           TYPE_NONE \<Rightarrow> SimpleString ''none''
                         | TYPE_STRING \<Rightarrow> SimpleString ''string''
                         | TYPE_LIST \<Rightarrow> SimpleString ''list''
                         | TYPE_STREAM \<Rightarrow> SimpleString ''stream''))))"

text \<open>
  An error other than the two that \<open>INCR\<close> tests for falls through to reading the value of an
  \<open>expected\<close> that holds none.
\<close>

definition incr :: handler where
  "incr env db command =
     (if length command \<noteq> 2 then Some (db, SimpleError ''ERR invalid syntax. Expected usage INCR <key>'')
      else
        Option.bind (increment_key (steady_clock env 0) (command ! 1) db) (\<lambda>(db', result).
          case result of
            Inl e \<Rightarrow>
              if e = WRONG_TYPE then Some (db', wrong_type_error)
              else if e = VALUE_NOT_INTEGER
              then Some (db', SimpleError ''ERR value is not an integer or out of range'')
              else None
          | Inr n \<Rightarrow> Some (db', Integer n)))"

end
