(* ===== verification/Rlist.thy ===== *)
theory Rlist
  imports Commands
begin

text \<open>The list commands of \<open>rlist.cpp\<close>: argument checks, the store's operation, the response.\<close>

definition get_range_index :: "string \<Rightarrow> int option" where
  "get_range_index text =
     (case from_chars_signed 64 text of
        (end_, error, index) \<Rightarrow> if error \<noteq> errc_ok \<or> end_ \<noteq> [] then None else Some index)"

definition parse_number_of_elements :: "string \<Rightarrow> response + int" where
  "parse_number_of_elements text =
     (case from_chars_signed 32 text of
        (end_, error, count) \<Rightarrow>
          if text = [] \<or> error \<noteq> errc_ok \<or> end_ \<noteq> [] \<or> count \<le> 0
          then Inl (SimpleError ''ERR Invalid number of items format'')
          else Inr count)"

record blocking_pop_request =
  pop_key :: key
  pop_timeout :: "int option"

text \<open>A timeout whose milliseconds do not fit into 64 bits has no defined conversion.\<close>

definition parse_blpop :: "command \<Rightarrow> (response + blocking_pop_request) option" where
  "parse_blpop command =
     (if length command \<noteq> 3
      then Some (Inl (SimpleError ''ERR invalid syntax. Expected usage BLPOP <list_name> <timeout>''))
      else
        (case parse_blocking_timeout (command ! 2) of
           None \<Rightarrow> Some (Inl (SimpleError ''ERR Invalid timeout value''))
         | Some parsed_timeout \<Rightarrow>
             if 0 < parsed_timeout then
               map_option (\<lambda>ms. Inr \<lparr>pop_key = command ! 1, pop_timeout = Some ms\<rparr>)
                 (milliseconds_of_seconds parsed_timeout)
             else Some (Inr \<lparr>pop_key = command ! 1, pop_timeout = None\<rparr>)))"

definition rpush :: handler where
  "rpush env db command =
     (if length command < 3
      then Some (db, SimpleError ''ERR invalid syntax. Expected usage RPUSH <list_name> <values...>'')
      else
        (case add_list_elements (steady_clock env 0) (command ! 1) (drop 2 command) APPEND db of
           (db', Inl _) \<Rightarrow> Some (db', wrong_type_error)
         | (db', Inr n) \<Rightarrow> Some (db', Integer (int n))))"

definition lpush :: handler where
  "lpush env db command =
     (if length command < 3
      then Some (db, SimpleError ''ERR invalid syntax. Expected usage LPUSH <list_name> <values...>'')
      else
        (case add_list_elements (steady_clock env 0) (command ! 1) (drop 2 command) PREPEND db of
           (db', Inl _) \<Rightarrow> Some (db', wrong_type_error)
         | (db', Inr n) \<Rightarrow> Some (db', Integer (int n))))"

definition lrange :: handler where
  "lrange env db command =
     (if length command \<noteq> 4
      then Some (db, SimpleError ''ERR invalid syntax. Expected usage LRANGE <list_name> <start_index> <stop_index>'')
      else
        (case (get_range_index (command ! 2), get_range_index (command ! 3)) of
           (Some start_index, Some stop_index) \<Rightarrow>
             (case list_elements (steady_clock env 0) (command ! 1) start_index stop_index db of
                (db', Inl _) \<Rightarrow> Some (db', wrong_type_error)
              | (db', Inr values) \<Rightarrow> Some (db', if values = [] then EmptyArray else Array values))
         | _ \<Rightarrow> Some (db, SimpleError ''ERR invalid index value'')))"

definition llen :: handler where
  "llen env db command =
     (if length command \<noteq> 2
      then Some (db, SimpleError ''ERR invalid syntax. Expected usage LLEN <list_name>'')
      else
        (case get_list_length (steady_clock env 0) (command ! 1) db of
           (db', Inl _) \<Rightarrow> Some (db', wrong_type_error)
         | (db', Inr n) \<Rightarrow> Some (db', Integer (int n))))"

definition lpop :: handler where
  "lpop env db command =
     (if length command \<noteq> 2 \<and> length command \<noteq> 3
      then Some (db, SimpleError ''ERR invalid syntax. Expected usage LPOP <list_name> <number_of_items?>'')
      else if length command = 2 then
        (case pop_list_element (steady_clock env 0) (command ! 1) db of
           (db', Inl e) \<Rightarrow> Some (db', if e = WRONG_TYPE then wrong_type_error else NullBulkString)
         | (db', Inr v) \<Rightarrow> Some (db', BulkString v))
      else
        (case parse_number_of_elements (command ! 2) of
           Inl e \<Rightarrow> Some (db, e)
         | Inr n \<Rightarrow>
             (case pop_list_elements (steady_clock env 0) (command ! 1) n db of
                (db', Inl e) \<Rightarrow> Some (db', if e = WRONG_TYPE then wrong_type_error else NullBulkString)
              | (db', Inr vs) \<Rightarrow> Some (db', Array vs))))"

definition blpop :: handler where
  "blpop env db command =
     Option.bind (parse_blpop command) (\<lambda>parsed.
       case parsed of
         Inl e \<Rightarrow> Some (db, e)
       | Inr request \<Rightarrow>
           (case pop_list_element (steady_clock env 0) (pop_key request) db of
              (db', Inl e) \<Rightarrow> Some (db', if e = WRONG_TYPE then wrong_type_error else NullArray)
            | (db', Inr v) \<Rightarrow> Some (db', Array [pop_key request, v])))"

end
