(* ===== verification/Rstream.thy ===== *)
theory Rstream
  imports Commands
begin

text \<open>
  The stream commands of \<open>rstream.cpp\<close>: the textual forms of IDs and ranges, the syntax of \<open>XREAD\<close>,
  the three handlers and the nested responses.
\<close>

section \<open>Parsing\<close>

text \<open>\<open>std::toupper\<close> in the C locale.\<close>

definition upper_char :: "char \<Rightarrow> char" where
  "upper_char c = (let n = (of_char c :: nat) in if 97 \<le> n \<and> n \<le> 122 then char_of (n - 32) else c)"

definition equals_ignore_case :: "string \<Rightarrow> string \<Rightarrow> bool" where
  "equals_ignore_case a b \<longleftrightarrow>
     length a = length b \<and> map upper_char a = map upper_char b"

definition parse_text_as_number :: "string \<Rightarrow> u64 option" where
  "parse_text_as_number text =
     (case from_chars_unsigned 64 text of
        (end_, error, number) \<Rightarrow>
          if text = [] \<or> error \<noteq> errc_ok \<or> end_ \<noteq> [] then None else Some (of_nat number))"

fun value_pairs :: "string list \<Rightarrow> (string \<times> string) list" where
  "value_pairs (f # v # rest) = (f, v) # value_pairs rest"
| "value_pairs _ = []"

definition parse_value_list :: "string list \<Rightarrow> (string \<times> string) list option" where
  "parse_value_list values =
     (if values = [] \<or> length values mod 2 \<noteq> 0 then None else Some (value_pairs values))"

definition parse_dashed_id :: "string \<Rightarrow> nat \<Rightarrow> stream_id option" where
  "parse_dashed_id text dash_position =
     (case (parse_text_as_number (take dash_position text), parse_text_as_number (drop (dash_position + 1) text)) of
        (Some ms, Some seq) \<Rightarrow> Some (StreamId ms seq)
      | _ \<Rightarrow> None)"

definition parse_read_id :: "string \<Rightarrow> stream_id option" where
  "parse_read_id text =
     (case find_char (CHR ''-'') text of
        None \<Rightarrow> map_option (\<lambda>ms. StreamId ms 0) (parse_text_as_number text)
      | Some dash_position \<Rightarrow> parse_dashed_id text dash_position)"

definition parse_range_start :: "string \<Rightarrow> stream_id option" where
  "parse_range_start start =
     (if start = ''-'' then Some (StreamId 0 0)
      else
        (case find_char (CHR ''-'') start of
           None \<Rightarrow> map_option (\<lambda>ms. StreamId ms 0) (parse_text_as_number start)
         | Some dash_position \<Rightarrow> parse_dashed_id start dash_position))"

definition parse_range_stop :: "string \<Rightarrow> stream_id option" where
  "parse_range_stop stop =
     (if stop = ''+'' then Some (StreamId (- 1) (- 1))
      else
        (case find_char (CHR ''-'') stop of
           None \<Rightarrow> map_option (\<lambda>ms. StreamId ms (- 1)) (parse_text_as_number stop)
         | Some dash_position \<Rightarrow> parse_dashed_id stop dash_position))"

definition parse_id :: "string \<Rightarrow> id_request option" where
  "parse_id i =
     (if i = ''*'' then Some \<lparr>req_mode = AUTOMATIC, req_milliseconds = 0, req_sequence = 0\<rparr>
      else
        (case find_char (CHR ''-'') i of
           None \<Rightarrow> None
         | Some dash_position \<Rightarrow>
             (case parse_text_as_number (take dash_position i) of
                None \<Rightarrow> None
              | Some ms \<Rightarrow>
                  let sequence_part_text = drop (dash_position + 1) i in
                  if sequence_part_text = ''*''
                  then Some \<lparr>req_mode = AUTOMATIC_SEQUENCE, req_milliseconds = ms, req_sequence = 0\<rparr>
                  else
                    (case parse_text_as_number sequence_part_text of
                       None \<Rightarrow> None
                     | Some seq \<Rightarrow> Some \<lparr>req_mode = EXPLICIT, req_milliseconds = ms, req_sequence = seq\<rparr>))))"

definition xread_usage :: response where
  "xread_usage =
     SimpleError ''ERR Invalid usage. Expected usage <XREAD> <BLOCK?> <timeout?> <STREAMS> <name> <id/$>''"

text \<open>The optional \<open>BLOCK\<close> clause: the read options and the position behind it.\<close>

definition parse_block_clause :: "command \<Rightarrow> response + read_options \<times> nat" where
  "parse_block_clause command =
     (if equals_ignore_case (command ! 1) ''BLOCK'' then
        if length command \<le> 2 then Inl xread_usage
        else
          (case parse_stream_blocking_timeout (command ! 2) of
             None \<Rightarrow> Inl (SimpleError ''ERR Invalid timeout value'')
           | Some timeout \<Rightarrow>
               if timeout = 0 then Inr (\<lparr>read_mode = BLOCK_INDEFINITELY, read_timeout = 0\<rparr>, 3)
               else Inr (\<lparr>read_mode = BLOCK_WITH_TIMEOUT, read_timeout = timeout\<rparr>, 3))
      else Inr (\<lparr>read_mode = IMMEDIATE, read_timeout = 0\<rparr>, 1))"

fun parse_requests :: "(string \<times> string) list \<Rightarrow> read_request list \<Rightarrow> response + read_request list" where
  "parse_requests [] requests = Inr requests"
| "parse_requests ((k, id_text) # rest) requests =
     (if id_text = ''$''
      then parse_requests rest (requests @ [\<lparr>read_key = k, start_mode = LATEST, after_id = StreamId 0 0\<rparr>])
      else
        (case parse_read_id id_text of
           None \<Rightarrow> Inl (SimpleError ''ERR Invalid id format'')
         | Some i \<Rightarrow>
             parse_requests rest (requests @ [\<lparr>read_key = k, start_mode = AFTER_ID, after_id = i\<rparr>])))"

definition parse_xread :: "command \<Rightarrow> response + read_command" where
  "parse_xread command =
     (if length command < 4 then Inl xread_usage
      else
        (case parse_block_clause command of
           Inl e \<Rightarrow> Inl e
         | Inr (read_opts, position) \<Rightarrow>
             if length command \<le> position \<or> \<not> equals_ignore_case (command ! position) ''STREAMS''
             then Inl (SimpleError ''ERR STREAMS keyword is required'')
             else
               let keys_and_ids = drop (position + 1) command in
               if keys_and_ids = [] \<or> length keys_and_ids mod 2 \<noteq> 0
               then Inl (SimpleError ''ERR every key must have a corresponding ID'')
               else
                 let stream_count = length keys_and_ids div 2 in
                 (case parse_requests (zip (take stream_count keys_and_ids) (drop stream_count keys_and_ids)) [] of
                    Inl e \<Rightarrow> Inl e
                  | Inr requests \<Rightarrow> Inr \<lparr>read_requests = requests, options = read_opts\<rparr>)))"

section \<open>Handlers\<close>

definition xadd :: handler where
  "xadd env db command =
     (if length command < 5
      then Some (db, SimpleError ''ERR Invalid usage. Expected usage <XADD> <name> <id> <key> <value> pairs...'')
      else
        (case parse_id (command ! 2) of
           None \<Rightarrow> Some (db, SimpleError ''ERR Invalid id format'')
         | Some parsed_id \<Rightarrow>
             if req_mode parsed_id = EXPLICIT \<and> req_milliseconds parsed_id = 0 \<and> req_sequence parsed_id = 0
             then Some (db, SimpleError ''ERR The ID specified in XADD must be greater than 0-0'')
             else
               (case parse_value_list (drop 3 command) of
                  None \<Rightarrow> Some (db, SimpleError ''ERR Invalid value list format'')
                | Some parsed_values \<Rightarrow>
                    (case add_stream (steady_clock env 0) (system_clock env) (command ! 1) parsed_id parsed_values db of
                       (db', Inl e) \<Rightarrow>
                         if e = WRONG_TYPE then Some (db', wrong_type_error)
                         else if e = INVALID_STREAM_ID_VALUE
                         then Some (db', SimpleError ''ERR The ID specified in XADD is equal or smaller than the target stream top item'')
                         else None
                     | (db', Inr i) \<Rightarrow> Some (db', BulkString (stream_id_to_string i))))))"

definition entry_response :: "stream_entry \<Rightarrow> response" where
  "entry_response e =
     ResponseArray
       [BulkString (stream_id_to_string (entry_id e)),
        ResponseArray (concat (map (\<lambda>(f, v). [BulkString f, BulkString v]) (entry_values e)))]"

definition xrange :: handler where
  "xrange env db command =
     (if length command \<noteq> 4
      then Some (db, SimpleError ''ERR Invalid usage. Expected usage <XRANGE> <name> <start> <stop>'')
      else
        (case (parse_range_start (command ! 2), parse_range_stop (command ! 3)) of
           (Some start, Some stop) \<Rightarrow>
             Option.bind (stream_range (steady_clock env 0) (command ! 1) start stop db) (\<lambda>(db', result).
               case result of
                 Inl e \<Rightarrow>
                   if e = KEY_NOT_FOUND then Some (db', SimpleError ''ERR stream with given key does not exits'')
                   else if e = WRONG_TYPE then Some (db', SimpleError ''ERR wrong type'')
                   else None
               | Inr es \<Rightarrow> Some (db', ResponseArray (map entry_response es)))
         | _ \<Rightarrow> Some (db, SimpleError ''ERR Invalid range indexes format'')))"

definition make_xread_response :: "read_result list \<Rightarrow> response" where
  "make_xread_response results =
     (if results = [] then NullArray
      else
        ResponseArray (map (\<lambda>r.
          ResponseArray [BulkString (result_key r), ResponseArray (map entry_response (result_entries r))]) results))"

definition xread_error :: "db_error \<Rightarrow> response" where
  "xread_error e = (if e = WRONG_TYPE then wrong_type_error else SimpleError ''ERR Unable to read streams'')"

definition xread :: handler where
  "xread env db command =
     (case parse_xread command of
        Inl e \<Rightarrow> Some (db, e)
      | Inr read_command \<Rightarrow>
          (case read_streams (steady_clock env) (read_requests read_command) db of
             (db', _, Inl e) \<Rightarrow> Some (db', xread_error e)
           | (db', _, Inr results) \<Rightarrow> Some (db', make_xread_response results)))"

section \<open>The textual forms of IDs\<close>

lemma parse_text_as_number_dec [simp]: "parse_text_as_number (dec_of_nat (unat (w :: u64))) = Some w"
proof -
  have "unat w < 2 ^ 64" using unsigned_less [of w, where 'a = nat] by simp
  then show ?thesis using from_chars_unsigned_dec [of "unat w" 64] by (simp add: parse_text_as_number_def)
qed

lemma find_dash_dec [simp]: "find_char (CHR ''-'') (dec_of_nat n) = None"
  by (simp add: find_char_None)

lemmas stream_id_text [simp] = stream_id_dash stream_id_parts

lemma stream_id_text_not_special [simp]:
  "stream_id_to_string i \<noteq> ''*''" "stream_id_to_string i \<noteq> ''-''" "stream_id_to_string i \<noteq> ''+''"
  "dec_of_nat n \<noteq> ''-''" "dec_of_nat n \<noteq> ''+''" "dec_of_nat n \<noteq> ''*''"
proof -
  have d: "dec_of_nat m \<noteq> [c]" if "\<not> is_digit c" for m c
    using dec_of_nat_digits [of m] that by (metis list.set_intros(1))
  then show "dec_of_nat n \<noteq> ''-''" "dec_of_nat n \<noteq> ''+''" "dec_of_nat n \<noteq> ''*''"
    by (simp_all add: is_digit_def)
  have "length (stream_id_to_string i) \<ge> 3"
    using dec_of_nat_nonempty [of "unat (milliseconds i)"] dec_of_nat_nonempty [of "unat (sequence i)"]
    by (cases "dec_of_nat (unat (milliseconds i))"; cases "dec_of_nat (unat (sequence i))")
      (auto simp: stream_id_to_string_def)
  then show "stream_id_to_string i \<noteq> ''*''" "stream_id_to_string i \<noteq> ''-''" "stream_id_to_string i \<noteq> ''+''"
    by auto
qed

lemma parse_id_text:
  "parse_id (stream_id_to_string i) =
     Some \<lparr>req_mode = EXPLICIT, req_milliseconds = milliseconds i, req_sequence = sequence i\<rparr>"
  by (simp add: parse_id_def Let_def)

lemma parse_dashed_id_text:
  "parse_dashed_id (stream_id_to_string i) (length (dec_of_nat (unat (milliseconds i)))) = Some i"
  by (simp add: parse_dashed_id_def)

text \<open>
  Stream IDs survive their textual form. The text that \<open>XADD\<close> and \<open>XRANGE\<close> report for an ID is read
  back as exactly that ID by \<open>XADD\<close>, \<open>XREAD\<close> and both ends of \<open>XRANGE\<close>; an ID without a sequence number
  stands for its first entry at the start of a range and for its last one at the end.
\<close>

theorem stream_id_text_round_trip:
  "parse_id (stream_id_to_string i) =
     Some \<lparr>req_mode = EXPLICIT, req_milliseconds = milliseconds i, req_sequence = sequence i\<rparr> \<and>
   parse_read_id (stream_id_to_string i) = Some i \<and>
   parse_range_start (stream_id_to_string i) = Some i \<and>
   parse_range_stop (stream_id_to_string i) = Some i \<and>
   parse_range_start (dec_of_nat (unat ms)) = Some (StreamId ms 0) \<and>
   parse_range_stop (dec_of_nat (unat ms)) = Some (StreamId ms (- 1)) \<and>
   parse_read_id (dec_of_nat (unat ms)) = Some (StreamId ms 0)"
  by (simp add: parse_id_text parse_read_id_def parse_range_start_def parse_range_stop_def parse_dashed_id_text)

end
