(* ===== verification/Store_Spec.thy ===== *)
theory Store_Spec
  imports Database_Queries
begin

text \<open>
  The abstract specification of the store: at a moment, the store is a map from keys to values, and
  every operation is a function on that map. \<open>contents\<close> is the abstraction function; the lemmas
  \<open>\<dots>_refines\<close> say that each operation of the database implements its function, whatever expired
  entries are still in memory. Operations that agree on the abstract store agree on their results:
  this is what replication and the append-only file rest on.
\<close>

type_synonym store = "key \<rightharpoonup> db_value"

definition contents :: "time_point \<Rightarrow> database \<Rightarrow> store" where
  "contents now db k = map_option entry_value (live now db k)"

section \<open>The operations on the abstract store\<close>

definition spec_push :: "key \<Rightarrow> string list \<Rightarrow> list_add_mode \<Rightarrow> store \<Rightarrow> store \<times> (db_error + nat)" where
  "spec_push k vs mode s =
     (case s k of
        None \<Rightarrow> (s(k \<mapsto> ListValue (if mode = APPEND then vs else rev vs)), Inr (length vs))
      | Some (ListValue xs) \<Rightarrow>
          (s(k \<mapsto> ListValue (if mode = APPEND then xs @ vs else rev vs @ xs)), Inr (length xs + length vs))
      | Some _ \<Rightarrow> (s, Inl WRONG_TYPE))"

definition spec_store_list :: "key \<Rightarrow> string list \<Rightarrow> store \<Rightarrow> store" where
  "spec_store_list k xs s = (if xs = [] then s(k := None) else s(k \<mapsto> ListValue xs))"

definition spec_pop :: "key \<Rightarrow> store \<Rightarrow> store \<times> (db_error + string)" where
  "spec_pop k s =
     (case s k of
        None \<Rightarrow> (s, Inl KEY_NOT_FOUND)
      | Some (ListValue []) \<Rightarrow> (s, Inl KEY_NOT_FOUND)
      | Some (ListValue (x # xs)) \<Rightarrow> (spec_store_list k xs s, Inr x)
      | Some _ \<Rightarrow> (s, Inl WRONG_TYPE))"

definition spec_pops :: "key \<Rightarrow> int \<Rightarrow> store \<Rightarrow> store \<times> (db_error + string list)" where
  "spec_pops k n s =
     (case s k of
        None \<Rightarrow> (s, Inl KEY_NOT_FOUND)
      | Some (ListValue xs) \<Rightarrow>
          if xs = [] then (s, Inl KEY_NOT_FOUND)
          else if n \<le> 0 then (s, Inr [])
          else (spec_store_list k (drop (nat n) xs) s, Inr (take (nat n) xs))
      | Some _ \<Rightarrow> (s, Inl WRONG_TYPE))"

definition spec_increment :: "key \<Rightarrow> store \<Rightarrow> (store \<times> (db_error + int)) option" where
  "spec_increment k s =
     (case s k of
        None \<Rightarrow> Some (s(k \<mapsto> StringValue (dec_of_int 1)), Inr 1)
      | Some (StringValue text) \<Rightarrow>
          (case parse_value_to_increment text of
             None \<Rightarrow> Some (s, Inl VALUE_NOT_INTEGER)
           | Some n \<Rightarrow>
               if int64_range (n + 1) then Some (s(k \<mapsto> StringValue (dec_of_int (n + 1))), Inr (n + 1)) else None)
      | Some _ \<Rightarrow> Some (s, Inl WRONG_TYPE))"

definition spec_add_stream ::
  "int \<Rightarrow> key \<Rightarrow> id_request \<Rightarrow> (string \<times> string) list \<Rightarrow> store \<Rightarrow> store \<times> (db_error + stream_id)" where
  "spec_add_stream unix_ms k req vs s =
     (case (case s k of None \<Rightarrow> StreamValue [] | Some v \<Rightarrow> v) of
        StreamValue es \<Rightarrow>
          let i = new_stream_id unix_ms req (es \<noteq> []) (newest_id es) in
          if es \<noteq> [] \<and> i \<le> newest_id es then (s, Inl INVALID_STREAM_ID_VALUE)
          else (s(k \<mapsto> StreamValue (es @ [\<lparr>entry_id = i, entry_values = vs\<rparr>])), Inr i)
      | _ \<Rightarrow> (s, Inl WRONG_TYPE))"

section \<open>The operations of the database implement them\<close>

lemma contents_cases:
  obtains (absent) db' where "contents now db k = None" "find_active_entry now k db = (db', None)"
      "contents now db' = contents now db"
  | (present) e where "contents now db k = Some (entry_value e)" "live now db k = Some e"
      "find_active_entry now k db = (db, Some e)" "\<not> is_expired now e"
proof (cases "live now db k")
  case None
  then obtain db' where "find_active_entry now k db = (db', None)" "live now db' = live now db"
    using find_none by blast
  with None show ?thesis by (intro absent) (auto simp: contents_def fun_eq_iff)
next
  case (Some e)
  with find_live [OF Some] show ?thesis by (intro present) (auto simp: contents_def)
qed

lemma contents_simps [simp]:
  "contents now (mark_key_modified k db) = contents now db"
  "contents now (put_entry k e db) =
     (if is_expired now e then (contents now db)(k := None) else (contents now db)(k \<mapsto> entry_value e))"
  "contents now (erase_entry k db) = (contents now db)(k := None)"
  by (auto simp: contents_def fun_eq_iff)

lemma contents_find [simp]: "contents now (fst (find_active_entry now k db)) = contents now db"
  by (simp add: contents_def fun_eq_iff)

lemma contents_store_popped:
  "\<not> is_expired now e \<Longrightarrow> contents now (store_popped k e xs db) = spec_store_list k xs (contents now db)"
  by (simp add: store_popped_def spec_store_list_def)

lemma push_refines:
  "(contents now (fst (add_list_elements now k vs mode db)), snd (add_list_elements now k vs mode db)) =
   spec_push k vs mode (contents now db)"
  by (cases rule: contents_cases [of now db k])
    (auto simp: add_list_elements_def spec_push_def Let_def split: db_value.splits)

lemma pop_refines:
  "(contents now (fst (pop_list_element now k db)), snd (pop_list_element now k db)) =
   spec_pop k (contents now db)"
  by (cases rule: contents_cases [of now db k])
    (auto simp: pop_list_element_def spec_pop_def contents_store_popped split: db_value.splits list.splits)

lemma pops_refines:
  "(contents now (fst (pop_list_elements now k n db)), snd (pop_list_elements now k n db)) =
   spec_pops k n (contents now db)"
  by (cases rule: contents_cases [of now db k])
    (auto simp: pop_list_elements_def spec_pops_def contents_store_popped pop_front_loop_eq min_def
      split: db_value.splits)

lemma increment_refines:
  "map_option (\<lambda>(db', r). (contents now db', r)) (increment_key now k db) = spec_increment k (contents now db)"
  by (cases rule: contents_cases [of now db k])
    (auto simp: increment_key_def spec_increment_def checked_int64_def split: db_value.splits option.splits)

lemma add_stream_refines:
  "(contents now (fst (add_stream now unix_ms k req vs db)), snd (add_stream now unix_ms k req vs db)) =
   spec_add_stream unix_ms k req vs (contents now db)"
proof (cases rule: contents_cases [of now db k])
  case (absent db')
  then show ?thesis
    by (auto simp: add_stream_def spec_add_stream_def Let_def newest_id_def)
next
  case (present e)
  then show ?thesis
    by (auto simp: add_stream_def spec_add_stream_def Let_def newest_id_def split: db_value.splits)
qed

lemma set_refines:
  assumes "db_set now k v expiry db = Some db'" "\<forall>ms. expiry = Some ms \<longrightarrow> 0 < ms"
  shows "contents now db' = (contents now db)(k \<mapsto> StringValue v)"
  using db_set_entry [OF assms(1)] assms(2)
  by (auto simp: contents_def live_def is_expired_def fun_eq_iff split: option.splits)

text \<open>
  C24: The database implements the abstract store. Pushes, pops, increments and stream appends act on
  the map of live contents exactly as their specification functions do, and return the specified
  result or error, no matter which expired entries are still in memory.
\<close>

theorem store_refines_map:
  "(contents now (fst (add_list_elements now k vs mode db)), snd (add_list_elements now k vs mode db)) =
     spec_push k vs mode (contents now db) \<and>
   (contents now (fst (pop_list_element now k db)), snd (pop_list_element now k db)) =
     spec_pop k (contents now db) \<and>
   (contents now (fst (pop_list_elements now k n db)), snd (pop_list_elements now k n db)) =
     spec_pops k n (contents now db) \<and>
   map_option (\<lambda>(db', r). (contents now db', r)) (increment_key now k db) = spec_increment k (contents now db) \<and>
   (contents now (fst (add_stream now unix_ms k req fvs db)), snd (add_stream now unix_ms k req fvs db)) =
     spec_add_stream unix_ms k req fvs (contents now db)"
  by (simp only: push_refines pop_refines pops_refines increment_refines add_stream_refines simp_thms)

section \<open>Sweeping\<close>

text \<open>
  A change that only removes entries that had expired at some moment of \<open>T\<close>. Reading operations change
  the store in this way only, and it is invisible from then on.
\<close>

definition sweeps :: "time_point set \<Rightarrow> database \<Rightarrow> database \<Rightarrow> bool" where
  "sweeps T db db' \<longleftrightarrow>
     (\<forall>k. entries db' k = entries db k \<or>
          (entries db' k = None \<and> (\<exists>e t. entries db k = Some e \<and> t \<in> T \<and> is_expired t e)))"

lemma sweeps_refl [simp]: "sweeps T db db"
  by (simp add: sweeps_def)

lemma sweeps_trans: "sweeps T db db1 \<Longrightarrow> sweeps T db1 db2 \<Longrightarrow> sweeps T db db2"
  unfolding sweeps_def by metis

lemma sweeps_mono: "sweeps S db db' \<Longrightarrow> S \<subseteq> T \<Longrightarrow> sweeps T db db'"
  unfolding sweeps_def by blast

lemma is_expired_mono: "is_expired s e \<Longrightarrow> s \<le> t \<Longrightarrow> is_expired t e"
  by (auto simp: is_expired_def split: option.splits)

lemma sweeps_live:
  assumes "sweeps T db db'" "\<forall>s \<in> T. s \<le> t"
  shows "live t db' = live t db"
proof
  fix k
  consider "entries db' k = entries db k"
    | e s where "entries db' k = None" "entries db k = Some e" "s \<in> T" "is_expired s e"
    using assms(1) unfolding sweeps_def by blast
  then show "live t db' k = live t db k"
    using assms(2) by cases (auto simp: live_def dest: is_expired_mono)
qed

lemma sweeps_contents: "sweeps T db db' \<Longrightarrow> \<forall>s \<in> T. s \<le> t \<Longrightarrow> contents t db' = contents t db"
  by (simp add: contents_def fun_eq_iff sweeps_live)

lemma sweeps_find [simp]: "t \<in> T \<Longrightarrow> sweeps T db (fst (find_active_entry t k db))"
  by (cases rule: find_active_entry_cases [of db k t]) (auto simp: sweeps_def)

lemma sweeps_lookups [simp]:
  assumes "t \<in> T"
  shows "sweeps T db (fst (db_get t k db))" "sweeps T db (fst (get_type t k db))"
    "sweeps T db (fst (list_elements t k i j db))" "sweeps T db (fst (get_list_length t k db))"
    "sweeps T db (fst (key_revision t k db))"
  using assms by (simp_all add: fst_lookups)

lemma sweeps_stream_range: "t \<in> T \<Longrightarrow> stream_range t k a b db = Some (db', r) \<Longrightarrow> sweeps T db db'"
  using stream_range_lookup [of t k a b db] by auto

lemma sweeps_keys_loop: "t \<in> T \<Longrightarrow> sweeps T db (fst (keys_loop t ks db result))"
proof (induction ks arbitrary: db result)
  case (Cons k ks)
  have "sweeps T db (erase_entry k (mark_key_modified k db))" if "entries db k = Some e" "is_expired t e" for e
    using that Cons.prems by (auto simp: sweeps_def)
  with Cons show ?case by (auto split: option.splits intro: sweeps_trans)
qed simp

lemma sweeps_resolve_requests: "range clk \<subseteq> T \<Longrightarrow> sweeps T db (fst (resolve_requests clk i rs db))"
proof (induction rs arbitrary: db i)
  case (Cons r rs)
  have one: "sweeps T db (fst (find_active_entry (clk i) (read_key r) db))"
    using Cons.prems by (intro sweeps_find) auto
  with Cons.IH [OF Cons.prems] show ?case
    by (auto simp: Let_def split: option.splits db_value.splits prod.splits)
      (metis fst_conv sweeps_trans)+
qed simp

lemma sweeps_collect_results: "range clk \<subseteq> T \<Longrightarrow> sweeps T db (fst (collect_results clk i rs db results))"
proof (induction rs arbitrary: db i results)
  case (Cons r rs)
  let ?d = "fst (find_active_entry (clk i) (read_key r) db)"
  have one: "sweeps T db ?d" using Cons.prems by (intro sweeps_find) auto
  have "fst (collect_results clk i (r # rs) db results) = ?d \<or>
      (\<exists>res. fst (collect_results clk i (r # rs) db results) = fst (collect_results clk (Suc i) rs ?d res))"
    by (auto simp: Let_def split: option.splits db_value.splits prod.splits)
  then show ?case using one sweeps_trans [OF one Cons.IH [OF Cons.prems]] by auto
qed simp

lemma sweeps_read_streams: "sweeps (range clk) db (fst (read_streams clk requests db))"
proof -
  obtain db1 rs1 ok where r: "resolve_requests clk 0 requests db = (db1, rs1, ok)" by (metis prod_cases3)
  have one: "sweeps (range clk) db db1"
    using sweeps_resolve_requests [of clk "range clk" db 0 requests] r by simp
  moreover have "fst (read_streams clk requests db) \<in> {db1, fst (collect_results clk (length requests) rs1 db1 [])}"
    using r by (auto simp: read_streams_def split: prod.splits)
  ultimately show ?thesis using sweeps_trans [OF one sweeps_collect_results [OF order_refl]] by auto
qed

end
