(* ===== verification/Dispatch.thy ===== *)
theory Dispatch
  imports Rlist Rstream Store_Spec
begin

text \<open>
  The command table of \<open>command_processor.cpp\<close> and the free functions around it: the dispatcher, the
  classification of commands as writes, the test whether a write changed the store, and the form in
  which a write is logged and sent to replicas.
\<close>

datatype command_access = READ_ONLY | WRITE

record command_definition =
  definition_command :: string
  definition_handler :: handler
  definition_access :: command_access

definition command_handlers :: "command_definition list" where
  "command_handlers =
     [\<lparr>definition_command = ''PING'', definition_handler = \<lambda>env db command. Some (db, ping command), definition_access = READ_ONLY\<rparr>,
      \<lparr>definition_command = ''ECHO'', definition_handler = \<lambda>env db command. Some (db, echo command), definition_access = READ_ONLY\<rparr>,
      \<lparr>definition_command = ''SET'', definition_handler = set_command, definition_access = WRITE\<rparr>,
      \<lparr>definition_command = ''GET'', definition_handler = get_command, definition_access = READ_ONLY\<rparr>,
      \<lparr>definition_command = ''KEYS'', definition_handler = keys_command, definition_access = READ_ONLY\<rparr>,
      \<lparr>definition_command = ''TYPE'', definition_handler = type_command, definition_access = READ_ONLY\<rparr>,
      \<lparr>definition_command = ''INCR'', definition_handler = incr, definition_access = WRITE\<rparr>,
      \<lparr>definition_command = ''RPUSH'', definition_handler = rpush, definition_access = WRITE\<rparr>,
      \<lparr>definition_command = ''LPUSH'', definition_handler = lpush, definition_access = WRITE\<rparr>,
      \<lparr>definition_command = ''LRANGE'', definition_handler = lrange, definition_access = READ_ONLY\<rparr>,
      \<lparr>definition_command = ''LLEN'', definition_handler = llen, definition_access = READ_ONLY\<rparr>,
      \<lparr>definition_command = ''LPOP'', definition_handler = lpop, definition_access = WRITE\<rparr>,
      \<lparr>definition_command = ''BLPOP'', definition_handler = blpop, definition_access = WRITE\<rparr>,
      \<lparr>definition_command = ''XADD'', definition_handler = xadd, definition_access = WRITE\<rparr>,
      \<lparr>definition_command = ''XRANGE'', definition_handler = xrange, definition_access = READ_ONLY\<rparr>,
      \<lparr>definition_command = ''XREAD'', definition_handler = xread, definition_access = READ_ONLY\<rparr>]"

definition find_command_definition :: "string \<Rightarrow> command_definition option" where
  "find_command_definition command_name = List.find (\<lambda>d. definition_command d = command_name) command_handlers"

definition is_write_command :: "command \<Rightarrow> bool" where
  "is_write_command command \<longleftrightarrow>
     command \<noteq> [] \<and>
     (case find_command_definition (hd command) of
        None \<Rightarrow> False
      | Some d \<Rightarrow> definition_access d = WRITE)"

definition response_is_error :: "response \<Rightarrow> bool" where
  "response_is_error response \<longleftrightarrow> (case response of SimpleError _ \<Rightarrow> True | _ \<Rightarrow> False)"

definition write_modified_database :: "command \<Rightarrow> response \<Rightarrow> bool" where
  "write_modified_database command response =
     (if response_is_error response then False
      else if hd command = ''BLPOP'' then (case response of Array values \<Rightarrow> values \<noteq> [] | _ \<Rightarrow> False)
      else if hd command \<noteq> ''LPOP'' then True
      else
        (case response of
           NullBulkString \<Rightarrow> False
         | Array values \<Rightarrow> values \<noteq> []
         | _ \<Rightarrow> True))"

definition normalize_replication_command :: "command \<Rightarrow> response \<Rightarrow> command" where
  "normalize_replication_command command response =
     (let command1 =
        (if hd command = ''XADD''
         then (case response of BulkString generated_id \<Rightarrow> command[2 := generated_id] | _ \<Rightarrow> command)
         else command)
      in if hd command1 = ''BLPOP'' then [''LPOP'', command1 ! 1] else command1)"

definition parse_unsigned_integer :: "string \<Rightarrow> u64 option" where
  "parse_unsigned_integer text =
     (case from_chars_unsigned 64 text of
        (end_, error, v) \<Rightarrow>
          if text = [] \<or> error \<noteq> errc_ok \<or> end_ \<noteq> [] then None else Some (of_nat v))"

record wait_request =
  required_replicas :: nat
  wait_timeout :: "int option"

definition parse_wait_request :: "command \<Rightarrow> response + wait_request" where
  "parse_wait_request command =
     (if length command \<noteq> 3 then Inl (SimpleError ''ERR wrong number of arguments for 'wait' command'')
      else
        (case (parse_unsigned_integer (command ! 1), parse_unsigned_integer (command ! 2)) of
           (Some replicas, Some timeout) \<Rightarrow>
             if 2 ^ 63 - 1 < unat timeout then Inl (SimpleError ''ERR value is not an integer or out of range'')
             else Inr \<lparr>required_replicas = unat replicas,
                       wait_timeout = (if timeout \<noteq> 0 then Some (int (unat timeout)) else None)\<rparr>
         | _ \<Rightarrow> Inl (SimpleError ''ERR value is not an integer or out of range'')))"

definition dispatch :: handler where
  "dispatch env db command =
     (if command = [] then Some (db, NullBulkString)
      else
        (case find_command_definition (hd command) of
           None \<Rightarrow> Some (db, SimpleError ''ERR unknown command'')
         | Some d \<Rightarrow> definition_handler d env db command))"

section \<open>The table as equations\<close>

lemma find_command_definition_simps:
  "find_command_definition name =
     (if name = ''PING'' then Some (command_handlers ! 0) else if name = ''ECHO'' then Some (command_handlers ! 1)
      else if name = ''SET'' then Some (command_handlers ! 2) else if name = ''GET'' then Some (command_handlers ! 3)
      else if name = ''KEYS'' then Some (command_handlers ! 4) else if name = ''TYPE'' then Some (command_handlers ! 5)
      else if name = ''INCR'' then Some (command_handlers ! 6) else if name = ''RPUSH'' then Some (command_handlers ! 7)
      else if name = ''LPUSH'' then Some (command_handlers ! 8) else if name = ''LRANGE'' then Some (command_handlers ! 9)
      else if name = ''LLEN'' then Some (command_handlers ! 10) else if name = ''LPOP'' then Some (command_handlers ! 11)
      else if name = ''BLPOP'' then Some (command_handlers ! 12) else if name = ''XADD'' then Some (command_handlers ! 13)
      else if name = ''XRANGE'' then Some (command_handlers ! 14) else if name = ''XREAD'' then Some (command_handlers ! 15)
      else None)"
  unfolding find_command_definition_def command_handlers_def by auto

lemma is_write_command_iff:
  "is_write_command c \<longleftrightarrow> c \<noteq> [] \<and> hd c \<in> {''SET'', ''INCR'', ''RPUSH'', ''LPUSH'', ''LPOP'', ''BLPOP'', ''XADD''}"
  by (simp add: is_write_command_def find_command_definition_simps command_handlers_def)

lemma dispatch_table:
  "c \<noteq> [] \<Longrightarrow> dispatch env db c =
     (if hd c = ''PING'' then Some (db, ping c) else if hd c = ''ECHO'' then Some (db, echo c)
      else if hd c = ''SET'' then set_command env db c else if hd c = ''GET'' then get_command env db c
      else if hd c = ''KEYS'' then keys_command env db c else if hd c = ''TYPE'' then type_command env db c
      else if hd c = ''INCR'' then incr env db c else if hd c = ''RPUSH'' then rpush env db c
      else if hd c = ''LPUSH'' then lpush env db c else if hd c = ''LRANGE'' then lrange env db c
      else if hd c = ''LLEN'' then llen env db c else if hd c = ''LPOP'' then lpop env db c
      else if hd c = ''BLPOP'' then blpop env db c else if hd c = ''XADD'' then xadd env db c
      else if hd c = ''XRANGE'' then xrange env db c else if hd c = ''XREAD'' then xread env db c
      else Some (db, SimpleError ''ERR unknown command''))"
  unfolding dispatch_def find_command_definition_simps by (auto simp: command_handlers_def)

lemma dispatch_cases:
  obtains (empty) "c = []" "dispatch env db c = Some (db, NullBulkString)"
  | (unknown) "c \<noteq> []" "dispatch env db c = Some (db, SimpleError ''ERR unknown command'')" "\<not> is_write_command c"
      "hd c \<notin> {''PING'', ''ECHO'', ''SET'', ''GET'', ''KEYS'', ''TYPE'', ''INCR'', ''RPUSH'', ''LPUSH'',
        ''LRANGE'', ''LLEN'', ''LPOP'', ''BLPOP'', ''XADD'', ''XRANGE'', ''XREAD''}"
  | (pure) r where "hd c \<in> {''PING'', ''ECHO''}" "c \<noteq> []" "dispatch env db c = Some (db, r)"
  | (set) "hd c = ''SET''" "c \<noteq> []" "dispatch env db c = set_command env db c"
  | (get) "hd c = ''GET''" "c \<noteq> []" "dispatch env db c = get_command env db c"
  | (keys) "hd c = ''KEYS''" "c \<noteq> []" "dispatch env db c = keys_command env db c"
  | (type) "hd c = ''TYPE''" "c \<noteq> []" "dispatch env db c = type_command env db c"
  | (incr) "hd c = ''INCR''" "c \<noteq> []" "dispatch env db c = incr env db c"
  | (rpush) "hd c = ''RPUSH''" "c \<noteq> []" "dispatch env db c = rpush env db c"
  | (lpush) "hd c = ''LPUSH''" "c \<noteq> []" "dispatch env db c = lpush env db c"
  | (lrange) "hd c = ''LRANGE''" "c \<noteq> []" "dispatch env db c = lrange env db c"
  | (llen) "hd c = ''LLEN''" "c \<noteq> []" "dispatch env db c = llen env db c"
  | (lpop) "hd c = ''LPOP''" "c \<noteq> []" "dispatch env db c = lpop env db c"
  | (blpop) "hd c = ''BLPOP''" "c \<noteq> []" "dispatch env db c = blpop env db c"
  | (xadd) "hd c = ''XADD''" "c \<noteq> []" "dispatch env db c = xadd env db c"
  | (xrange) "hd c = ''XRANGE''" "c \<noteq> []" "dispatch env db c = xrange env db c"
  | (xread) "hd c = ''XREAD''" "c \<noteq> []" "dispatch env db c = xread env db c"
proof (cases "c = []")
  case True
  then show ?thesis by (rule empty) (simp add: True dispatch_def)
next
  case False
  note table = dispatch_table [OF False, of env db]
  show ?thesis
  proof (cases "hd c \<in> {''PING'', ''ECHO'', ''SET'', ''GET'', ''KEYS'', ''TYPE'', ''INCR'', ''RPUSH'', ''LPUSH'',
      ''LRANGE'', ''LLEN'', ''LPOP'', ''BLPOP'', ''XADD'', ''XRANGE'', ''XREAD''}")
    case True
    then show ?thesis
      by (elim insertE emptyE)
        (rule pure set get keys type incr rpush lpush lrange llen lpop blpop xadd xrange xread;
          simp add: False table)+
  next
    case N: False
    then have "dispatch env db c = Some (db, SimpleError ''ERR unknown command'')" by (simp add: table)
    moreover have "\<not> is_write_command c" using N by (simp add: is_write_command_iff)
    ultimately show ?thesis using N by (rule unknown [OF False])
  qed
qed

end
