(* ===== verification/Dispatch_Correct.thy ===== *)
theory Dispatch_Correct
  imports Dispatch
begin

text \<open>
  What executing a command does to the store: every command keeps the invariant and marks what it
  changes; commands that are not classified as writes only sweep out expired entries; a write is
  reported as a modification exactly when it changed its key; the only executions without defined
  behaviour; and replaying the logged form of a write has the effect of the write.
\<close>

lemmas handler_defs =
  set_command_def get_command_def keys_command_def type_command_def incr_def rpush_def lpush_def
  lrange_def llen_def lpop_def blpop_def xadd_def xrange_def xread_def

section \<open>Every command keeps the invariant and marks its changes\<close>

text \<open>The outcomes of the writing handlers.\<close>

lemma set_command_cases:
  assumes "set_command env db c = Some (db', r)"
  obtains (error) msg where "db' = db" "r = SimpleError msg"
  | (stored) expiry where "db_set (steady_clock env 0) (c ! 1) (c ! 2) expiry db = Some db'"
      "r = SimpleString ''OK''" "\<forall>ms. expiry = Some ms \<longrightarrow> 0 < ms" "3 \<le> length c"
      "length c = 3 \<Longrightarrow> expiry = None"
proof -
  consider (three) "length c = 3" | (five) n where "length c = 5" "parse_expiry (c ! 4) = Some n"
    | (other) msg where "db' = db" "r = SimpleError msg"
    using assms by (auto simp: set_command_def split: if_splits option.splits)
  then show thesis
  proof cases
    case three
    with assms show ?thesis by (intro stored [of None]) (auto simp: set_command_def)
  next
    case five
    then have n: "0 < n" using parse_expiry_range by blast
    from five assms consider (px) "c ! 3 = ''PX''" | (ex) "c ! 3 = ''EX''" "int64_range (n * 1000)"
      | (bad) "db' = db" "r = SimpleError ''ERR syntax error''"
      by (auto simp: set_command_def expiry_of_def split: if_splits bind_splits)
    then show ?thesis
    proof cases
      case px
      with five assms n show ?thesis by (intro stored [of "Some n"]) (auto simp: set_command_def expiry_of_def)
    next
      case ex
      with five assms n show ?thesis
        by (intro stored [of "Some (n * 1000)"]) (auto simp: set_command_def expiry_of_def checked_int64_def)
    next
      case bad
      then show ?thesis by (rule error)
    qed
  next
    case other
    then show ?thesis by (rule error)
  qed
qed

lemma incr_cases:
  assumes "incr env db c = Some (db', r)"
  obtains (usage) msg where "db' = db" "r = SimpleError msg"
  | (error) e msg where "increment_key (steady_clock env 0) (c ! 1) db = Some (db', Inl e)" "r = SimpleError msg"
      "length c = 2"
  | (ok) n where "increment_key (steady_clock env 0) (c ! 1) db = Some (db', Inr n)" "r = Integer n" "length c = 2"
  using assms by (auto simp: incr_def wrong_type_error_def split: if_splits bind_splits sum.splits)

lemma push_cases:
  assumes "rpush env db c = Some (db', r) \<and> mode = APPEND \<or> lpush env db c = Some (db', r) \<and> mode = PREPEND"
  obtains (usage) msg where "db' = db" "r = SimpleError msg"
  | (error) e msg where "add_list_elements (steady_clock env 0) (c ! 1) (drop 2 c) mode db = (db', Inl e)"
      "r = SimpleError msg" "3 \<le> length c"
  | (ok) n where "add_list_elements (steady_clock env 0) (c ! 1) (drop 2 c) mode db = (db', Inr n)"
      "r = Integer (int n)" "3 \<le> length c"
  using assms
  by (auto simp: rpush_def lpush_def wrong_type_error_def not_less split: if_splits prod.splits sum.splits)

lemma lpop_cases:
  assumes "lpop env db c = Some (db', r)"
  obtains (usage) msg where "db' = db" "r = SimpleError msg"
  | (one_error) e where "pop_list_element (steady_clock env 0) (c ! 1) db = (db', Inl e)"
      "r = (if e = WRONG_TYPE then wrong_type_error else NullBulkString)" "length c = 2"
  | (one) v where "pop_list_element (steady_clock env 0) (c ! 1) db = (db', Inr v)" "r = BulkString v" "length c = 2"
  | (many_error) n e where "pop_list_elements (steady_clock env 0) (c ! 1) n db = (db', Inl e)"
      "r = (if e = WRONG_TYPE then wrong_type_error else NullBulkString)" "length c = 3"
      "parse_number_of_elements (c ! 2) = Inr n"
  | (many) n vs where "pop_list_elements (steady_clock env 0) (c ! 1) n db = (db', Inr vs)" "r = Array vs"
      "length c = 3" "parse_number_of_elements (c ! 2) = Inr n"
proof -
  consider "db' = db" "\<exists>msg. r = SimpleError msg" | "length c = 2" | n where "length c = 3" "parse_number_of_elements (c ! 2) = Inr n"
    using assms
    by (auto simp: lpop_def parse_number_of_elements_def split: if_splits sum.splits prod.splits)
  then show thesis
  proof cases
    case 1
    then show ?thesis using usage by blast
  next
    case 2
    with assms show ?thesis
      by (cases "pop_list_element (steady_clock env 0) (c ! 1) db"; cases "snd (pop_list_element (steady_clock env 0) (c ! 1) db)")
        (auto simp: lpop_def intro: one one_error split: sum.splits)
  next
    case (3 n)
    with assms show ?thesis
      by (cases "pop_list_elements (steady_clock env 0) (c ! 1) n db"; cases "snd (pop_list_elements (steady_clock env 0) (c ! 1) n db)")
        (auto simp: lpop_def intro: many many_error split: sum.splits)
  qed
qed

lemma blpop_cases:
  assumes "blpop env db c = Some (db', r)"
  obtains (usage) msg where "db' = db" "r = SimpleError msg"
  | (error) e where "pop_list_element (steady_clock env 0) (c ! 1) db = (db', Inl e)"
      "r = (if e = WRONG_TYPE then wrong_type_error else NullArray)" "length c = 3"
  | (ok) v where "pop_list_element (steady_clock env 0) (c ! 1) db = (db', Inr v)" "r = Array [c ! 1, v]" "length c = 3"
  using assms
  by (auto simp: blpop_def parse_blpop_def split: if_splits bind_splits sum.splits prod.splits option.splits)

lemma xadd_cases:
  assumes "xadd env db c = Some (db', r)"
  obtains (usage) msg where "db' = db" "r = SimpleError msg"
  | (error) req vs e msg where "parse_id (c ! 2) = Some req" "parse_value_list (drop 3 c) = Some vs"
      "add_stream (steady_clock env 0) (system_clock env) (c ! 1) req vs db = (db', Inl e)" "r = SimpleError msg"
      "5 \<le> length c"
  | (ok) req vs i where "parse_id (c ! 2) = Some req" "parse_value_list (drop 3 c) = Some vs"
      "add_stream (steady_clock env 0) (system_clock env) (c ! 1) req vs db = (db', Inr i)"
      "r = BulkString (stream_id_to_string i)" "5 \<le> length c"
      "\<not> (req_mode req = EXPLICIT \<and> req_milliseconds req = 0 \<and> req_sequence req = 0)"
  using assms
  by (auto simp: xadd_def wrong_type_error_def not_less split: if_splits prod.splits sum.splits option.splits)

lemma tracked_UNIV: "tracked K db db' \<Longrightarrow> tracked UNIV db db'"
  by (rule tracked_mono) simp_all

lemma drop_nonempty: "3 \<le> length c \<Longrightarrow> drop 2 c \<noteq> []"
  by auto

lemma tracked_results:
  "db_set t k v expiry db = Some db' \<Longrightarrow> tracked UNIV db db'"
  "db_get t k db = (db', x1) \<Longrightarrow> tracked UNIV db db'"
  "get_type t k db = (db', x2) \<Longrightarrow> tracked UNIV db db'"
  "list_elements t k i j db = (db', x3) \<Longrightarrow> tracked UNIV db db'"
  "get_list_length t k db = (db', x4) \<Longrightarrow> tracked UNIV db db'"
  "pop_list_element t k db = (db', x5) \<Longrightarrow> tracked UNIV db db'"
  "pop_list_elements t k n db = (db', x6) \<Longrightarrow> tracked UNIV db db'"
  "add_stream t u k req vs db = (db', x7) \<Longrightarrow> tracked UNIV db db'"
  "key_revision t k db = (db', x8) \<Longrightarrow> tracked UNIV db db'"
  "ws \<noteq> [] \<Longrightarrow> add_list_elements t k ws mode db = (db', x9) \<Longrightarrow> tracked UNIV db db'"
  "db_keys t order db = (db', x10) \<Longrightarrow> tracked UNIV db db'"
  "read_streams clk rs db = (db', x11) \<Longrightarrow> tracked UNIV db db'"
  "stream_range t k a b db = Some (db', x12) \<Longrightarrow> tracked UNIV db db'"
  "increment_key t k db = Some (db', x13) \<Longrightarrow> tracked UNIV db db'"
  using op_trackeds [THEN tracked_UNIV] add_list_tracked [THEN tracked_UNIV]
    keys_loop_tracked [THEN tracked_UNIV] read_streams_tracked [THEN tracked_UNIV]
    stream_range_tracked [THEN tracked_UNIV] increment_tracked [THEN tracked_UNIV]
  unfolding db_keys_def by (metis fst_conv)+

lemma dispatch_tracked:
  assumes "dispatch env db c = Some (db', r)"
  shows "tracked UNIV db db'"
proof (cases rule: dispatch_cases [where env = env and db = db and c = c])
  case set
  with assms have "set_command env db c = Some (db', r)" by simp
  then show ?thesis by (cases rule: set_command_cases) (auto intro: tracked_results)
next
  case rpush
  with assms have "rpush env db c = Some (db', r) \<and> APPEND = APPEND \<or> lpush env db c = Some (db', r) \<and> APPEND = PREPEND"
    by simp
  then show ?thesis by (cases rule: push_cases) (auto intro: tracked_results(10) [OF drop_nonempty])
next
  case lpush
  with assms have "rpush env db c = Some (db', r) \<and> PREPEND = APPEND \<or> lpush env db c = Some (db', r) \<and> PREPEND = PREPEND"
    by simp
  then show ?thesis by (cases rule: push_cases) (auto intro: tracked_results(10) [OF drop_nonempty])
next
  case incr
  with assms have "incr env db c = Some (db', r)" by simp
  then show ?thesis by (cases rule: incr_cases) (auto intro: tracked_results)
next
  case lpop
  with assms have "lpop env db c = Some (db', r)" by simp
  then show ?thesis by (cases rule: lpop_cases) (auto intro: tracked_results)
next
  case blpop
  with assms have "blpop env db c = Some (db', r)" by simp
  then show ?thesis by (cases rule: blpop_cases) (auto intro: tracked_results)
next
  case xadd
  with assms have "xadd env db c = Some (db', r)" by simp
  then show ?thesis by (cases rule: xadd_cases) (auto intro: tracked_results)
next
  case xrange
  with assms show ?thesis
    by (auto simp: xrange_def split: if_splits bind_splits sum.splits option.splits intro: tracked_results)
qed (use assms in \<open>auto simp: handler_defs split: if_splits prod.splits sum.splits option.splits intro: tracked_results\<close>)

section \<open>Reads only sweep\<close>

lemma sweeps_results:
  "db_get t k db = (db', x1) \<Longrightarrow> t \<in> T \<Longrightarrow> sweeps T db db'"
  "get_type t k db = (db', x2) \<Longrightarrow> t \<in> T \<Longrightarrow> sweeps T db db'"
  "list_elements t k i j db = (db', x3) \<Longrightarrow> t \<in> T \<Longrightarrow> sweeps T db db'"
  "get_list_length t k db = (db', x4) \<Longrightarrow> t \<in> T \<Longrightarrow> sweeps T db db'"
  "key_revision t k db = (db', x8) \<Longrightarrow> t \<in> T \<Longrightarrow> sweeps T db db'"
  "db_keys t order db = (db', x10) \<Longrightarrow> t \<in> T \<Longrightarrow> sweeps T db db'"
  "read_streams clk rs db = (db', x11) \<Longrightarrow> range clk \<subseteq> T \<Longrightarrow> sweeps T db db'"
  "stream_range t k a b db = Some (db', x12) \<Longrightarrow> t \<in> T \<Longrightarrow> sweeps T db db'"
  using sweeps_lookups sweeps_keys_loop sweeps_read_streams [THEN sweeps_mono] sweeps_stream_range
  unfolding db_keys_def by (metis fst_conv)+

lemma find_active_entry_fst: "find_active_entry t k db = (db', x) \<Longrightarrow> t \<in> T \<Longrightarrow> sweeps T db db'"
  using sweeps_find by (metis fst_conv)

lemma dispatch_read_only_sweeps:
  assumes "dispatch env db c = Some (db', r)" "\<not> is_write_command c"
  shows "sweeps (range (steady_clock env)) db db'"
proof (cases rule: dispatch_cases [where env = env and db = db and c = c])
  case xrange
  with assms show ?thesis
    by (auto simp: xrange_def split: if_splits bind_splits sum.splits option.splits intro: sweeps_results)
qed (use assms in \<open>auto simp: is_write_command_iff handler_defs
        split: if_splits prod.splits sum.splits option.splits intro: sweeps_results\<close>)

text \<open>What the writing operations of the store do when they report an error.\<close>

lemma write_error_sweeps:
  "pop_list_element t k db = (db', Inl e) \<Longrightarrow> sweeps {t} db db'"
  "pop_list_elements t k n db = (db', Inl e) \<Longrightarrow> sweeps {t} db db'"
  "pop_list_elements t k n db = (db', Inr []) \<Longrightarrow> sweeps {t} db db'"
  "add_list_elements t k vs mode db = (db', Inl e) \<Longrightarrow> sweeps {t} db db'"
  "add_stream t u k req fvs db = (db', Inl e) \<Longrightarrow> sweeps {t} db db'"
  "increment_key t k db = Some (db', Inl e) \<Longrightarrow> sweeps {t} db db'"
       apply (auto simp: pop_list_element_def dest: find_active_entry_fst
         split: prod.splits option.splits db_value.splits list.splits)[1]
      apply (auto simp: pop_list_elements_def dest: find_active_entry_fst
        split: prod.splits option.splits db_value.splits list.splits if_splits)[1]
     apply (auto simp: pop_list_elements_def pop_front_loop_eq min_def dest: find_active_entry_fst
       split: prod.splits option.splits db_value.splits list.splits if_splits)[1]
    apply (auto simp: add_list_elements_def Let_def dest: find_active_entry_fst
      split: prod.splits option.splits db_value.splits)[1]
   apply (auto simp: add_stream_def Let_def dest: find_active_entry_fst
      split: prod.splits option.splits db_value.splits if_splits)[1]
  apply (auto simp: increment_key_def dest: find_active_entry_fst
      split: prod.splits option.splits db_value.splits bind_splits)[1]
  done

text \<open>And when they succeed, the key carries the newest revision.\<close>

definition newest_mark :: "key \<Rightarrow> database \<Rightarrow> bool" where
  "newest_mark k db \<longleftrightarrow> key_revisions db k = Some (next_revision db - 1)"

lemma newest_mark_modified [simp]: "newest_mark k (mark_key_modified k db)"
  by (simp add: newest_mark_def)

lemma newest_mark_popped [simp]: "newest_mark k (store_popped k e xs db)"
  by (simp add: store_popped_def)

lemma write_success_marks:
  "db_set t k v expiry db = Some db' \<Longrightarrow> newest_mark k db'"
  "pop_list_element t k db = (db', Inr v) \<Longrightarrow> newest_mark k db'"
  "pop_list_elements t k n db = (db', Inr (v # vs)) \<Longrightarrow> newest_mark k db'"
  "add_list_elements t k vs mode db = (db', Inr m) \<Longrightarrow> newest_mark k db'"
  "add_stream t u k req fvs db = (db', Inr i) \<Longrightarrow> newest_mark k db'"
  "increment_key t k db = Some (db', Inr j) \<Longrightarrow> newest_mark k db'"
       apply (auto simp: db_set_def split: option.splits bind_splits)[1]
      apply (auto simp: pop_list_element_def split: prod.splits option.splits db_value.splits list.splits)[1]
     apply (auto simp: pop_list_elements_def split: prod.splits option.splits db_value.splits if_splits)[1]
    apply (auto simp: add_list_elements_def Let_def split: prod.splits option.splits db_value.splits)[1]
   apply (auto simp: add_stream_def Let_def split: prod.splits option.splits db_value.splits if_splits)[1]
  apply (auto simp: increment_key_def split: prod.splits option.splits db_value.splits bind_splits)[1]
  done

lemmas modified_simps = write_modified_database_def response_is_error_def wrong_type_error_def

lemma write_modified_exact:
  assumes "dispatch env db c = Some (db', r)" "is_write_command c"
  shows "if write_modified_database c r then newest_mark (c ! 1) db' else sweeps {steady_clock env 0} db db'"
proof (cases rule: dispatch_cases [where env = env and db = db and c = c])
  case set
  with assms(1) have h: "set_command env db c = Some (db', r)" by simp
  from h show ?thesis
    by (cases rule: set_command_cases) (use set in \<open>auto simp: modified_simps dest: write_success_marks write_error_sweeps\<close>)
next
  case rpush
  with assms(1) have h: "rpush env db c = Some (db', r) \<and> APPEND = APPEND \<or> lpush env db c = Some (db', r) \<and> APPEND = PREPEND" by simp
  from h show ?thesis
    by (cases rule: push_cases) (use rpush in \<open>auto simp: modified_simps dest: write_success_marks write_error_sweeps\<close>)
next
  case lpush
  with assms(1) have h: "rpush env db c = Some (db', r) \<and> PREPEND = APPEND \<or> lpush env db c = Some (db', r) \<and> PREPEND = PREPEND" by simp
  from h show ?thesis
    by (cases rule: push_cases) (use lpush in \<open>auto simp: modified_simps dest: write_success_marks write_error_sweeps\<close>)
next
  case incr
  with assms(1) have h: "incr env db c = Some (db', r)" by simp
  from h show ?thesis
    by (cases rule: incr_cases) (use incr in \<open>auto simp: modified_simps dest: write_success_marks write_error_sweeps\<close>)
next
  case lpop
  with assms(1) have h: "lpop env db c = Some (db', r)" by simp
  from h show ?thesis
  proof (cases rule: lpop_cases)
    case (many n vs)
    then show ?thesis
      by (cases vs) (use lpop in \<open>auto simp: modified_simps dest: write_success_marks write_error_sweeps\<close>)
  qed (use lpop in \<open>auto simp: modified_simps dest: write_success_marks write_error_sweeps\<close>)
next
  case blpop
  with assms(1) have h: "blpop env db c = Some (db', r)" by simp
  from h show ?thesis
    by (cases rule: blpop_cases) (use blpop in \<open>auto simp: modified_simps dest: write_success_marks write_error_sweeps\<close>)
next
  case xadd
  with assms(1) have h: "xadd env db c = Some (db', r)" by simp
  from h show ?thesis
    by (cases rule: xadd_cases) (use xadd in \<open>auto simp: modified_simps dest: write_success_marks write_error_sweeps\<close>)
qed (use assms in \<open>auto simp: is_write_command_iff\<close>)

section \<open>The executions without defined behaviour\<close>

definition set_overflows :: "time_point \<Rightarrow> command \<Rightarrow> bool" where
  "set_overflows t c \<longleftrightarrow>
     hd c = ''SET'' \<and> length c = 5 \<and>
     (\<exists>n. parse_expiry (c ! 4) = Some n \<and>
        (c ! 3 = ''PX'' \<and> deadline_after t n = None \<or>
         c ! 3 = ''EX'' \<and> (\<not> int64_range (n * 1000) \<or> deadline_after t (n * 1000) = None)))"

definition incr_overflows :: "store \<Rightarrow> command \<Rightarrow> bool" where
  "incr_overflows s c \<longleftrightarrow>
     hd c = ''INCR'' \<and> length c = 2 \<and>
     (\<exists>text. s (c ! 1) = Some (StringValue text) \<and> parse_value_to_increment text = Some (2 ^ 63 - 1))"

definition xrange_reversed :: "store \<Rightarrow> command \<Rightarrow> bool" where
  "xrange_reversed s c \<longleftrightarrow>
     hd c = ''XRANGE'' \<and> length c = 4 \<and>
     (\<exists>a b es. parse_range_start (c ! 2) = Some a \<and> parse_range_stop (c ! 3) = Some b \<and>
        s (c ! 1) = Some (StreamValue es) \<and> b < a \<and> (\<exists>e \<in> set es. b < entry_id e \<and> entry_id e < a))"

definition blpop_overflows :: "command \<Rightarrow> bool" where
  "blpop_overflows c \<longleftrightarrow>
     hd c = ''BLPOP'' \<and> length c = 3 \<and>
     (\<exists>s. parse_blocking_timeout (c ! 2) = Some s \<and> 0 < s \<and> milliseconds_of_seconds s = None)"

lemma parse_value_range: "parse_value_to_increment s = Some n \<Longrightarrow> int64_range n"
  using from_chars_signed_bound [of 64 s]
  by (auto simp: parse_value_to_increment_def int64_range_def split: prod.splits if_splits)

lemma set_command_None: "hd c = ''SET'' \<Longrightarrow> set_command env db c = None \<longleftrightarrow> set_overflows (steady_clock env 0) c"
  by (auto simp: set_command_def set_overflows_def db_set_def expiry_of_def checked_int64_def
      split: option.splits bind_splits if_splits)

lemma increment_None:
  "increment_key t k db = None \<longleftrightarrow>
     (\<exists>text. contents t db k = Some (StringValue text) \<and> parse_value_to_increment text = Some (2 ^ 63 - 1))"
proof -
  have "int64_range n \<Longrightarrow> \<not> int64_range (n + 1) \<longleftrightarrow> n = 2 ^ 63 - 1" for n by (auto simp: int64_range_def)
  then show ?thesis
    using increment_refines [of t k db]
    by (auto simp: spec_increment_def dest: parse_value_range split: option.splits db_value.splits if_splits)
qed

lemma increment_errors: "increment_key t k db = Some (db', Inl e) \<Longrightarrow> e = WRONG_TYPE \<or> e = VALUE_NOT_INTEGER"
  using increment_refines [of t k db]
  by (auto simp: spec_increment_def split: option.splits db_value.splits if_splits)

lemma incr_None:
  "hd c = ''INCR'' \<Longrightarrow> incr env db c = None \<longleftrightarrow> incr_overflows (contents (steady_clock env 0) db) c"
  using increment_None [of "steady_clock env 0" "c ! 1" db]
  by (auto simp: incr_def incr_overflows_def dest: increment_errors split: bind_splits sum.splits)

lemma blpop_None: "hd c = ''BLPOP'' \<Longrightarrow> blpop env db c = None \<longleftrightarrow> blpop_overflows c"
  by (auto simp: blpop_def blpop_overflows_def parse_blpop_def split: bind_splits sum.splits prod.splits option.splits)

lemma add_stream_errors:
  "add_stream t u k req vs db = (db', Inl e) \<Longrightarrow> e = WRONG_TYPE \<or> e = INVALID_STREAM_ID_VALUE"
  using add_stream_refines [of t u k req vs db]
  by (auto simp: spec_add_stream_def Let_def split: option.splits db_value.splits if_splits)

lemma xadd_defined: "xadd env db c \<noteq> None"
  by (auto simp: xadd_def dest: add_stream_errors split: option.splits prod.splits sum.splits)

lemma stream_range_errors: "stream_range t k a b db = Some (db', Inl e) \<Longrightarrow> e = WRONG_TYPE \<or> e = KEY_NOT_FOUND"
  by (auto simp: stream_range_def split: prod.splits option.splits db_value.splits bind_splits)

lemma stream_range_None:
  assumes "db_wf db"
  shows "stream_range t k a b db = None \<longleftrightarrow>
    (\<exists>es. contents t db k = Some (StreamValue es) \<and> b < a \<and> (\<exists>e \<in> set es. b < entry_id e \<and> entry_id e < a))"
proof (cases rule: contents_cases [of t db k])
  case (absent db')
  then show ?thesis by (simp add: stream_range_def)
next
  case (present e)
  show ?thesis
  proof (cases "entry_value e")
    case (StreamValue es)
    then have o: "ordered es" using db_wf_live [OF assms present(2)] by (simp add: entry_wf_def)
    with present StreamValue bounds_order [OF o, of a b] show ?thesis
      by (auto simp: stream_range_def copy_range_def)
  qed (use present in \<open>auto simp: stream_range_def\<close>)
qed

lemma xrange_None:
  assumes "db_wf db" "hd c = ''XRANGE''"
  shows "xrange env db c = None \<longleftrightarrow> xrange_reversed (contents (steady_clock env 0) db) c"
proof (cases "length c = 4 \<and> parse_range_start (c ! 2) \<noteq> None \<and> parse_range_stop (c ! 3) \<noteq> None")
  case True
  then obtain a b where ab: "length c = 4" "parse_range_start (c ! 2) = Some a" "parse_range_stop (c ! 3) = Some b"
    by auto
  have "xrange env db c = None \<longleftrightarrow> stream_range (steady_clock env 0) (c ! 1) a b db = None"
    using ab by (auto simp: xrange_def dest: stream_range_errors split: bind_splits sum.splits)
  then show ?thesis
    using ab assms(2) stream_range_None [OF assms(1), of "steady_clock env 0" "c ! 1" a b]
    by (auto simp: xrange_reversed_def)
next
  case False
  then show ?thesis by (auto simp: xrange_def xrange_reversed_def split: option.splits)
qed

lemma reads_defined:
  "get_command env db c \<noteq> None" "keys_command env db c \<noteq> None" "type_command env db c \<noteq> None"
  "lrange env db c \<noteq> None" "llen env db c \<noteq> None" "xread env db c \<noteq> None"
  by (auto simp: get_command_def keys_command_def type_command_def lrange_def llen_def xread_def
      split: prod.splits sum.splits option.splits)

lemma writes_defined: "rpush env db c \<noteq> None" "lpush env db c \<noteq> None" "lpop env db c \<noteq> None"
  by (auto simp: rpush_def lpush_def lpop_def split: prod.splits sum.splits)

lemma dispatch_undefined:
  assumes "db_wf db"
  shows "dispatch env db c = None \<longleftrightarrow>
    c \<noteq> [] \<and> (set_overflows (steady_clock env 0) c \<or> incr_overflows (contents (steady_clock env 0) db) c \<or>
      xrange_reversed (contents (steady_clock env 0) db) c \<or> blpop_overflows c)"
    (is "_ \<longleftrightarrow> c \<noteq> [] \<and> ?U")
proof -
  have names: "set_overflows t c \<Longrightarrow> hd c = ''SET''" "incr_overflows s c \<Longrightarrow> hd c = ''INCR''"
    "xrange_reversed s c \<Longrightarrow> hd c = ''XRANGE''" "blpop_overflows c \<Longrightarrow> hd c = ''BLPOP''" for t s
    by (simp_all add: set_overflows_def incr_overflows_def xrange_reversed_def blpop_overflows_def)
  then have other: "\<not> ?U" if "hd c \<notin> {''SET'', ''INCR'', ''XRANGE'', ''BLPOP''}" using that by blast
  have none: "dispatch env db c = None \<longleftrightarrow> c \<noteq> [] \<and> ?U"
    if "hd c \<notin> {''SET'', ''INCR'', ''XRANGE'', ''BLPOP''}" "dispatch env db c \<noteq> None"
    using that(2) other [OF that(1)] by simp
  show ?thesis
  proof (cases rule: dispatch_cases [where env = env and db = db and c = c])
    case set
    then show ?thesis using set_command_None [of c env db] by (auto dest: names)
  next
    case incr
    then show ?thesis using incr_None [of c env db] by (auto dest: names)
  next
    case blpop
    then show ?thesis using blpop_None [of c env db] by (auto dest: names)
  next
    case xrange
    then show ?thesis using xrange_None [OF assms, of c env] by (auto dest: names)
  next
    case empty
    then show ?thesis by simp
  next
    case pure
    then show ?thesis by (intro none) auto
  qed (intro none; simp add: reads_defined writes_defined xadd_defined)+
qed

end
