(* ===== verification/Replay.thy ===== *)
theory Replay
  imports Dispatch_Correct
begin

text \<open>
  What the log and the replicas rely on: executing the logged form of a write on a store with the same
  contents succeeds and gives the same contents again, although the clocks of the two executions
  differ, although a generated stream ID depends on the clock, and although a blocking pop is logged
  as a plain one.
\<close>

lemma pair_eqD: "(contents t (fst x), snd x) = y \<Longrightarrow> x = (d, r) \<Longrightarrow> y = (contents t d, r)"
  by auto

lemma set_command_response:
  "set_command env1 db1 c = Some (d1, r1) \<Longrightarrow> set_command env2 db2 c = Some (d2, r2) \<Longrightarrow> r1 = r2"
  by (auto simp: set_command_def split: if_splits option.splits bind_splits sum.splits)

lemma spec_add_stream_explicit:
  assumes "spec_add_stream u k req vs s = (s', Inr i)"
  shows "spec_add_stream u2 k \<lparr>req_mode = EXPLICIT, req_milliseconds = milliseconds i, req_sequence = sequence i\<rparr> vs s =
    (s', Inr i)"
  using assms
  by (auto simp: spec_add_stream_def Let_def new_stream_id_def [of u2] split: db_value.splits if_splits)

text \<open>A generated ID is \<open>0-0\<close> only if the clock stands at the epoch.\<close>

lemma new_id_nonzero:
  assumes "spec_add_stream u k req vs s = (s', Inr i)" "word_of_int u \<noteq> (0 :: u64)"
    "\<not> (req_mode req = EXPLICIT \<and> req_milliseconds req = 0 \<and> req_sequence req = 0)"
  shows "\<not> (milliseconds i = 0 \<and> sequence i = 0)"
proof -
  obtain es where i: "i = new_stream_id u req (es \<noteq> []) (newest_id es)"
    and fresh: "es = [] \<or> newest_id es < new_stream_id u req (es \<noteq> []) (newest_id es)"
    using assms(1) by (auto simp: spec_add_stream_def Let_def not_le split: db_value.splits if_splits)
  have low: "\<not> j < StreamId 0 0" for j by (simp add: less_stream_id_def)
  show ?thesis
  proof
    assume z: "milliseconds i = 0 \<and> sequence i = 0"
    then have "i = StreamId 0 0" by (cases i) simp
    with fresh low i have es: "es = []" by metis
    with z i assms(2,3) show False by (cases "req_mode req") (auto simp: new_stream_id_def Let_def)
  qed
qed

lemma xadd_normalized:
  assumes "xadd env1 db1 c = Some (db1', BulkString (stream_id_to_string i))" "hd c = ''XADD''"
    "contents (steady_clock env1 0) db1 = contents (steady_clock env2 0) db2"
    "word_of_int (system_clock env1) \<noteq> (0 :: u64)"
    "parse_id (c ! 2) = Some req" "parse_value_list (drop 3 c) = Some vs" "5 \<le> length c"
    "add_stream (steady_clock env1 0) (system_clock env1) (c ! 1) req vs db1 = (db1', Inr i)"
    "\<not> (req_mode req = EXPLICIT \<and> req_milliseconds req = 0 \<and> req_sequence req = 0)"
  shows "\<exists>db2'. xadd env2 db2 (c[2 := stream_id_to_string i]) = Some (db2', BulkString (stream_id_to_string i)) \<and>
    contents (steady_clock env1 0) db1' = contents (steady_clock env2 0) db2'"
proof -
  let ?req = "\<lparr>req_mode = EXPLICIT, req_milliseconds = milliseconds i, req_sequence = sequence i\<rparr>"
  let ?t1 = "steady_clock env1 0" and ?t2 = "steady_clock env2 0"
  have s1: "spec_add_stream (system_clock env1) (c ! 1) req vs (contents ?t1 db1) = (contents ?t1 db1', Inr i)"
    by (rule pair_eqD [OF add_stream_refines assms(8)])
  have nz: "\<not> (milliseconds i = 0 \<and> sequence i = 0)" by (rule new_id_nonzero [OF s1 assms(4,9)])
  obtain db2' x where a2: "add_stream ?t2 (system_clock env2) (c ! 1) ?req vs db2 = (db2', x)" by fastforce
  have "spec_add_stream (system_clock env2) (c ! 1) ?req vs (contents ?t2 db2) = (contents ?t2 db2', x)"
    by (rule pair_eqD [OF add_stream_refines a2])
  then have x: "x = Inr i" "contents ?t2 db2' = contents ?t1 db1'"
    using spec_add_stream_explicit [OF s1, of "system_clock env2"] assms(3) by auto
  have "xadd env2 db2 (c[2 := stream_id_to_string i]) = Some (db2', BulkString (stream_id_to_string i))"
    using assms(6,7) a2 x(1) nz by (auto simp: xadd_def parse_id_text)
  with x(2) show ?thesis by simp
qed

lemma normalize_plain:
  "hd c \<noteq> ''XADD'' \<Longrightarrow> hd c \<noteq> ''BLPOP'' \<Longrightarrow> normalize_replication_command c r = c"
  by (simp add: normalize_replication_command_def)

lemma dispatch_pushes:
  "c \<noteq> [] \<Longrightarrow> hd c = ''RPUSH'' \<Longrightarrow> dispatch env db c = rpush env db c"
  "c \<noteq> [] \<Longrightarrow> hd c = ''LPUSH'' \<Longrightarrow> dispatch env db c = lpush env db c"
  by (simp_all add: dispatch_table)

text \<open>The five kinds of writes, each on two stores with the same contents.\<close>

lemma set_replay:
  assumes "set_command env1 db1 c = Some (db1', r)" "\<not> response_is_error r"
    "contents (steady_clock env1 0) db1 = contents (steady_clock env2 0) db2"
    "set_command env2 db2 c = Some (db2', r2)"
  shows "r2 = r \<and> contents (steady_clock env1 0) db1' = contents (steady_clock env2 0) db2'"
proof -
  have r: "r2 = r" using set_command_response [OF assms(1,4)] by simp
  from assms(1) have "contents (steady_clock env1 0) db1' = (contents (steady_clock env1 0) db1)(c ! 1 \<mapsto> StringValue (c ! 2))"
    by (cases rule: set_command_cases) (use assms(2) in \<open>auto simp: response_is_error_def dest: set_refines\<close>)
  moreover from assms(4)
  have "contents (steady_clock env2 0) db2' = (contents (steady_clock env2 0) db2)(c ! 1 \<mapsto> StringValue (c ! 2))"
    by (cases rule: set_command_cases) (use assms(2) r in \<open>auto simp: response_is_error_def dest: set_refines\<close>)
  ultimately show ?thesis using r assms(3) by simp
qed

lemma incr_replay:
  assumes "incr env1 db1 c = Some (db1', r)" "\<not> response_is_error r"
    "contents (steady_clock env1 0) db1 = contents (steady_clock env2 0) db2"
  shows "\<exists>db2'. incr env2 db2 c = Some (db2', r) \<and> contents (steady_clock env1 0) db1' = contents (steady_clock env2 0) db2'"
  using assms(1)
proof (cases rule: incr_cases)
  case (ok n)
  have "spec_increment (c ! 1) (contents (steady_clock env2 0) db2) = Some (contents (steady_clock env1 0) db1', Inr n)"
    using increment_refines [of "steady_clock env1 0" "c ! 1" db1] ok(1) assms(3) by simp
  then obtain db2' where "increment_key (steady_clock env2 0) (c ! 1) db2 = Some (db2', Inr n)"
    "contents (steady_clock env2 0) db2' = contents (steady_clock env1 0) db1'"
    using increment_refines [of "steady_clock env2 0" "c ! 1" db2] by auto
  with ok show ?thesis by (simp add: incr_def)
qed (use assms(2) in \<open>auto simp: response_is_error_def\<close>)

lemma push_replay:
  assumes "rpush env1 db1 c = Some (db1', r) \<and> mode = APPEND \<or> lpush env1 db1 c = Some (db1', r) \<and> mode = PREPEND"
    "\<not> response_is_error r" "contents (steady_clock env1 0) db1 = contents (steady_clock env2 0) db2"
  shows "\<exists>db2'. (mode = APPEND \<longrightarrow> rpush env2 db2 c = Some (db2', r)) \<and> (mode = PREPEND \<longrightarrow> lpush env2 db2 c = Some (db2', r)) \<and>
    contents (steady_clock env1 0) db1' = contents (steady_clock env2 0) db2'"
  using assms(1)
proof (cases rule: push_cases)
  case (ok n)
  obtain db2' x where a2: "add_list_elements (steady_clock env2 0) (c ! 1) (drop 2 c) mode db2 = (db2', x)" by fastforce
  have "(contents (steady_clock env2 0) db2', x) = (contents (steady_clock env1 0) db1', Inr n)"
    using pair_eqD [OF push_refines ok(1)] pair_eqD [OF push_refines a2] assms(3) by simp
  with a2 ok show ?thesis by (auto simp: rpush_def lpush_def)
qed (use assms(2) in \<open>auto simp: response_is_error_def\<close>)

lemma pop_replay:
  assumes "pop_list_element (steady_clock env1 0) k db1 = (db1', x)"
    "contents (steady_clock env1 0) db1 = contents (steady_clock env2 0) db2"
  shows "\<exists>db2'. pop_list_element (steady_clock env2 0) k db2 = (db2', x) \<and>
    contents (steady_clock env1 0) db1' = contents (steady_clock env2 0) db2'"
proof -
  obtain db2' y where a2: "pop_list_element (steady_clock env2 0) k db2 = (db2', y)" by fastforce
  then show ?thesis using pair_eqD [OF pop_refines assms(1)] pair_eqD [OF pop_refines a2] assms(2) by simp
qed

lemma pops_replay:
  assumes "pop_list_elements (steady_clock env1 0) k n db1 = (db1', x)"
    "contents (steady_clock env1 0) db1 = contents (steady_clock env2 0) db2"
  shows "\<exists>db2'. pop_list_elements (steady_clock env2 0) k n db2 = (db2', x) \<and>
    contents (steady_clock env1 0) db1' = contents (steady_clock env2 0) db2'"
proof -
  obtain db2' y where a2: "pop_list_elements (steady_clock env2 0) k n db2 = (db2', y)" by fastforce
  then show ?thesis using pair_eqD [OF pops_refines assms(1)] pair_eqD [OF pops_refines a2] assms(2) by simp
qed

lemma lpop_replay:
  assumes "lpop env1 db1 c = Some (db1', r)" "\<not> response_is_error r"
    "contents (steady_clock env1 0) db1 = contents (steady_clock env2 0) db2"
  shows "\<exists>db2'. lpop env2 db2 c = Some (db2', r) \<and> contents (steady_clock env1 0) db1' = contents (steady_clock env2 0) db2'"
  using assms(1)
proof (cases rule: lpop_cases)
  case (one_error e)
  with pop_replay [OF one_error(1) assms(3)] show ?thesis by (auto simp: lpop_def)
next
  case (one v)
  with pop_replay [OF one(1) assms(3)] show ?thesis by (auto simp: lpop_def)
next
  case (many_error n e)
  with pops_replay [OF many_error(1) assms(3)] show ?thesis by (auto simp: lpop_def)
next
  case (many n vs)
  with pops_replay [OF many(1) assms(3)] show ?thesis by (auto simp: lpop_def)
qed (use assms(2) in \<open>auto simp: response_is_error_def\<close>)

lemma replay_step:
  assumes "dispatch env1 db1 c = Some (db1', r)" "is_write_command c" "write_modified_database c r"
    "contents (steady_clock env1 0) db1 = contents (steady_clock env2 0) db2"
    "word_of_int (system_clock env1) \<noteq> (0 :: u64)"
    "\<not> set_overflows (steady_clock env2 0) c"
  shows "\<exists>db2' r2. dispatch env2 db2 (normalize_replication_command c r) = Some (db2', r2) \<and>
    \<not> response_is_error r2 \<and> contents (steady_clock env1 0) db1' = contents (steady_clock env2 0) db2'"
proof -
  have ok: "\<not> response_is_error r" using assms(3) by (auto simp: write_modified_database_def)
  show ?thesis
  proof (cases rule: dispatch_cases [where env = env1 and db = db1 and c = c])
    case set
    have h: "set_command env1 db1 c = Some (db1', r)" using set assms(1) by simp
    obtain db2' r2 where s2: "set_command env2 db2 c = Some (db2', r2)"
      using set_command_None [of c env2 db2] set assms(6) by fastforce
    from set_replay [OF h ok assms(4) s2] s2 ok set show ?thesis
      by (auto simp: normalize_plain dispatch_table)
  next
    case incr
    have h: "incr env1 db1 c = Some (db1', r)" using incr assms(1) by simp
    from incr_replay [OF h ok assms(4)] ok incr show ?thesis
      by (auto simp: normalize_plain dispatch_table)
  next
    case rpush
    have h: "rpush env1 db1 c = Some (db1', r) \<and> APPEND = APPEND \<or> lpush env1 db1 c = Some (db1', r) \<and> APPEND = PREPEND"
      using rpush assms(1) by simp
    from push_replay [OF h ok assms(4)] ok rpush show ?thesis by (auto simp: normalize_plain dispatch_pushes)
  next
    case lpush
    have h: "rpush env1 db1 c = Some (db1', r) \<and> PREPEND = APPEND \<or> lpush env1 db1 c = Some (db1', r) \<and> PREPEND = PREPEND"
      using lpush assms(1) by simp
    from push_replay [OF h ok assms(4)] ok lpush show ?thesis by (auto simp: normalize_plain dispatch_pushes)
  next
    case lpop
    have h: "lpop env1 db1 c = Some (db1', r)" using lpop assms(1) by simp
    from lpop_replay [OF h ok assms(4)] ok lpop show ?thesis by (auto simp: normalize_plain dispatch_table)
  next
    case blpop
    have h: "blpop env1 db1 c = Some (db1', r)" using blpop assms(1) by simp
    then obtain v where v: "pop_list_element (steady_clock env1 0) (c ! 1) db1 = (db1', Inr v)"
      by (cases rule: blpop_cases) (use assms(3) blpop in \<open>auto simp: modified_simps split: if_splits\<close>)
    have n: "normalize_replication_command c r = [''LPOP'', c ! 1]"
      using blpop by (simp add: normalize_replication_command_def)
    from pop_replay [OF v assms(4)] show ?thesis
      unfolding n by (auto simp: dispatch_table lpop_def response_is_error_def)
  next
    case xadd
    have h: "xadd env1 db1 c = Some (db1', r)" using xadd assms(1) by simp
    then show ?thesis
    proof (cases rule: xadd_cases)
      case ok: (ok req vs i)
      have n: "normalize_replication_command c r = c[2 := stream_id_to_string i]"
        using xadd ok by (cases c) (auto simp: normalize_replication_command_def Let_def)
      have d: "dispatch env2 db2 (c[2 := stream_id_to_string i]) = xadd env2 db2 (c[2 := stream_id_to_string i])"
        using xadd ok(5) by (cases c) (auto simp: dispatch_table)
      from xadd_normalized [OF _ xadd(1) assms(4,5) ok(1,2,5,3,6)] h ok(4) show ?thesis
        unfolding n d by (auto simp: response_is_error_def)
    qed (use ok in \<open>auto simp: response_is_error_def\<close>)
  qed (use assms(2) in \<open>auto simp: is_write_command_iff\<close>)
qed

section \<open>The guarantees of the dispatcher\<close>

text \<open>
  C26: Only write commands write. A command that the table does not classify as a write leaves the
  contents of the store as they were for every later moment: all it can do to the store is to remove
  entries whose time is up. So it is sound not to log it, not to replicate it, and to allow it on a
  replica.
\<close>

theorem reads_do_not_write:
  assumes "dispatch env db c = Some (db', r)" "\<not> is_write_command c" "\<forall>i. steady_clock env i \<le> t"
  shows "contents t db' = contents t db"
  using dispatch_read_only_sweeps [OF assms(1,2)] assms(3) by (intro sweeps_contents) auto

definition still_env :: env where
  "still_env = \<lparr>steady_clock = (\<lambda>_. 0), system_clock = 1, traversal = (\<lambda>_. [])\<rparr>"

theorem reads_do_not_write_witness:
  "contents 3 (fst (the (dispatch still_env three_entries [''GET'', ''s'']))) = contents 3 three_entries"
proof (rule reads_do_not_write)
  show "dispatch still_env three_entries [''GET'', ''s''] =
      Some (fst (the (dispatch still_env three_entries [''GET'', ''s''])), snd (the (dispatch still_env three_entries [''GET'', ''s''])))"
    by (simp add: dispatch_table get_command_def split: prod.splits sum.splits)
  show "\<not> is_write_command [''GET'', ''s'']" by (simp add: is_write_command_iff)
  show "\<forall>i. steady_clock still_env i \<le> 3" by (simp add: still_env_def)
qed

text \<open>
  The test whether a write has to be logged is exact. After a write command, either the test says
  that the store was modified and the command's key carries the newest revision (so a client that
  watches the key sees the change), or the test says no and the only change to the store is the removal
  of expired entries.
\<close>

theorem modification_test_exact:
  assumes "dispatch env db c = Some (db', r)" "is_write_command c"
  shows "if write_modified_database c r then newest_mark (c ! 1) db' else sweeps {steady_clock env 0} db db'"
  using assms by (rule write_modified_exact)

theorem modification_test_exact_witness:
  "newest_mark ''l'' (fst (the (dispatch still_env empty_database [''RPUSH'', ''l'', ''a''])))"
proof -
  let ?c = "[''RPUSH'', ''l'', ''a'']"
  have r: "dispatch still_env empty_database ?c =
      Some (fst (the (dispatch still_env empty_database ?c)), Integer 1)"
    by (simp add: dispatch_table rpush_def add_list_elements_def find_active_entry_def empty_database_def Let_def)
  have "is_write_command ?c" by (simp add: is_write_command_iff)
  from modification_test_exact [OF r this] show ?thesis
    by (simp add: write_modified_database_def response_is_error_def)
qed



text \<open>
  C25: Replaying is faithful. If a write modified a store, then executing its logged form on any store
  with the same contents, at any other time, succeeds and produces the same contents; a generated
  stream ID is replayed literally and a blocking pop as a plain pop. The exceptions are a system clock
  that stands at the epoch and an expiry that overflows the replaying machine's clock.
\<close>

theorem replay_faithful:
  assumes "dispatch env1 db1 c = Some (db1', r)" "is_write_command c" "write_modified_database c r"
    "contents (steady_clock env1 0) db1 = contents (steady_clock env2 0) db2"
    "word_of_int (system_clock env1) \<noteq> (0 :: u64)"
    "\<not> set_overflows (steady_clock env2 0) c"
  shows "\<exists>db2' r2. dispatch env2 db2 (normalize_replication_command c r) = Some (db2', r2) \<and>
    \<not> response_is_error r2 \<and> contents (steady_clock env1 0) db1' = contents (steady_clock env2 0) db2'"
  using assms by (rule replay_step)

theorem replay_faithful_witness:
  "\<exists>db2' r2. dispatch (still_env\<lparr>system_clock := 99\<rparr>) empty_database [''XADD'', ''s'', stream_id_to_string (StreamId 1 0), ''f'', ''v''] =
      Some (db2', r2) \<and> \<not> response_is_error r2"
proof -
  let ?c = "[''XADD'', ''s'', ''*'', ''f'', ''v'']"
  have p: "parse_id ''*'' = Some \<lparr>req_mode = AUTOMATIC, req_milliseconds = 0, req_sequence = 0\<rparr>"
    by (simp add: parse_id_def)
  have d: "dispatch still_env empty_database ?c =
      Some (fst (the (dispatch still_env empty_database ?c)), BulkString (stream_id_to_string (StreamId 1 0)))"
    by (simp add: dispatch_table xadd_def p parse_value_list_def add_stream_def find_active_entry_def
        empty_database_def Let_def new_stream_id_def still_env_def)
  have w: "is_write_command ?c" by (simp add: is_write_command_iff)
  have m: "write_modified_database ?c (BulkString (stream_id_to_string (StreamId 1 0)))"
    by (simp add: write_modified_database_def response_is_error_def)
  have n: "normalize_replication_command ?c (BulkString (stream_id_to_string (StreamId 1 0))) =
      [''XADD'', ''s'', stream_id_to_string (StreamId 1 0), ''f'', ''v'']"
    by (simp add: normalize_replication_command_def)
  have c: "contents (steady_clock still_env 0) empty_database =
      contents (steady_clock (still_env\<lparr>system_clock := 99\<rparr>) 0) empty_database" by (simp add: still_env_def)
  have s: "word_of_int (system_clock still_env) \<noteq> (0 :: u64)" by (simp add: still_env_def)
  have o: "\<not> set_overflows (steady_clock (still_env\<lparr>system_clock := 99\<rparr>) 0) ?c"
    by (simp add: set_overflows_def)
  show ?thesis using replay_faithful [OF d w m c s o] unfolding n by blast
qed

end
