(* ===== verification/Sessions.thy ===== *)
theory Sessions
  imports Prelude
begin

text \<open>
  The two queues through which the command processor hands bytes to connections: \<open>PubSubSession\<close>
  (\<open>pubsub.cpp\<close>), which wakes its connection through an event descriptor, and \<open>ReplicaSession\<close>
  (\<open>replication.cpp\<close>), which wakes a sender thread. Both are objects protected by a mutex, so each
  method is one atomic step on the object's state.

  The event descriptor is outside of the program: a session carries the outcomes of its future writes
  as a function \<open>io\<close> and counts the writes it has made. An interrupted call is repeated by the code, so an
  outcome is the first one that is not an interruption.
\<close>

section \<open>Publish/subscribe sessions\<close>

datatype write_outcome = Written | WouldBlock | WriteFailed string

record pubsub_session =
  pending_frames :: "string list"
  signalled :: bool
  io :: "nat \<Rightarrow> write_outcome"
  writes :: nat

definition new_session :: "(nat \<Rightarrow> write_outcome) \<Rightarrow> pubsub_session" where
  "new_session outcomes = \<lparr>pending_frames = [], signalled = False, io = outcomes, writes = 0\<rparr>"

definition session_enqueue :: "string \<Rightarrow> pubsub_session \<Rightarrow> pubsub_session \<times> (string + unit)" where
  "session_enqueue frame s =
     (let notification_needed = (pending_frames s = []);
          s1 = s\<lparr>pending_frames := pending_frames s @ [frame]\<rparr>
      in if \<not> notification_needed then (s1, Inr ())
         else
           let s2 = s1\<lparr>writes := Suc (writes s)\<rparr> in
           (case io s (writes s) of
              Written \<Rightarrow> (s2\<lparr>signalled := True\<rparr>, Inr ())
            | WouldBlock \<Rightarrow> (s2, Inr ())
            | WriteFailed msg \<Rightarrow>
                (s2\<lparr>pending_frames := butlast (pending_frames s2)\<rparr>,
                 Inl (''Failed to notify Pub/Sub connection: '' @ msg))))"

definition pop_frame :: "pubsub_session \<Rightarrow> pubsub_session \<times> string option" where
  "pop_frame s =
     (case pending_frames s of
        [] \<Rightarrow> (s, None)
      | frame # frames \<Rightarrow> (s\<lparr>pending_frames := frames\<rparr>, Some frame))"

text \<open>Reading the event descriptor resets it; the argument is the outcome of the read.\<close>

definition clear_notification :: "write_outcome \<Rightarrow> pubsub_session \<Rightarrow> pubsub_session \<times> (string + unit)" where
  "clear_notification outcome s =
     (case outcome of
        WriteFailed msg \<Rightarrow> (s, Inl (''Failed to clear Pub/Sub notification: '' @ msg))
      | _ \<Rightarrow> (s\<lparr>signalled := False\<rparr>, Inr ()))"

section \<open>Replica sessions\<close>

record replication_frame =
  payload :: string
  ending_offset :: u64

record replica_session =
  replica_client :: client_id
  starting_offset :: u64
  replica_frames :: "replication_frame list"
  closed :: bool

definition new_replica_session :: "client_id \<Rightarrow> u64 \<Rightarrow> replica_session" where
  "new_replica_session client offset =
     \<lparr>replica_client = client, starting_offset = offset, replica_frames = [], closed = False\<rparr>"

definition replica_enqueue :: "replication_frame \<Rightarrow> replica_session \<Rightarrow> replica_session" where
  "replica_enqueue frame s = (if closed s then s else s\<lparr>replica_frames := replica_frames s @ [frame]\<rparr>)"

text \<open>
  \<open>wait_for_frame\<close> returns once its condition holds; before that the thread waits and the state does
  not change, so the step is guarded: \<open>None\<close> means that the call is still waiting.
\<close>

definition wait_for_frame ::
  "bool \<Rightarrow> replica_session \<Rightarrow> (replica_session \<times> replication_frame option) option" where
  "wait_for_frame stop_requested s =
     (if stop_requested \<or> closed s then Some (s, None)
      else
        (case replica_frames s of
           [] \<Rightarrow> None
         | frame # frames \<Rightarrow> Some (s\<lparr>replica_frames := frames\<rparr>, Some frame)))"

definition close_session :: "replica_session \<Rightarrow> replica_session" where
  "close_session s = s\<lparr>closed := True\<rparr>"

section \<open>The interface of a frame queue\<close>

text \<open>
  What the producer and the consumer of frames rely on. \<open>put\<close> may be refused, which the caller learns;
  frames come out in the order in which they were accepted, none is lost, doubled or invented.
\<close>

datatype 'f queue_op = Put 'f | Get

locale frame_queue =
  fixes pending :: "'s \<Rightarrow> 'f list"
    and put :: "'f \<Rightarrow> 's \<Rightarrow> 's \<times> bool"
    and get :: "'s \<Rightarrow> 's \<times> 'f option"
  assumes put_accepted: "put f s = (s', True) \<Longrightarrow> pending s' = pending s @ [f]"
    and put_refused: "put f s = (s', False) \<Longrightarrow> pending s' = pending s"
    and get_some: "get s = (s', Some f) \<Longrightarrow> pending s = f # pending s'"
    and get_none: "get s = (s', None) \<Longrightarrow> pending s' = pending s"
begin

text \<open>Any interleaving of puts and gets: the state, the accepted frames and the delivered ones.\<close>

fun run_queue :: "'f queue_op list \<Rightarrow> 's \<Rightarrow> 's \<times> 'f list \<times> 'f list" where
  "run_queue [] s = (s, [], [])"
| "run_queue (Put f # ops) s =
     (case put f s of
        (s1, ok) \<Rightarrow>
          (case run_queue ops s1 of
             (s2, accepted, delivered) \<Rightarrow> (s2, if ok then f # accepted else accepted, delivered)))"
| "run_queue (Get # ops) s =
     (case get s of
        (s1, out) \<Rightarrow>
          (case run_queue ops s1 of
             (s2, accepted, delivered) \<Rightarrow>
               (s2, accepted, case out of None \<Rightarrow> delivered | Some f \<Rightarrow> f # delivered)))"

lemma exactly_once_in_order:
  "run_queue ops s = (s', accepted, delivered) \<Longrightarrow> pending s @ accepted = delivered @ pending s'"
proof (induction ops arbitrary: s s' accepted delivered)
  case (Cons op ops)
  show ?case
  proof (cases op)
    case (Put f)
    obtain s1 ok where p: "put f s = (s1, ok)" by fastforce
    obtain s2 a d where r: "run_queue ops s1 = (s2, a, d)" by (metis prod_cases3)
    from Cons.IH [OF r] put_accepted [of f s s1] put_refused [of f s s1] p r Cons.prems Put
    show ?thesis by (cases ok) auto
  next
    case Get
    obtain s1 out where p: "get s = (s1, out)" by fastforce
    obtain s2 a d where r: "run_queue ops s1 = (s2, a, d)" by (metis prod_cases3)
    from Cons.IH [OF r] get_some [of s s1] get_none [of s s1] p r Cons.prems Get
    show ?thesis by (cases out) auto
  qed
qed simp

end

definition session_put :: "string \<Rightarrow> pubsub_session \<Rightarrow> pubsub_session \<times> bool" where
  "session_put frame s = (case session_enqueue frame s of (s', r) \<Rightarrow> (s', r = Inr ()))"

definition replica_put :: "replication_frame \<Rightarrow> replica_session \<Rightarrow> replica_session \<times> bool" where
  "replica_put frame s = (replica_enqueue frame s, \<not> closed s)"

definition replica_get :: "bool \<Rightarrow> replica_session \<Rightarrow> replica_session \<times> replication_frame option" where
  "replica_get stop_requested s = (case wait_for_frame stop_requested s of None \<Rightarrow> (s, None) | Some r \<Rightarrow> r)"

interpretation pubsub_queue: frame_queue pending_frames session_put pop_frame
  by unfold_locales
    (auto simp: session_put_def session_enqueue_def pop_frame_def Let_def
      split: if_splits write_outcome.splits list.splits)

interpretation replica_queue: frame_queue replica_frames replica_put "replica_get stop_requested" for stop_requested
  by unfold_locales
    (auto simp: replica_put_def replica_enqueue_def replica_get_def wait_for_frame_def
      split: if_splits list.splits option.splits)

text \<open>
  C33: Frames are delivered exactly once and in order. For any interleaving of the processor's enqueues
  with the connection's dequeues, on a publish/subscribe session and on a replica session alike, the
  frames delivered so far followed by those still pending are the frames pending at the start followed
  by those accepted since. A frame whose notification failed was not accepted, which the enqueue
  reported.
\<close>

theorem frames_exactly_once_in_order:
  "(pubsub_queue.run_queue ops s = (s', accepted, delivered) \<longrightarrow>
      pending_frames s @ accepted = delivered @ pending_frames s') \<and>
   (replica_queue.run_queue stop_requested rops q = (q', raccepted, rdelivered) \<longrightarrow>
      replica_frames q @ raccepted = rdelivered @ replica_frames q')"
  using pubsub_queue.exactly_once_in_order replica_queue.exactly_once_in_order by blast

theorem frames_exactly_once_in_order_witness:
  "pending_frames (new_session (\<lambda>_. Written)) @ [''a'', ''b''] =
     [''a''] @ pending_frames (fst (pubsub_queue.run_queue [Put ''a'', Put ''b'', Get] (new_session (\<lambda>_. Written))))"
proof -
  let ?s = "new_session (\<lambda>_. Written)"
  have "pubsub_queue.run_queue [Put ''a'', Put ''b'', Get] ?s =
      (fst (pubsub_queue.run_queue [Put ''a'', Put ''b'', Get] ?s), [''a'', ''b''], [''a''])"
    by (simp add: session_put_def session_enqueue_def pop_frame_def new_session_def Let_def)
  then show ?thesis using frames_exactly_once_in_order by blast
qed

section \<open>The connection is always woken up\<close>

text \<open>
  The connection waits in \<open>poll\<close>; when the descriptor is readable, or when a command's response was
  queued, it resets the descriptor and then takes frames until there are none. The processor's enqueues
  interleave at every point. A write to the descriptor would block only when its counter is at the
  maximum, so that the descriptor is readable.
\<close>

datatype phase = Waiting | Clearing | Draining

inductive wake_step :: "pubsub_session \<times> phase \<Rightarrow> pubsub_session \<times> phase \<Rightarrow> bool" where
  produce: "session_enqueue f s = (s', r) \<Longrightarrow> (io s (writes s) = WouldBlock \<longrightarrow> signalled s) \<Longrightarrow>
    wake_step (s, ph) (s', ph)"
| wake: "signalled s \<Longrightarrow> wake_step (s, Waiting) (s, Clearing)"
| response_queued: "wake_step (s, Waiting) (s, Clearing)"
| clear: "clear_notification outcome s = (s', Inr ()) \<Longrightarrow> wake_step (s, Clearing) (s', Draining)"
| take_frame: "pop_frame s = (s', Some f) \<Longrightarrow> wake_step (s, Draining) (s', Draining)"
| drained: "pop_frame s = (s', None) \<Longrightarrow> wake_step (s, Draining) (s', Waiting)"

inductive wake_reachable :: "pubsub_session \<times> phase \<Rightarrow> bool" where
  wake_start: "wake_reachable (new_session outcomes, Waiting)"
| wake_more: "wake_reachable x \<Longrightarrow> wake_step x y \<Longrightarrow> wake_reachable y"

definition wake_inv :: "pubsub_session \<times> phase \<Rightarrow> bool" where
  "wake_inv x \<longleftrightarrow> (snd x = Waiting \<and> pending_frames (fst x) \<noteq> [] \<longrightarrow> signalled (fst x))"

lemma wake_inv_step: "wake_step x y \<Longrightarrow> wake_inv x \<Longrightarrow> wake_inv y"
  by (induction rule: wake_step.induct)
    (auto simp: wake_inv_def session_enqueue_def pop_frame_def Let_def
      split: if_splits write_outcome.splits list.splits)

lemma wake_reachable_inv: "wake_reachable x \<Longrightarrow> wake_inv x"
proof (induction rule: wake_reachable.induct)
  case (wake_start outcomes)
  show ?case by (simp add: wake_inv_def new_session_def)
next
  case (wake_more x y)
  then show ?case by (blast intro: wake_inv_step)
qed



end
