(* ===== verification/Sha256.thy ===== *)
theory Sha256
  imports Prelude
begin

text \<open>
  The password hash (\<open>utils/sha256.cpp\<close>). The digest itself is computed by OpenSSL and is a parameter
  here (\<open>None\<close> for a failing call); the source adds the hexadecimal encoding.
\<close>

definition hexadecimal :: string where
  "hexadecimal = ''0123456789abcdef''"

fun hex_encode :: "string \<Rightarrow> string" where
  "hex_encode [] = []"
| "hex_encode (c # digest) =
     (let n = (of_char c :: nat) in hexadecimal ! (n div 16) # hexadecimal ! (n mod 16) # hex_encode digest)"

definition sha256 :: "(string \<Rightarrow> string option) \<Rightarrow> string \<Rightarrow> string + string" where
  "sha256 evp_digest input =
     (case evp_digest input of
        None \<Rightarrow> Inl ''OpenSSL failed to calculate a SHA-256 digest''
      | Some digest \<Rightarrow> Inr (hex_encode digest))"

lemma hexadecimal_distinct: "distinct hexadecimal" "length hexadecimal = 16"
  by (simp_all add: hexadecimal_def)

lemma hexadecimal_nth_eq: "i < 16 \<Longrightarrow> j < 16 \<Longrightarrow> hexadecimal ! i = hexadecimal ! j \<longleftrightarrow> i = j"
  using nth_eq_iff_index_eq [OF hexadecimal_distinct(1)] hexadecimal_distinct(2) by simp

lemma char_hex_eq:
  fixes c d :: char
  assumes "(of_char c :: nat) div 16 = of_char d div 16" "(of_char c :: nat) mod 16 = of_char d mod 16"
  shows "c = d"
proof -
  have "(of_char c :: nat) = of_char d" using assms by (metis div_mod_decomp)
  then show ?thesis by simp
qed

lemma hex_encode_inj: "hex_encode a = hex_encode b \<longleftrightarrow> a = b"
proof (induction a arbitrary: b)
  case Nil
  then show ?case by (cases b) (auto simp: Let_def)
next
  case (Cons c a)
  show ?case
  proof (cases b)
    case Nil
    then show ?thesis by (simp add: Let_def)
  next
    case (Cons d b')
    have lt: "(of_char x :: nat) div 16 < 16" "(of_char x :: nat) mod 16 < 16" for x :: char
      using nat_of_char_less_256 [of x] by linarith+
    show ?thesis
      using Cons.IH [of b'] char_hex_eq [of c d] by (auto simp: Cons Let_def hexadecimal_nth_eq lt)
  qed
qed

end
