(* ===== verification/Server_Config.thy ===== *)
theory Server_Config
  imports Prelude Sha256
begin

text \<open>
  The configuration and its command line (\<open>server_config.cpp\<close>). The working directory, the status of a
  directory and the password digest come from outside and are arguments. Paths are POSIX paths: absolute
  when they start with a slash, with a parent path when they hold a slash, and their components are the
  parts between slashes.
\<close>

record replica_config =
  host :: string
  replica_port :: nat

record rdb_config =
  dir :: string
  db_filename :: string

record aof_config =
  enabled :: bool
  append_dirname :: string
  append_filename :: string
  append_fsync :: string

record server_config =
  port :: nat
  replica_of :: "replica_config option"
  default_user_password_hash :: "string option"
  config_rdb :: rdb_config
  config_aof :: aof_config

definition default_config :: server_config where
  "default_config =
     \<lparr>port = 6379, replica_of = None, default_user_password_hash = None,
      config_rdb = \<lparr>dir = ''.'', db_filename = ''dump.rdb''\<rparr>,
      config_aof = \<lparr>enabled = False, append_dirname = ''appendonlydir'', append_filename = ''appendonly.aof'',
        append_fsync = ''everysec''\<rparr>\<rparr>"

section \<open>Paths\<close>

fun path_components :: "string \<Rightarrow> string list" where
  "path_components [] = [[]]"
| "path_components (c # s) =
     (if c = CHR ''/'' then [] # path_components s
      else (case path_components s of p # ps \<Rightarrow> (c # p) # ps | [] \<Rightarrow> [[c]]))"

definition is_absolute :: "string \<Rightarrow> bool" where
  "is_absolute path \<longleftrightarrow> path \<noteq> [] \<and> hd path = CHR ''/''"

definition has_parent_path :: "string \<Rightarrow> bool" where
  "has_parent_path path \<longleftrightarrow> CHR ''/'' \<in> set path"

datatype file_status = StatusError string | IsDirectory | NotDirectory

section \<open>Parsing the command line\<close>

abbreviation quoted :: "char \<Rightarrow> string \<Rightarrow> string" where
  "quoted q s \<equiv> q # s @ [q]"

definition parse_port_number :: "string \<Rightarrow> string + nat" where
  "parse_port_number arg =
     (case from_chars_unsigned 16 arg of
        (end_, error, n) \<Rightarrow>
          if arg = [] \<or> error \<noteq> errc_ok \<or> end_ \<noteq> [] \<or> n = 0 then Inl ''Invalid port number'' else Inr n)"

definition parse_replica_config :: "string \<Rightarrow> string + replica_config" where
  "parse_replica_config arg =
     (case find_char (CHR '' '') arg of
        None \<Rightarrow> Inl (''Expected --replicaof '' @ quoted (CHR 0x22) ''<host> <port>'')
      | Some separator \<Rightarrow>
          let host_text = take separator arg; port_text = drop (separator + 1) arg in
          if host_text = [] \<or> port_text = [] then Inl ''Invalid --replicaof value''
          else
            (case parse_port_number port_text of
               Inl _ \<Rightarrow> Inl ''Invalid replica port''
             | Inr n \<Rightarrow> Inr \<lparr>host = host_text, replica_port = n\<rparr>))"

definition validate_directory :: "(string \<Rightarrow> file_status) \<Rightarrow> string \<Rightarrow> string + unit" where
  "validate_directory status path =
     (if path = [] then Inl ''RDB directory cannot be empty''
      else
        (case status path of
           StatusError msg \<Rightarrow> Inl (''Cannot access RDB directory '' @ quoted (CHR 0x27) path @ '': '' @ msg)
         | NotDirectory \<Rightarrow> Inl (''RDB path '' @ quoted (CHR 0x27) path @ '' is not a directory'')
         | IsDirectory \<Rightarrow> Inr ()))"

definition is_valid_database_filename :: "string \<Rightarrow> bool" where
  "is_valid_database_filename filename \<longleftrightarrow>
     filename \<noteq> [] \<and> \<not> has_parent_path filename \<and> filename \<noteq> ''.'' \<and> filename \<noteq> ''..''"

definition is_valid_append_directory :: "string \<Rightarrow> bool" where
  "is_valid_append_directory directory \<longleftrightarrow>
     directory \<noteq> [] \<and> \<not> is_absolute directory \<and> directory \<noteq> ''.'' \<and> directory \<noteq> ''..'' \<and>
     ''..'' \<notin> set (path_components directory)"

text \<open>One option and its value; the loop takes two arguments at a time.\<close>

definition apply_option ::
  "(string \<Rightarrow> file_status) \<Rightarrow> (string \<Rightarrow> string option) \<Rightarrow> string \<Rightarrow> string \<Rightarrow> server_config \<Rightarrow> string + server_config" where
  "apply_option status evp_digest arg v config =
     (if arg = ''--port'' then
        (case parse_port_number v of Inl e \<Rightarrow> Inl e | Inr n \<Rightarrow> Inr (config\<lparr>port := n\<rparr>))
      else if arg = ''--replicaof'' then
        (case parse_replica_config v of Inl e \<Rightarrow> Inl e | Inr r \<Rightarrow> Inr (config\<lparr>replica_of := Some r\<rparr>))
      else if arg = ''--requirepass'' then
        (case sha256 evp_digest v of Inl e \<Rightarrow> Inl e | Inr h \<Rightarrow> Inr (config\<lparr>default_user_password_hash := Some h\<rparr>))
      else if arg = ''--dir'' then
        (case validate_directory status v of
           Inl e \<Rightarrow> Inl e
         | Inr _ \<Rightarrow> Inr (config\<lparr>config_rdb := (config_rdb config)\<lparr>dir := v\<rparr>\<rparr>))
      else if arg = ''--dbfilename'' then
        (if \<not> is_valid_database_filename v then Inl ''RDB filename must be a filename without a directory path''
         else Inr (config\<lparr>config_rdb := (config_rdb config)\<lparr>db_filename := v\<rparr>\<rparr>))
      else if arg = ''--appendonly'' then
        (if v \<noteq> ''yes'' \<and> v \<noteq> ''no''
         then Inl (''--appendonly must be either '' @ quoted (CHR 0x27) ''yes'' @ '' or '' @ quoted (CHR 0x27) ''no'')
         else Inr (config\<lparr>config_aof := (config_aof config)\<lparr>enabled := (v = ''yes'')\<rparr>\<rparr>))
      else if arg = ''--appenddirname'' then
        (if \<not> is_valid_append_directory v
         then Inl ''AOF directory must be a relative path inside the data directory''
         else Inr (config\<lparr>config_aof := (config_aof config)\<lparr>append_dirname := v\<rparr>\<rparr>))
      else if arg = ''--appendfilename'' then
        (if \<not> is_valid_database_filename v then Inl ''AOF filename must be a filename without a directory path''
         else Inr (config\<lparr>config_aof := (config_aof config)\<lparr>append_filename := v\<rparr>\<rparr>))
      else if v \<noteq> ''always'' \<and> v \<noteq> ''everysec'' \<and> v \<noteq> ''no''
      then Inl (''--appendfsync must be '' @ quoted (CHR 0x27) ''always'' @ '', '' @ quoted (CHR 0x27) ''everysec'' @
             '', or '' @ quoted (CHR 0x27) ''no'')
      else Inr (config\<lparr>config_aof := (config_aof config)\<lparr>append_fsync := v\<rparr>\<rparr>))"

definition known_options :: "string list" where
  "known_options = [''--port'', ''--replicaof'', ''--requirepass'', ''--dir'', ''--dbfilename'', ''--appendonly'',
     ''--appenddirname'', ''--appendfilename'', ''--appendfsync'']"

fun parse_options ::
  "(string \<Rightarrow> file_status) \<Rightarrow> (string \<Rightarrow> string option) \<Rightarrow> string list \<Rightarrow> server_config \<Rightarrow> string + server_config" where
  "parse_options status evp_digest [] config = Inr config"
| "parse_options status evp_digest (arg # rest) config =
     (if arg \<notin> set known_options then Inl (''Unknown argument: '' @ arg)
      else
        (case rest of
           [] \<Rightarrow> Inl (''Missing value after '' @ arg)
         | v # rest' \<Rightarrow>
             (case apply_option status evp_digest arg v config of
                Inl e \<Rightarrow> Inl e
              | Inr config' \<Rightarrow> parse_options status evp_digest rest' config')))"

definition parse_server_arguments ::
  "string + string \<Rightarrow> (string \<Rightarrow> file_status) \<Rightarrow> (string \<Rightarrow> string option) \<Rightarrow> string list \<Rightarrow> string + server_config" where
  "parse_server_arguments current_path status evp_digest args =
     (case current_path of
        Inl msg \<Rightarrow> Inl (''Cannot determine the current working directory: '' @ msg)
      | Inr path \<Rightarrow>
          parse_options status evp_digest args
            (default_config\<lparr>config_rdb := (config_rdb default_config)\<lparr>dir := path\<rparr>\<rparr>))"

section \<open>Every accepted configuration is usable\<close>

definition config_ok :: "server_config \<Rightarrow> bool" where
  "config_ok config \<longleftrightarrow>
     0 < port config \<and> port config < 2 ^ 16 \<and>
     (\<forall>r. replica_of config = Some r \<longrightarrow>
        host r \<noteq> [] \<and> CHR '' '' \<notin> set (host r) \<and> 0 < replica_port r \<and> replica_port r < 2 ^ 16) \<and>
     is_valid_database_filename (db_filename (config_rdb config)) \<and>
     is_valid_database_filename (append_filename (config_aof config)) \<and>
     is_valid_append_directory (append_dirname (config_aof config)) \<and>
     append_fsync (config_aof config) \<in> {''always'', ''everysec'', ''no''}"

lemma parse_port_number_bound: "parse_port_number s = Inr n \<Longrightarrow> 0 < n \<and> n < 2 ^ 16"
  using from_chars_unsigned_bound [of 16 s]
  by (auto simp: parse_port_number_def split: prod.splits if_splits)

lemma take_find_char: "find_char c s = Some n \<Longrightarrow> c \<notin> set (take n s)"
  by (induction s arbitrary: n) (auto split: if_splits)

lemma parse_replica_config_ok:
  "parse_replica_config s = Inr r \<Longrightarrow>
   host r \<noteq> [] \<and> CHR '' '' \<notin> set (host r) \<and> 0 < replica_port r \<and> replica_port r < 2 ^ 16"
  by (auto simp: parse_replica_config_def Let_def dest: take_find_char parse_port_number_bound
      split: option.splits if_splits sum.splits)

lemma config_ok_updates:
  assumes "config_ok config"
  shows "0 < n \<Longrightarrow> n < 2 ^ 16 \<Longrightarrow> config_ok (config\<lparr>port := n\<rparr>)"
    and "host r \<noteq> [] \<and> CHR '' '' \<notin> set (host r) \<and> 0 < replica_port r \<and> replica_port r < 2 ^ 16 \<Longrightarrow>
      config_ok (config\<lparr>replica_of := Some r\<rparr>)"
    and "config_ok (config\<lparr>default_user_password_hash := Some h\<rparr>)"
    and "config_ok (config\<lparr>config_rdb := (config_rdb config)\<lparr>dir := v\<rparr>\<rparr>)"
    and "is_valid_database_filename v \<Longrightarrow> config_ok (config\<lparr>config_rdb := (config_rdb config)\<lparr>db_filename := v\<rparr>\<rparr>)"
    and "config_ok (config\<lparr>config_aof := (config_aof config)\<lparr>enabled := on\<rparr>\<rparr>)"
    and "is_valid_append_directory v \<Longrightarrow> config_ok (config\<lparr>config_aof := (config_aof config)\<lparr>append_dirname := v\<rparr>\<rparr>)"
    and "is_valid_database_filename v \<Longrightarrow> config_ok (config\<lparr>config_aof := (config_aof config)\<lparr>append_filename := v\<rparr>\<rparr>)"
    and "v = ''always'' \<or> v = ''everysec'' \<or> v = ''no'' \<Longrightarrow>
      config_ok (config\<lparr>config_aof := (config_aof config)\<lparr>append_fsync := v\<rparr>\<rparr>)"
  using assms by (simp_all add: config_ok_def)

lemma case_InrE:
  assumes "(case x of Inl e \<Rightarrow> Inl e | Inr y \<Rightarrow> Inr (f y)) = Inr c"
  obtains y where "x = Inr y" "c = f y"
  using assms by (cases x) simp_all

lemma apply_option_ok:
  assumes "apply_option status evp arg v config = Inr config'" "config_ok config"
  shows "config_ok config'"
  using assms(1) unfolding apply_option_def
  by (elim if_eqE case_InrE)
    (use assms(2) parse_port_number_bound parse_replica_config_ok in \<open>auto simp del: One_nat_def intro: config_ok_updates\<close>)

lemma parse_options_ok:
  "parse_options status evp args config = Inr config' \<Longrightarrow> config_ok config \<Longrightarrow> config_ok config'"
  by (induction status evp args config rule: parse_options.induct)
    (auto split: if_splits sum.splits list.splits dest: apply_option_ok)

lemma default_config_ok: "config_ok (default_config\<lparr>config_rdb := (config_rdb default_config)\<lparr>dir := path\<rparr>\<rparr>)"
  by (simp add: config_ok_def default_config_def is_valid_database_filename_def is_valid_append_directory_def
      has_parent_path_def is_absolute_def)



end
