(* ===== verification/Rdb.thy ===== *)
theory Rdb
  imports Prelude
begin

text \<open>
  The reader of snapshot files (\<open>rdb.cpp\<close>). A reader is the unread rest of its input; every read returns
  an error message or a value with the new rest. Bytes and lengths are natural numbers below their
  machine bounds: shifts by whole bytes and masks are written as arithmetic, and no value exceeds its
  width. \<open>entries.reserve\<close> throws when the memory cannot be had; the exception is not caught anywhere, so
  the outcome of a file is \<open>None\<close> then. What can be reserved is a parameter.
\<close>

record string_entry =
  se_key :: string
  se_value :: string
  expires_at_unix_ms :: "u64 option"

record rdb_length =
  length_value :: nat
  encoded :: bool

type_synonym 'a reading = "string + 'a \<times> string"

definition read_byte :: "string \<Rightarrow> nat reading" where
  "read_byte input =
     (case input of
        [] \<Rightarrow> Inl ''Unexpected end of RDB file''
      | c # rest \<Rightarrow> Inr (of_char c, rest))"

definition read_bytes :: "nat \<Rightarrow> string \<Rightarrow> string reading" where
  "read_bytes count input =
     (if length input < count then Inl ''Unexpected end of RDB file'' else Inr (take count input, drop count input))"

text \<open>The two byte orders; each loop runs over the bytes that were read.\<close>

fun little_endian :: "string \<Rightarrow> nat" where
  "little_endian [] = 0"
| "little_endian (c # s) = of_char c + 256 * little_endian s"

definition big_endian :: "string \<Rightarrow> nat" where
  "big_endian s = foldl (\<lambda>result c. result * 256 + of_char c) 0 s"

definition read_u32_little_endian :: "string \<Rightarrow> nat reading" where
  "read_u32_little_endian input =
     (case read_bytes 4 input of Inl e \<Rightarrow> Inl e | Inr (bytes, rest) \<Rightarrow> Inr (little_endian bytes, rest))"

definition read_u64_little_endian :: "string \<Rightarrow> nat reading" where
  "read_u64_little_endian input =
     (case read_bytes 8 input of Inl e \<Rightarrow> Inl e | Inr (bytes, rest) \<Rightarrow> Inr (little_endian bytes, rest))"

definition read_length :: "string \<Rightarrow> rdb_length reading" where
  "read_length input =
     (case read_byte input of
        Inl e \<Rightarrow> Inl e
      | Inr (first, rest) \<Rightarrow>
          let kind = first div 64 in
          if kind = 0 then Inr (\<lparr>length_value = first mod 64, encoded = False\<rparr>, rest)
          else if kind = 1 then
            (case read_byte rest of
               Inl e \<Rightarrow> Inl e
             | Inr (second, rest1) \<Rightarrow>
                 Inr (\<lparr>length_value = (first mod 64) * 256 + second, encoded = False\<rparr>, rest1))
          else if kind = 3 then Inr (\<lparr>length_value = first mod 64, encoded = True\<rparr>, rest)
          else if first = 0x80 then
            (case read_bytes 4 rest of
               Inl e \<Rightarrow> Inl e
             | Inr (bytes, rest1) \<Rightarrow> Inr (\<lparr>length_value = big_endian bytes, encoded = False\<rparr>, rest1))
          else if first = 0x81 then
            (case read_bytes 8 rest of
               Inl e \<Rightarrow> Inl e
             | Inr (bytes, rest1) \<Rightarrow> Inr (\<lparr>length_value = big_endian bytes, encoded = False\<rparr>, rest1))
          else Inl ''Unsupported RDB length encoding'')"

definition read_plain_length :: "string \<Rightarrow> nat reading" where
  "read_plain_length input =
     (case read_length input of
        Inl e \<Rightarrow> Inl e
      | Inr (len, rest) \<Rightarrow> if encoded len then Inl ''Expected an ordinary RDB length'' else Inr (length_value len, rest))"

text \<open>\<open>std::bit_cast\<close> to a signed type of \<open>w\<close> bits.\<close>

definition as_signed :: "nat \<Rightarrow> nat \<Rightarrow> int" where
  "as_signed w n = (if n < 2 ^ (w - 1) then int n else int n - 2 ^ w)"

definition read_string :: "string \<Rightarrow> string reading" where
  "read_string input =
     (case read_length input of
        Inl e \<Rightarrow> Inl e
      | Inr (len, rest) \<Rightarrow>
          if \<not> encoded len then
            (case read_bytes (length_value len) rest of
               Inl e \<Rightarrow> Inl e
             | Inr (bytes, rest1) \<Rightarrow> Inr (bytes, rest1))
          else if length_value len = 0 then
            (case read_byte rest of
               Inl e \<Rightarrow> Inl e
             | Inr (n, rest1) \<Rightarrow> Inr (dec_of_int (as_signed 8 n), rest1))
          else if length_value len = 1 then
            (case read_bytes 2 rest of
               Inl e \<Rightarrow> Inl e
             | Inr (bytes, rest1) \<Rightarrow> Inr (dec_of_int (as_signed 16 (little_endian bytes)), rest1))
          else if length_value len = 2 then
            (case read_u32_little_endian rest of
               Inl e \<Rightarrow> Inl e
             | Inr (n, rest1) \<Rightarrow> Inr (dec_of_int (as_signed 32 n), rest1))
          else Inl ''LZF-compressed RDB strings are not supported'')"

section \<open>The file\<close>

text \<open>What one marker does: the end, more input with the new state, or an uncaught exception (\<open>None\<close>).\<close>

datatype rdb_step = Finished | Continue "string_entry list" "u64 option" string

definition skip_to :: "string_entry list \<Rightarrow> u64 option \<Rightarrow> 'a reading \<Rightarrow> string + rdb_step" where
  "skip_to es pending r = (case r of Inl e \<Rightarrow> Inl e | Inr (_, rest) \<Rightarrow> Inr (Continue es pending rest))"

definition parse_marker ::
  "(nat \<Rightarrow> bool) \<Rightarrow> nat \<Rightarrow> string \<Rightarrow> string_entry list \<Rightarrow> u64 option \<Rightarrow> (string + rdb_step) option" where
  "parse_marker can_reserve marker rest es pending =
     (if marker = 255 then Some (Inr Finished)
      else if marker = 250 then
        (case read_string rest of
           Inl e \<Rightarrow> Some (Inl e)
         | Inr (_, rest1) \<Rightarrow> Some (skip_to es pending (read_string rest1)))
      else if marker = 254 then
        (case read_plain_length rest of
           Inl e \<Rightarrow> Some (Inl e)
         | Inr (number, rest1) \<Rightarrow>
             if number \<noteq> 0 then Some (Inl ''Only RDB database 0 is supported'') else Some (Inr (Continue es pending rest1)))
      else if marker = 251 then
        (case read_plain_length rest of
           Inl e \<Rightarrow> Some (Inl e)
         | Inr (key_count, rest1) \<Rightarrow>
             (case read_plain_length rest1 of
                Inl e \<Rightarrow> Some (Inl e)
              | Inr (_, rest2) \<Rightarrow> if can_reserve key_count then Some (Inr (Continue es pending rest2)) else None))
      else if marker = 252 then
        (case read_u64_little_endian rest of
           Inl e \<Rightarrow> Some (Inl e)
         | Inr (n, rest1) \<Rightarrow> Some (Inr (Continue es (Some (of_nat n)) rest1)))
      else if marker = 253 then
        (case read_u32_little_endian rest of
           Inl e \<Rightarrow> Some (Inl e)
         | Inr (n, rest1) \<Rightarrow> Some (Inr (Continue es (Some (of_nat n * 1000)) rest1)))
      else if marker = 248 then Some (skip_to es pending (read_plain_length rest))
      else if marker = 249 then Some (skip_to es pending (read_byte rest))
      else if marker \<noteq> 0 then Some (Inl ''Only string values are supported in RDB files'')
      else
        (case read_string rest of
           Inl e \<Rightarrow> Some (Inl e)
         | Inr (k, rest1) \<Rightarrow>
             (case read_string rest1 of
                Inl e \<Rightarrow> Some (Inl e)
              | Inr (v, rest2) \<Rightarrow>
                  Some (Inr (Continue (es @ [\<lparr>se_key = k, se_value = v, expires_at_unix_ms = pending\<rparr>]) None rest2)))))"

lemma read_byte_shrinks: "read_byte s = Inr (x, r) \<Longrightarrow> length r < length s"
  by (auto simp: read_byte_def split: list.splits)

lemma read_bytes_shrinks: "read_bytes n s = Inr (x, r) \<Longrightarrow> length r \<le> length s"
  by (auto simp: read_bytes_def split: if_splits)

lemma read_numbers_shrink:
  "read_u32_little_endian s = Inr (x, r) \<Longrightarrow> length r \<le> length s"
  "read_u64_little_endian s = Inr (x, r) \<Longrightarrow> length r \<le> length s"
  by (auto simp: read_u32_little_endian_def read_u64_little_endian_def dest: read_bytes_shrinks split: sum.splits)

lemma read_length_shrinks: "read_length s = Inr (x, r) \<Longrightarrow> length r \<le> length s"
  by (auto simp: read_length_def Let_def dest!: read_byte_shrinks read_bytes_shrinks
      split: sum.splits prod.splits if_splits)

lemma read_plain_length_shrinks: "read_plain_length s = Inr (x, r) \<Longrightarrow> length r \<le> length s"
  by (auto simp: read_plain_length_def dest!: read_length_shrinks split: sum.splits prod.splits if_splits)

lemma read_string_shrinks: "read_string s = Inr (x, r) \<Longrightarrow> length r \<le> length s"
  by (auto simp: read_string_def dest!: read_length_shrinks read_byte_shrinks read_bytes_shrinks read_numbers_shrink
      split: sum.splits prod.splits if_splits)

lemma parse_marker_shrinks:
  "parse_marker can_reserve m s es p = Some (Inr (Continue es' p' r)) \<Longrightarrow> length r \<le> length s"
  unfolding parse_marker_def skip_to_def
  by (elim if_eqE)
    (auto dest!: read_string_shrinks read_plain_length_shrinks read_numbers_shrink read_byte_shrinks
      split: sum.splits prod.splits if_splits)

function parse_entries ::
  "(nat \<Rightarrow> bool) \<Rightarrow> string \<Rightarrow> string_entry list \<Rightarrow> u64 option \<Rightarrow> (string + string_entry list) option" where
  "parse_entries can_reserve [] es pending = Some (Inl ''RDB file is missing its end marker'')"
| "parse_entries can_reserve (c # rest) es pending =
     (case parse_marker can_reserve (of_char c) rest es pending of
        None \<Rightarrow> None
      | Some (Inl e) \<Rightarrow> Some (Inl e)
      | Some (Inr Finished) \<Rightarrow> Some (Inr es)
      | Some (Inr (Continue es' pending' rest')) \<Rightarrow> parse_entries can_reserve rest' es' pending')"
  by pat_completeness auto
termination
  by (relation "measure (\<lambda>(_, s, _, _). length s)") (auto dest: parse_marker_shrinks)

definition parse_rdb :: "(nat \<Rightarrow> bool) \<Rightarrow> string \<Rightarrow> (string + string_entry list) option" where
  "parse_rdb can_reserve contents =
     (if length contents < 10 \<or> take 5 contents \<noteq> ''REDIS'' then Some (Inl ''Invalid RDB header'')
      else if \<not> list_all is_digit (take 4 (drop 5 contents)) then Some (Inl ''Invalid RDB version'')
      else parse_entries can_reserve (drop 9 contents) [] None)"

text \<open>What the file system says about the file.\<close>

datatype rdb_file = InspectError string | NoFile | CannotOpen | ReadError | Contents string

definition read_file :: "(nat \<Rightarrow> bool) \<Rightarrow> string \<Rightarrow> rdb_file \<Rightarrow> (string + string_entry list) option" where
  "read_file can_reserve path file =
     (case file of
        InspectError msg \<Rightarrow> Some (Inl (''Cannot inspect RDB file '' @ CHR 0x27 # path @ CHR 0x27 # '': '' @ msg))
      | NoFile \<Rightarrow> Some (Inr [])
      | CannotOpen \<Rightarrow> Some (Inl (''Cannot open RDB file '' @ CHR 0x27 # path @ [CHR 0x27]))
      | ReadError \<Rightarrow> Some (Inl (''Failed while reading RDB file '' @ CHR 0x27 # path @ [CHR 0x27]))
      | Contents contents \<Rightarrow> parse_rdb can_reserve contents)"

section \<open>The format, written out as an encoder\<close>

text \<open>
  The program only reads snapshots. What it should accept is given by the format: lengths in one, two,
  five or nine bytes, strings with their length in front or as small integers, an optional expiration
  in front of an entry, and the end marker.
\<close>

fun be_bytes :: "nat \<Rightarrow> nat \<Rightarrow> string" where
  "be_bytes 0 n = []"
| "be_bytes (Suc k) n = be_bytes k (n div 256) @ [char_of (n mod 256)]"

fun le_bytes :: "nat \<Rightarrow> nat \<Rightarrow> string" where
  "le_bytes 0 n = []"
| "le_bytes (Suc k) n = char_of (n mod 256) # le_bytes k (n div 256)"

definition put_length :: "nat \<Rightarrow> string" where
  "put_length n =
     (if n < 64 then [char_of n]
      else if n < 2 ^ 14 then [char_of (64 + n div 256), char_of (n mod 256)]
      else if n < 2 ^ 32 then char_of (0x80 :: nat) # be_bytes 4 n
      else char_of (0x81 :: nat) # be_bytes 8 n)"

definition put_string :: "string \<Rightarrow> string" where
  "put_string s = put_length (length s) @ s"

definition put_string_entry :: "string_entry \<Rightarrow> string" where
  "put_string_entry e =
     (case expires_at_unix_ms e of None \<Rightarrow> [] | Some ms \<Rightarrow> char_of (252 :: nat) # le_bytes 8 (unat ms)) @
     char_of (0 :: nat) # put_string (se_key e) @ put_string (se_value e)"

definition rdb_image :: "string_entry list \<Rightarrow> string" where
  "rdb_image es =
     ''REDIS0011'' @ [char_of (254 :: nat), char_of (0 :: nat)] @ concat (map put_string_entry es) @ [char_of (255 :: nat)]"

lemma length_bytes [simp]: "length (be_bytes k n) = k" "length (le_bytes k n) = k"
  by (induction k arbitrary: n) auto

lemma of_char_of_byte [simp]: "n < 256 \<Longrightarrow> of_char (char_of n :: char) = (n :: nat)"
  by (simp add: of_char_of)

lemma big_endian_snoc: "big_endian (s @ [c]) = big_endian s * 256 + of_char c"
  by (simp add: big_endian_def)

lemma big_endian_be_bytes: "n < 256 ^ k \<Longrightarrow> big_endian (be_bytes k n) = n"
proof (induction k arbitrary: n)
  case 0
  then show ?case by (simp add: big_endian_def)
next
  case (Suc k)
  then have "n div 256 < 256 ^ k" by (simp add: div_less_iff_less_mult mult.commute)
  with Suc.IH show ?case by (simp add: big_endian_snoc)
qed

lemma little_endian_le_bytes: "n < 256 ^ k \<Longrightarrow> little_endian (le_bytes k n) = n"
proof (induction k arbitrary: n)
  case (Suc k)
  then have "n div 256 < 256 ^ k" by (simp add: div_less_iff_less_mult mult.commute)
  with Suc.IH show ?case by simp
qed simp

lemma read_byte_Cons [simp]: "read_byte (c # s) = Inr (of_char c, s)"
  by (simp add: read_byte_def)

lemma read_bytes_append [simp]: "length b = n \<Longrightarrow> read_bytes n (b @ s) = Inr (b, s)"
  by (simp add: read_bytes_def)

lemma read_length_put:
  assumes "n < 2 ^ 64"
  shows "read_length (put_length n @ s) = Inr (\<lparr>length_value = n, encoded = False\<rparr>, s)"
proof -
  consider "n < 64" | "64 \<le> n" "n < 2 ^ 14" | "2 ^ 14 \<le> n" "n < 2 ^ 32" | "2 ^ 32 \<le> n" by linarith
  then show ?thesis
  proof cases
    case 1
    then show ?thesis by (simp add: read_length_def put_length_def)
  next
    case 2
    then have "n div 256 < 64" by (simp add: div_less_iff_less_mult)
    then have "(64 + n div 256) div 64 = 1" "(64 + n div 256) mod 64 = n div 256" "64 + n div 256 < 256" by simp_all
    with 2 show ?thesis by (simp add: read_length_def put_length_def)
  next
    case 3
    then have "n < 256 ^ 4" by simp
    with 3 show ?thesis by (simp add: read_length_def put_length_def big_endian_be_bytes)
  next
    case 4
    from assms have "n < 256 ^ 8" by simp
    with 4 show ?thesis by (simp add: read_length_def put_length_def big_endian_be_bytes)
  qed
qed

lemma read_string_put: "length v < 2 ^ 64 \<Longrightarrow> read_string (put_string v @ s) = Inr (v, s)"
  by (simp add: read_string_def put_string_def read_length_put)

definition entry_sized :: "string_entry \<Rightarrow> bool" where
  "entry_sized e \<longleftrightarrow> length (se_key e) < 2 ^ 64 \<and> length (se_value e) < 2 ^ 64"

lemma parse_plain_entry:
  assumes "length k < 2 ^ 64" "length v < 2 ^ 64"
  shows "parse_entries R (char_of (0 :: nat) # put_string k @ put_string v @ s) es p =
    parse_entries R s (es @ [\<lparr>se_key = k, se_value = v, expires_at_unix_ms = p\<rparr>]) None"
  using assms by (simp add: parse_marker_def read_string_put)

lemma parse_string_entry:
  assumes "entry_sized e"
  shows "parse_entries R (put_string_entry e @ s) es None = parse_entries R s (es @ [e]) None"
proof (cases "expires_at_unix_ms e")
  case None
  then show ?thesis
    using assms parse_plain_entry [of "se_key e" "se_value e" R s es None]
    by (cases e) (simp add: put_string_entry_def entry_sized_def)
next
  case (Some ms)
  have "unat ms < 256 ^ 8" using unsigned_less [of ms, where 'a = nat] by simp
  then have "parse_marker R 252 (le_bytes 8 (unat ms) @ t) es None = Some (Inr (Continue es (Some ms) t))" for t
    by (simp add: parse_marker_def read_u64_little_endian_def little_endian_le_bytes)
  then show ?thesis
    using Some assms parse_plain_entry [of "se_key e" "se_value e" R s es "Some ms"]
    by (cases e) (simp add: put_string_entry_def entry_sized_def)
qed

lemma parse_string_entries:
  "list_all entry_sized es \<Longrightarrow>
   parse_entries R (concat (map put_string_entry es) @ s) acc None = parse_entries R s (acc @ es) None"
  by (induction es arbitrary: acc) (simp_all add: parse_string_entry)





end
