(* ===== verification/Aof.thy ===== *)
theory Aof
  imports Resp Server_Config
begin

text \<open>
  The append-only file (\<open>aof.cpp\<close>): the manifest that names the active file, opening, appending with the
  three sync policies, and reading the commands back. The file system is outside of the program: an open
  file carries its bytes and the outcomes of its future \<open>write\<close> and \<open>fsync\<close> calls (the first outcome that
  is not an interruption, since interrupted calls are repeated), with a count of the calls made.
\<close>

section \<open>The manifest\<close>

record manifest_entry =
  manifest_filename :: string
  manifest_sequence :: u64

definition parse_sequence :: "string \<Rightarrow> string + u64" where
  "parse_sequence text =
     (case from_chars_unsigned 64 text of
        (end_, error, n) \<Rightarrow>
          if text = [] \<or> error \<noteq> errc_ok \<or> end_ \<noteq> [] then Inl ''Invalid sequence number in AOF manifest''
          else Inr (of_nat n))"

definition is_safe_manifest_filename :: "string \<Rightarrow> bool" where
  "is_safe_manifest_filename filename \<longleftrightarrow>
     filename \<noteq> [] \<and> \<not> is_absolute filename \<and> \<not> has_parent_path filename \<and> filename \<noteq> ''.'' \<and> filename \<noteq> ''..''"

text \<open>\<open>std::getline\<close> over a text, and the words that \<open>operator>>\<close> reads from a line.\<close>

fun text_lines :: "string \<Rightarrow> string list" where
  "text_lines [] = []"
| "text_lines (c # s) =
     (if c = CHR 0x0A then [] # text_lines s
      else (case text_lines s of [] \<Rightarrow> [[c]] | l # ls \<Rightarrow> (c # l) # ls))"

definition is_space :: "char \<Rightarrow> bool" where
  "is_space c \<longleftrightarrow> c \<in> {CHR '' '', CHR 0x09, CHR 0x0A, CHR 0x0B, CHR 0x0C, CHR 0x0D}"

fun words_from :: "string \<Rightarrow> string \<Rightarrow> string list" where
  "words_from word [] = (if word = [] then [] else [word])"
| "words_from word (c # s) =
     (if is_space c then (if word = [] then words_from [] s else word # words_from [] s)
      else words_from (word @ [c]) s)"

definition invalid_entry :: "string \<Rightarrow> string" where
  "invalid_entry manifest_path = ''Invalid entry in AOF manifest '' @ CHR 0x27 # manifest_path @ [CHR 0x27]"

fun read_manifest_lines :: "string \<Rightarrow> string list \<Rightarrow> manifest_entry option \<Rightarrow> string + manifest_entry option" where
  "read_manifest_lines manifest_path [] active_entry = Inr active_entry"
| "read_manifest_lines manifest_path (line # lines) active_entry =
     (case words_from [] line of
        [file_label, filename, sequence_label, sequence_text, type_label, entry_type] \<Rightarrow>
          if file_label \<noteq> ''file'' \<or> sequence_label \<noteq> ''seq'' \<or> type_label \<noteq> ''type'' then Inl (invalid_entry manifest_path)
          else if entry_type \<noteq> ''i'' then read_manifest_lines manifest_path lines active_entry
          else if \<not> is_safe_manifest_filename filename then Inl ''Invalid incremental filename in AOF manifest''
          else
            (case parse_sequence sequence_text of
               Inl e \<Rightarrow> Inl e
             | Inr n \<Rightarrow>
                 read_manifest_lines manifest_path lines
                   (case active_entry of
                      None \<Rightarrow> Some \<lparr>manifest_filename = filename, manifest_sequence = n\<rparr>
                    | Some e \<Rightarrow>
                        if manifest_sequence e < n then Some \<lparr>manifest_filename = filename, manifest_sequence = n\<rparr>
                        else active_entry))
      | _ \<Rightarrow> Inl (invalid_entry manifest_path))"

datatype manifest_text = ManifestCannotOpen | ManifestBad string | ManifestText string

definition read_active_filename :: "string \<Rightarrow> manifest_text \<Rightarrow> string + string" where
  "read_active_filename manifest_path manifest =
     (let finish = (\<lambda>text bad.
        (case read_manifest_lines manifest_path (text_lines text) None of
           Inl e \<Rightarrow> Inl e
         | Inr active_entry \<Rightarrow>
             if bad then Inl (''Failed while reading AOF manifest '' @ CHR 0x27 # manifest_path @ [CHR 0x27])
             else
               (case active_entry of
                  None \<Rightarrow> Inl ''AOF manifest does not contain an incremental file''
                | Some e \<Rightarrow> Inr (manifest_filename e))))
      in (case manifest of
            ManifestCannotOpen \<Rightarrow> Inl (''Cannot open AOF manifest '' @ CHR 0x27 # manifest_path @ [CHR 0x27])
          | ManifestBad text \<Rightarrow> finish text True
          | ManifestText text \<Rightarrow> finish text False))"

datatype manifest_write = WriteCannotCreate | WriteCannotFlush | WriteDone

text \<open>The new manifest's active file, and the text that is in the manifest then.\<close>

definition create_manifest :: "string \<Rightarrow> manifest_write \<Rightarrow> aof_config \<Rightarrow> string + string \<times> string" where
  "create_manifest manifest_path outcome config =
     (let active_filename = append_filename config @ ''.1.incr.aof'' in
      (case outcome of
         WriteCannotCreate \<Rightarrow> Inl (''Cannot create AOF manifest '' @ CHR 0x27 # manifest_path @ [CHR 0x27])
       | WriteCannotFlush \<Rightarrow> Inl (''Cannot write AOF manifest '' @ CHR 0x27 # manifest_path @ [CHR 0x27])
       | WriteDone \<Rightarrow> Inr (active_filename, ''file '' @ active_filename @ '' seq 1 type i'' @ [CHR 0x0A])))"

section \<open>The open file\<close>

datatype sync_policy = ALWAYS | EVERY_SECOND | NEVER

datatype write_call = Wrote nat | WriteError string

record aof_file =
  path :: string
  policy :: sync_policy
  last_sync :: time_point
  file_bytes :: string
  write_io :: "nat \<Rightarrow> write_call"
  write_calls :: nat
  sync_io :: "nat \<Rightarrow> string option"
  sync_calls :: nat

record aof_system =
  directory_error :: "string option"
  manifest_exists :: "string + bool"
  manifest_read :: manifest_text
  manifest_created :: manifest_write
  log_open_error :: "string option"
  log_bytes :: "string \<Rightarrow> string"
  log_writes :: "nat \<Rightarrow> write_call"
  log_syncs :: "nat \<Rightarrow> string option"

text \<open>The operator \<open>/\<close> of paths: an absolute right operand replaces the left one.\<close>

definition path_append :: "string \<Rightarrow> string \<Rightarrow> string" where
  "path_append p q =
     (if is_absolute q \<or> p = [] then q else if last p = CHR ''/'' then p @ q else p @ ''/'' @ q)"

definition open_aof :: "aof_system \<Rightarrow> time_point \<Rightarrow> string \<Rightarrow> aof_config \<Rightarrow> string + aof_file" where
  "open_aof fs now base_directory config =
     (let append_directory = path_append base_directory (append_dirname config) in
      case directory_error fs of
        Some msg \<Rightarrow> Inl (''Cannot create AOF directory '' @ CHR 0x27 # append_directory @ CHR 0x27 # '': '' @ msg)
      | None \<Rightarrow>
          let manifest_path = path_append append_directory (append_filename config @ ''.manifest'') in
          (case manifest_exists fs of
             Inl msg \<Rightarrow> Inl (''Cannot inspect AOF manifest '' @ CHR 0x27 # manifest_path @ CHR 0x27 # '': '' @ msg)
           | Inr exists \<Rightarrow>
               (case (if exists then read_active_filename manifest_path (manifest_read fs)
                      else map_sum id fst (create_manifest manifest_path (manifest_created fs) config)) of
                  Inl e \<Rightarrow> Inl e
                | Inr active_filename \<Rightarrow>
                    if append_fsync config \<notin> {''always'', ''everysec'', ''no''} then Inl ''Unsupported appendfsync policy''
                    else
                      let sync_policy =
                            (if append_fsync config = ''always'' then ALWAYS
                             else if append_fsync config = ''everysec'' then EVERY_SECOND else NEVER);
                          active_path = path_append append_directory active_filename
                      in (case log_open_error fs of
                            Some msg \<Rightarrow> Inl (''Cannot open AOF file '' @ CHR 0x27 # active_path @ CHR 0x27 # '': '' @ msg)
                          | None \<Rightarrow>
                              Inr \<lparr>path = active_path, policy = sync_policy, last_sync = now,
                                   file_bytes = log_bytes fs active_path, write_io = log_writes fs, write_calls = 0,
                                   sync_io = log_syncs fs, sync_calls = 0\<rparr>))))"

function read_commands_from :: "string \<Rightarrow> nat \<Rightarrow> command list \<Rightarrow> string + command list" where
  "read_commands_from contents position commands =
     (if length contents \<le> position then Inr commands
      else
        (case parse_command (drop position contents) of
           ParseResult command consumed \<Rightarrow>
             if consumed = 0 then Inl (''AOF parser made no progress at byte '' @ dec_of_nat position)
             else read_commands_from contents (position + consumed) (commands @ [command])
         | Incomplete \<Rightarrow> Inl (''Incomplete command in AOF file at byte '' @ dec_of_nat position)
         | ParseError _ msg \<Rightarrow>
             Inl (''Invalid command in AOF file at byte '' @ dec_of_nat position @ '': '' @ msg)))"
  by pat_completeness auto
termination
  by (relation "measure (\<lambda>(contents, position, _). length contents - position)") auto

declare read_commands_from.simps [simp del]

datatype log_read = LogCannotRead | LogBad | LogContents

definition read_commands :: "log_read \<Rightarrow> aof_file \<Rightarrow> string + command list" where
  "read_commands outcome f =
     (case outcome of
        LogCannotRead \<Rightarrow> Inl (''Cannot read AOF file '' @ CHR 0x27 # path f @ [CHR 0x27])
      | LogBad \<Rightarrow> Inl (''Failed while reading AOF file '' @ CHR 0x27 # path f @ [CHR 0x27])
      | LogContents \<Rightarrow> read_commands_from (file_bytes f) 0 [])"

definition sync :: "time_point \<Rightarrow> aof_file \<Rightarrow> aof_file \<times> (string + unit)" where
  "sync now f =
     (let f1 = f\<lparr>sync_calls := Suc (sync_calls f)\<rparr> in
      case sync_io f (sync_calls f) of
        Some msg \<Rightarrow> (f1, Inl (''Cannot sync AOF file '' @ CHR 0x27 # path f @ CHR 0x27 # '': '' @ msg))
      | None \<Rightarrow> (f1\<lparr>last_sync := now\<rparr>, Inr ()))"

text \<open>The loop over partial writes; a call writes at most what it is given.\<close>

function write_all :: "string \<Rightarrow> aof_file \<Rightarrow> aof_file \<times> (string + unit)" where
  "write_all payload f =
     (if payload = [] then (f, Inr ())
      else
        let f1 = f\<lparr>write_calls := Suc (write_calls f)\<rparr> in
        (case write_io f (write_calls f) of
           WriteError msg \<Rightarrow> (f1, Inl (''Cannot append to AOF file '' @ CHR 0x27 # path f @ CHR 0x27 # '': '' @ msg))
         | Wrote n \<Rightarrow>
             if n = 0 then (f1, Inl ''AOF write made no progress'')
             else write_all (drop n payload) (f1\<lparr>file_bytes := file_bytes f @ take n payload\<rparr>)))"
  by pat_completeness auto
termination
  by (relation "measure (\<lambda>(payload, _). length payload)") auto

declare write_all.simps [simp del]

text \<open>The clock is read behind the writes; the readings of one call are given by \<open>now\<close> and \<open>synced\<close>.\<close>

definition append_aof :: "time_point \<Rightarrow> time_point \<Rightarrow> string \<Rightarrow> aof_file \<Rightarrow> aof_file \<times> (string + unit)" where
  "append_aof now synced payload f =
     (case write_all payload f of
        (f1, Inl e) \<Rightarrow> (f1, Inl e)
      | (f1, Inr _) \<Rightarrow>
          if policy f1 = ALWAYS then sync synced f1
          else if policy f1 = EVERY_SECOND \<and> 1000000000 \<le> now - last_sync f1 then sync synced f1
          else (f1, Inr ()))"

section \<open>The manifest is read back\<close>

abbreviation spaceless :: "string \<Rightarrow> bool" where
  "spaceless s \<equiv> list_all (\<lambda>c. \<not> is_space c) s"

lemma words_from_spaceless: "spaceless word \<Longrightarrow> w \<in> set (words_from word s) \<Longrightarrow> spaceless w"
proof (induction word s rule: words_from.induct)
  case (2 word c s)
  then show ?case by (cases "is_space c"; cases "word = []") auto
qed (auto split: if_splits)

lemma words_from_append: "spaceless u \<Longrightarrow> words_from word (u @ s) = words_from (word @ u) s"
  by (induction u arbitrary: word) auto

lemma read_manifest_lines_spaceless:
  assumes "read_manifest_lines p ls e = Inr (Some x)" "\<forall>y. e = Some y \<longrightarrow> spaceless (manifest_filename y)"
  shows "spaceless (manifest_filename x)"
  using assms
proof (induction ls arbitrary: e)
  case (Cons l ls)
  from Cons.prems(1) obtain f q t ty where w: "words_from [] l = [''file'', f, ''seq'', q, ''type'', ty]"
    by (auto split: list.splits if_splits)
  then have "spaceless f" using words_from_spaceless [of "[]" f l] by simp
  with w Cons.prems have "\<exists>e'. read_manifest_lines p ls e' = Inr (Some x) \<and>
      (\<forall>y. e' = Some y \<longrightarrow> spaceless (manifest_filename y))"
    by (auto split: if_splits sum.splits option.splits)
  with Cons.IH show ?case by blast
qed simp

lemma text_lines_line: "CHR 0x0A \<notin> set l \<Longrightarrow> text_lines (l @ CHR 0x0A # s) = l # text_lines s"
  by (induction l) auto

lemma not_space_newline: "spaceless s \<Longrightarrow> CHR 0x0A \<notin> set s"
  by (auto simp: is_space_def list_all_iff)

lemma manifest_line_words:
  assumes "spaceless f" "f \<noteq> []"
  shows "words_from [] (''file '' @ f @ '' seq 1 type i'') = [''file'', f, ''seq'', ''1'', ''type'', ''i'']"
  using assms by (simp add: is_space_def words_from_append)

lemma parse_sequence_1: "parse_sequence ''1'' = Inr 1"
  by (simp add: parse_sequence_def from_chars_unsigned_def is_digit_def digits_value_def digit_val_def)

section \<open>Appending and reading\<close>

definition file_log :: "aof_file \<Rightarrow> command list \<Rightarrow> bool" where
  "file_log f cs \<longleftrightarrow> list_all sized cs \<and> file_bytes f = concat (map serialize_command cs)"

lemma sync_keeps: "sync now f = (f', r) \<Longrightarrow> file_bytes f' = file_bytes f"
  by (auto simp: sync_def Let_def split: option.splits)

lemma write_all_result:
  assumes "write_all payload f = (f', r)"
  obtains written where "prefix written payload" "file_bytes f' = file_bytes f @ written"
    "r = Inr () \<longleftrightarrow> written = payload" "policy f' = policy f" "last_sync f' = last_sync f"
    "sync_calls f' = sync_calls f" "sync_io f' = sync_io f" "path f' = path f"
proof -
  have "\<exists>written. prefix written payload \<and> file_bytes f' = file_bytes f @ written \<and>
      (r = Inr () \<longleftrightarrow> written = payload) \<and> policy f' = policy f \<and> last_sync f' = last_sync f \<and>
      sync_calls f' = sync_calls f \<and> sync_io f' = sync_io f \<and> path f' = path f"
    using assms
  proof (induction payload f rule: write_all.induct)
    case (1 payload f)
    show ?case
    proof (cases "payload = []")
      case True
      with "1.prems" show ?thesis by (auto simp: write_all.simps)
    next
      case False
      show ?thesis
      proof (cases "write_io f (write_calls f)")
        case (WriteError msg)
        with "1.prems" False show ?thesis
          by (intro exI [of _ "[]"]) (auto simp: write_all.simps [of payload])
      next
        case (Wrote n)
        show ?thesis
        proof (cases "n = 0")
          case True
          with "1.prems" False Wrote show ?thesis
            by (intro exI [of _ "[]"]) (auto simp: write_all.simps [of payload])
        next
          case nonzero: False
          let ?f1 = "f\<lparr>write_calls := Suc (write_calls f), file_bytes := file_bytes f @ take n payload\<rparr>"
          have rest: "write_all (drop n payload) ?f1 = (f', r)"
            using "1.prems" False Wrote nonzero by (simp add: write_all.simps [of payload])
          from "1.IH" [OF False refl Wrote nonzero] rest obtain w where
            w: "prefix w (drop n payload)" "file_bytes f' = file_bytes f @ take n payload @ w"
              "r = Inr () \<longleftrightarrow> w = drop n payload" "policy f' = policy f" "last_sync f' = last_sync f"
              "sync_calls f' = sync_calls f" "sync_io f' = sync_io f" "path f' = path f"
            by auto
          have "prefix (take n payload @ w) payload"
            using w(1) by (metis append_take_drop_id same_prefix_prefix)
          moreover have "take n payload @ w = payload \<longleftrightarrow> w = drop n payload"
            by (metis append_take_drop_id same_append_eq)
          ultimately show ?thesis using w by (intro exI [of _ "take n payload @ w"]) simp
        qed
      qed
    qed
  qed
  with that show thesis by blast
qed

lemma read_commands_from_log:
  assumes "list_all sized cs" "drop position contents = concat (map serialize_command cs) @ tail"
    "position \<le> length contents"
  shows "read_commands_from contents position acc =
    read_commands_from contents (length contents - length tail) (acc @ cs)"
  using assms
proof (induction cs arbitrary: position acc)
  case Nil
  then have "length contents - position = length tail"
    using length_drop [of position contents] by simp
  with Nil.prems(3) have "length contents - length tail = position" by simp
  then show ?case by simp
next
  case (Cons c cs)
  let ?n = "length (serialize_command c)"
  have c: "sized c" using Cons.prems(1) by simp
  have parsed: "parse_command (drop position contents) = ParseResult c ?n"
    unfolding Cons.prems(2) by (rule resp_stream.log_step(1) [OF c])
  have "drop ?n (drop position contents) = concat (map serialize_command cs) @ tail"
    unfolding Cons.prems(2) by (rule resp_stream.log_step(2) [OF c])
  then have next_part: "drop (position + ?n) contents = concat (map serialize_command cs) @ tail"
    by (simp add: add.commute)
  have "?n \<le> length (drop position contents)" "0 < ?n"
    using resp_stream.decode_progress [OF parsed] by simp_all
  with parsed next_part Cons.IH [of "position + ?n" "acc @ [c]"] Cons.prems(1,3) show ?case
    by (subst read_commands_from.simps) auto
qed

lemma read_commands_torn:
  assumes "list_all sized cs" "file_bytes f = concat (map serialize_command cs) @ tail"
  shows "read_commands LogContents f =
    read_commands_from (file_bytes f) (length (concat (map serialize_command cs))) cs"
  using read_commands_from_log [OF assms(1), of 0 "file_bytes f" tail "[]"] assms(2)
  by (simp add: read_commands_def)

lemma read_commands_log: "file_log f cs \<Longrightarrow> read_commands LogContents f = Inr cs"
  using read_commands_torn [of cs f "[]"] by (simp add: file_log_def read_commands_from.simps)

lemma append_aof_result:
  assumes "append_aof now synced payload f = (f', r)"
  obtains written where "prefix written payload" "file_bytes f' = file_bytes f @ written"
    "r = Inr () \<Longrightarrow> written = payload"
proof -
  obtain f1 r1 where w: "write_all payload f = (f1, r1)" by fastforce
  from write_all_result [OF w] obtain written where
    k: "prefix written payload" "file_bytes f1 = file_bytes f @ written" "r1 = Inr () \<longleftrightarrow> written = payload"
    by metis
  have "file_bytes f' = file_bytes f1" "r = Inr () \<Longrightarrow> r1 = Inr ()"
    using assms w sync_keeps [of synced f1]
    by (auto simp: append_aof_def split: sum.splits if_splits)
  with k that show thesis by auto
qed

lemma append_aof_log:
  assumes "file_log f cs" "sized c" "append_aof now synced (serialize_command c) f = (f', Inr ())"
  shows "file_log f' (cs @ [c])"
  using append_aof_result [OF assms(3)] assms(1,2) by (auto simp: file_log_def)

text \<open>Several appends in a row, each with its clock readings; the first error ends the run.\<close>

fun append_each :: "(time_point \<times> time_point \<times> command) list \<Rightarrow> aof_file \<Rightarrow> aof_file option" where
  "append_each [] f = Some f"
| "append_each ((now, synced, c) # jobs) f =
     (case append_aof now synced (serialize_command c) f of
        (f1, Inr _) \<Rightarrow> append_each jobs f1
      | (f1, Inl _) \<Rightarrow> None)"

lemma append_each_log:
  "append_each jobs f = Some f' \<Longrightarrow> file_log f cs \<Longrightarrow> list_all (\<lambda>(now, synced, c). sized c) jobs \<Longrightarrow>
   file_log f' (cs @ map (snd \<circ> snd) jobs)"
proof (induction jobs f arbitrary: cs rule: append_each.induct)
  case (2 now synced c jobs f)
  from "2.prems"(1) obtain f1 where step: "append_aof now synced (serialize_command c) f = (f1, Inr ())"
    and rest: "append_each jobs f1 = Some f'"
    by (auto split: prod.splits sum.splits)
  have "file_log f1 (cs @ [c])" using append_aof_log [OF "2.prems"(2) _ step] "2.prems"(3) by simp
  from "2.IH" [OF step [symmetric] refl rest this] "2.prems"(3) show ?case by simp
qed simp

section \<open>The guarantees of the append-only file\<close>

text \<open>
  C28: What was appended is what is read. If a file holds the log of some commands and a series of appends,
  each of one serialized command, reports success throughout, then reading the file gives the earlier
  commands followed by the appended ones, in order, whatever the sizes of the partial writes were.
\<close>

theorem appended_commands_are_read:
  assumes "file_log f cs" "list_all (\<lambda>(now, synced, c). sized c) jobs" "append_each jobs f = Some f'"
  shows "read_commands LogContents f' = Inr (cs @ map (snd \<circ> snd) jobs)"
  by (rule read_commands_log, rule append_each_log [OF assms(3,1,2)])

definition small_writes_file :: aof_file where
  "small_writes_file =
     \<lparr>path = ''a'', policy = ALWAYS, last_sync = 0, file_bytes = [], write_io = (\<lambda>i. Wrote 8), write_calls = 0,
      sync_io = (\<lambda>i. None), sync_calls = 0\<rparr>"

lemma serialize_ping:
  "serialize_command [''PING''] =
   ''*1'' @ [CHR 0x0D, CHR 0x0A] @ ''$4'' @ [CHR 0x0D, CHR 0x0A] @ ''PING'' @ [CHR 0x0D, CHR 0x0A]"
  by code_simp

theorem appended_commands_are_read_witness:
  "map_option (read_commands LogContents) (append_each [(5, 6, [''PING'']), (7, 8, [''PING''])] small_writes_file) =
   Some (Inr [[''PING''], [''PING'']])"
proof -
  have log: "file_log small_writes_file []" by (simp add: file_log_def small_writes_file_def)
  have sized: "list_all (\<lambda>(now, synced, c). sized c) [(5 :: int, 6 :: int, [''PING'']), (7, 8, [''PING''])]"
    by (simp add: sized_def)
  obtain f' where run: "append_each [(5, 6, [''PING'']), (7, 8, [''PING''])] small_writes_file = Some f'"
    by (simp add: append_aof_def sync_def small_writes_file_def write_all.simps serialize_ping Let_def)
  from appended_commands_are_read [OF log sized run] run show ?thesis by simp
qed

text \<open>
  C29: A failed append is never mistaken for something else. It leaves the file in one of three states: no
  byte was written and the earlier log is read back; every byte was written (only the sync failed) and the
  log with the new command is read back; or a part of the command was written, and then reading that
  file fails with an incomplete command at the byte where the torn command starts, since nothing removes
  the torn part.
\<close>

theorem failed_append_outcomes:
  assumes "file_log f cs" "sized c" "append_aof now synced (serialize_command c) f = (f', Inl e)"
  shows "(file_bytes f' = file_bytes f \<and> read_commands LogContents f' = Inr cs) \<or>
    (file_bytes f' = file_bytes f @ serialize_command c \<and> read_commands LogContents f' = Inr (cs @ [c])) \<or>
    (\<exists>torn. torn \<noteq> [] \<and> strict_prefix torn (serialize_command c) \<and> file_bytes f' = file_bytes f @ torn \<and>
       read_commands LogContents f' = Inl (''Incomplete command in AOF file at byte '' @ dec_of_nat (length (file_bytes f))))"
proof -
  from append_aof_result [OF assms(3)] obtain written where
    w: "prefix written (serialize_command c)" "file_bytes f' = file_bytes f @ written" by metis
  have bytes: "list_all sized cs" "file_bytes f = concat (map serialize_command cs)"
    using assms(1) by (simp_all add: file_log_def)
  consider "written = []" | "written = serialize_command c" | "written \<noteq> []" "strict_prefix written (serialize_command c)"
    using w(1) by (auto simp: strict_prefix_def)
  then show ?thesis
  proof cases
    case 1
    with w bytes have "file_log f' cs" by (simp add: file_log_def)
    with 1 w read_commands_log show ?thesis by simp
  next
    case 2
    with w bytes assms(2) have "file_log f' (cs @ [c])" by (simp add: file_log_def)
    with 2 w read_commands_log show ?thesis by simp
  next
    case 3
    have "parse_command written = Incomplete" using resp_stream.decode_prefix [OF assms(2) 3(2)] .
    then have "read_commands LogContents f' =
        Inl (''Incomplete command in AOF file at byte '' @ dec_of_nat (length (file_bytes f)))"
      using read_commands_torn [of cs f' written] w(2) bytes 3(1)
      by (simp add: read_commands_from.simps [of "_ @ written"])
    with 3 w show ?thesis by blast
  qed
qed

definition full_disk_file :: aof_file where
  "full_disk_file =
     \<lparr>path = ''a'', policy = NEVER, last_sync = 0, file_bytes = [],
      write_io = (\<lambda>i. if i = 0 then Wrote 3 else WriteError ''No space left on device''), write_calls = 0,
      sync_io = (\<lambda>i. None), sync_calls = 0\<rparr>"

theorem failed_append_outcomes_witness:
  "read_commands LogContents (fst (append_aof 5 6 (serialize_command [''PING'']) full_disk_file)) =
   Inl (''Incomplete command in AOF file at byte '' @ dec_of_nat 0)"
proof -
  have log: "file_log full_disk_file []" by (simp add: file_log_def full_disk_file_def)
  have sized: "sized [''PING'']" by (simp add: sized_def)
  obtain f' e where run: "append_aof 5 6 (serialize_command [''PING'']) full_disk_file = (f', Inl e)"
    and bytes: "file_bytes f' = ''*1'' @ [CHR 0x0D]"
    by (simp add: append_aof_def sync_def full_disk_file_def write_all.simps serialize_ping Let_def)
  from failed_append_outcomes [OF log sized run] bytes run show ?thesis
    by (auto simp: full_disk_file_def serialize_ping)
qed

text \<open>
  The three sync policies. An append that reports success has, with policy \<open>ALWAYS\<close>, ended with a
  successful sync of everything written; with \<open>EVERY_SECOND\<close> it has either done so or the last successful
  sync was less than a second old when the clock was read; with \<open>NEVER\<close> it has not called sync at all. The
  time of the last sync is only moved by a successful sync.
\<close>

theorem sync_policies:
  assumes "append_aof now synced payload f = (f', Inr ())"
  shows "(case policy f of
      ALWAYS \<Rightarrow> sync_io f (sync_calls f) = None \<and> sync_calls f' = Suc (sync_calls f) \<and> last_sync f' = synced
    | EVERY_SECOND \<Rightarrow>
        if now - last_sync f < 1000000000 then sync_calls f' = sync_calls f \<and> last_sync f' = last_sync f
        else sync_io f (sync_calls f) = None \<and> sync_calls f' = Suc (sync_calls f) \<and> last_sync f' = synced
    | NEVER \<Rightarrow> sync_calls f' = sync_calls f \<and> last_sync f' = last_sync f) \<and>
    file_bytes f' = file_bytes f @ payload \<and> policy f' = policy f"
proof -
  obtain f1 r1 where w: "write_all payload f = (f1, r1)" by fastforce
  from write_all_result [OF w] obtain written where
    k: "file_bytes f1 = file_bytes f @ written" "r1 = Inr () \<longleftrightarrow> written = payload" "policy f1 = policy f"
      "last_sync f1 = last_sync f" "sync_calls f1 = sync_calls f" "sync_io f1 = sync_io f"
    by metis
  have "r1 = Inr ()" using assms w by (auto simp: append_aof_def split: sum.splits)
  with assms w k show ?thesis
    by (auto simp: append_aof_def sync_def Let_def split: sync_policy.splits if_splits option.splits)
qed

theorem sync_policies_witness:
  "sync_calls (fst (append_aof 5 6 (serialize_command [''PING'']) small_writes_file)) = 1 \<and>
   last_sync (fst (append_aof 5 6 (serialize_command [''PING'']) small_writes_file)) = 6"
proof -
  obtain f' where run: "append_aof 5 6 (serialize_command [''PING'']) small_writes_file = (f', Inr ())"
    by (simp add: append_aof_def sync_def small_writes_file_def write_all.simps serialize_ping Let_def)
  from sync_policies [OF run] run show ?thesis by (simp add: small_writes_file_def)
qed

text \<open>
  C30: The manifest names the same active file at the next start exactly when the configured file name holds
  no white space: for an accepted file name, reading a manifest that was just created gives the name under
  which the active file was created if and only if there is no white space in the name.
\<close>

theorem manifest_round_trip:
  assumes "is_valid_database_filename (append_filename config)"
    and "create_manifest p WriteDone config = Inr (active_filename, manifest)"
  shows "read_active_filename p (ManifestText manifest) = Inr active_filename \<longleftrightarrow>
    \<not> list_ex is_space (append_filename config)"
proof
  have a: "active_filename = append_filename config @ ''.1.incr.aof''"
    and m: "manifest = (''file '' @ active_filename @ '' seq 1 type i'') @ [CHR 0x0A]"
    using assms(2) by (auto simp: create_manifest_def)
  show "\<not> list_ex is_space (append_filename config)"
    if "read_active_filename p (ManifestText manifest) = Inr active_filename"
  proof -
    from that obtain x where "read_manifest_lines p (text_lines manifest) None = Inr (Some x)"
      "manifest_filename x = active_filename"
      by (auto simp: read_active_filename_def split: sum.splits option.splits)
    then have "spaceless active_filename" using read_manifest_lines_spaceless by fastforce
    with a show ?thesis by (auto simp: list_all_iff list_ex_iff)
  qed
  show "read_active_filename p (ManifestText manifest) = Inr active_filename"
    if "\<not> list_ex is_space (append_filename config)"
  proof -
    let ?line = "''file '' @ active_filename @ '' seq 1 type i''"
    from that have safe: "spaceless active_filename"
      unfolding a by (auto simp: list_all_iff list_ex_iff is_space_def)
    then have "CHR 0x0A \<notin> set ?line" using not_space_newline [of active_filename] by simp
    then have one: "text_lines manifest = [?line]" using text_lines_line [of ?line "[]"] m by simp
    have "is_safe_manifest_filename active_filename"
      using assms(1) unfolding a
      by (cases "append_filename config")
        (auto simp: is_safe_manifest_filename_def is_valid_database_filename_def has_parent_path_def is_absolute_def)
    moreover have "words_from [] ?line = [''file'', active_filename, ''seq'', ''1'', ''type'', ''i'']"
      using manifest_line_words [OF safe] a by simp
    ultimately have "read_manifest_lines p (text_lines manifest) None =
        Inr (Some \<lparr>manifest_filename = active_filename, manifest_sequence = 1\<rparr>)"
      unfolding one read_manifest_lines.simps by (simp del: words_from.simps append.simps append_Cons add: parse_sequence_1)
    then show ?thesis by (simp add: read_active_filename_def)
  qed
qed

theorem manifest_round_trip_witness:
  "read_active_filename ''m'' (ManifestText (''file appendonly.aof.1.incr.aof seq 1 type i'' @ [CHR 0x0A])) =
     Inr ''appendonly.aof.1.incr.aof'' \<and>
   read_active_filename ''m'' (ManifestText (''file my log.1.incr.aof seq 1 type i'' @ [CHR 0x0A])) \<noteq>
     Inr ''my log.1.incr.aof''"
proof -
  let ?c = "config_aof default_config" and ?d = "(config_aof default_config)\<lparr>append_filename := ''my log''\<rparr>"
  have c: "is_valid_database_filename (append_filename ?c)" "is_valid_database_filename (append_filename ?d)"
    by (simp_all add: is_valid_database_filename_def has_parent_path_def default_config_def)
  have m: "create_manifest ''m'' WriteDone ?c =
      Inr (''appendonly.aof.1.incr.aof'', ''file appendonly.aof.1.incr.aof seq 1 type i'' @ [CHR 0x0A])"
    "create_manifest ''m'' WriteDone ?d =
      Inr (''my log.1.incr.aof'', ''file my log.1.incr.aof seq 1 type i'' @ [CHR 0x0A])"
    by (simp_all add: create_manifest_def default_config_def)
  have "\<not> list_ex is_space (append_filename ?c)" "list_ex is_space (append_filename ?d)"
    by (simp_all add: is_space_def default_config_def)
  with manifest_round_trip [OF c(1) m(1)] manifest_round_trip [OF c(2) m(2)] show ?thesis by blast
qed

end
