(* ===== verification/Processor_State.thy ===== *)
theory Processor_State
  imports Replay Sessions Rdb Aof "HOL-Library.Monad_Syntax" "HOL-Library.List_Lexorder" "HOL-Library.Char_ord"
begin

text \<open>
  The state of the command processor (\<open>command_processor.hpp\<close>) and the operations on it that several
  commands share: answering a task, appending to the log, publishing a replication frame.

  \<^item> A task carries a promise. A promise is a number here, and \<open>fulfilled\<close> records which promises were
    given which value, in order. The futures that callers hold refer to promises by number.
  \<^item> Sessions are shared with the connections: the processor holds references, and a session is
    available as long as its connection keeps it, that is, as long as it is in \<open>pubsub_heap\<close> or
    \<open>replica_heap\<close>. Looking a reference up there is \<open>std::weak_ptr::lock\<close>.
  \<^item> What the machine supplies during a run (clock readings, traversal orders of hash tables, the digest
    of the cryptographic library) is the field \<open>outside\<close>. The \<open>i\<close>-th call that reads a clock uses the
    readings \<open>envs (outside p) i\<close>; \<open>calls\<close> counts these calls.
\<close>

section \<open>Tasks\<close>

datatype replication_role = ROLE_MASTER | ROLE_REPLICA

datatype command_source = CLIENT | MASTER | AOF

type_synonym promise = nat
type_synonym ref = nat

record client_state =
  authenticated :: bool
  session_ref :: ref

record task =
  task_client :: client_id
  task_command :: command
  task_source :: command_source
  replication_bytes :: nat
  task_promise :: promise

record pending_list_pop =
  pop_task :: task
  pending_key :: key
  pop_deadline :: "time_point option"

record pending_stream_read =
  read_task :: task
  pending_requests :: "read_request list"
  read_deadline :: "time_point option"

record pending_wait =
  wait_task :: task
  pending_replicas :: nat
  target_offset :: u64
  wait_deadline :: "time_point option"

record transaction_state =
  transaction_commands :: "command list"
  has_error :: bool

record replication_state =
  role :: replication_role
  replication_id :: string
  offset :: u64

record user =
  no_password :: bool
  password_hashes :: "string set"

record replica_registration =
  registration_id :: string
  registration_offset :: u64
  registration_session :: ref

datatype processor_task =
    CommandTask task
  | RegisterReplicaTask client_id promise
  | InstallReplicationStateTask string u64 promise
  | GetReplicationOffsetTask promise
  | AcknowledgeReplicaTask client_id u64 promise
  | LoadRdbTask "string_entry list" promise
  | InitializeAofTask aof_file "command list" promise
  | RegisterClientTask client_id ref promise
  | UnregisterClientTask client_id promise

datatype result =
    Responded response
  | Completed
  | OffsetIs u64
  | Registered replica_registration
  | AofInitialized "string + unit"

section \<open>The processor\<close>

record world =
  envs :: "nat \<Rightarrow> env"
  evp_digest :: "string \<Rightarrow> string option"
  channel_order :: "string set \<Rightarrow> string list"
  subscriber_order :: "client_id set \<Rightarrow> client_id list"
  watch_order :: "(key \<rightharpoonup> u64) \<Rightarrow> key list"

record processor =
  database :: database
  default_user :: user
  processor_rdb :: rdb_config
  processor_aof :: aof_config
  aof_log :: "aof_file option"
  replication :: replication_state
  tasks :: "processor_task list"
  pending_list_pops :: "pending_list_pop list"
  pending_stream_reads :: "pending_stream_read list"
  pending_waits :: "pending_wait list"
  replication_backlog :: "replication_frame list"
  replica_sessions :: "ref list"
  replica_acknowledged_offsets :: "client_id \<rightharpoonup> u64"
  client_write_offsets :: "client_id \<rightharpoonup> u64"
  transactions :: "client_id \<rightharpoonup> transaction_state"
  watched_keys :: "client_id \<rightharpoonup> (key \<rightharpoonup> u64)"
  clients :: "client_id \<rightharpoonup> client_state"
  channel_subscribers :: "string \<rightharpoonup> client_id set"
  client_subscriptions :: "client_id \<rightharpoonup> string set"
  pubsub_heap :: "ref \<rightharpoonup> pubsub_session"
  replica_heap :: "ref \<rightharpoonup> replica_session"
  next_ref :: ref
  fulfilled :: "(promise \<times> result) list"
  next_promise :: promise
  outside :: world
  calls :: nat

definition make_default_acl_user :: "string option \<Rightarrow> user" where
  "make_default_acl_user password_hash =
     \<lparr>no_password = (password_hash = None), password_hashes = set_option password_hash\<rparr>"

text \<open>The replication ID is forty random hexadecimal digits; the digits drawn are an argument.\<close>

definition generate_replication_id :: "(nat \<Rightarrow> nat) \<Rightarrow> string" where
  "generate_replication_id distribution = map (\<lambda>i. hexadecimal ! (distribution i mod 16)) [0..<40]"

definition new_processor ::
  "world \<Rightarrow> (nat \<Rightarrow> nat) \<Rightarrow> replica_config option \<Rightarrow> rdb_config \<Rightarrow> aof_config \<Rightarrow> string option \<Rightarrow> processor" where
  "new_processor w distribution master rdb aof password_hash =
     \<lparr>database = empty_database, default_user = make_default_acl_user password_hash,
      processor_rdb = rdb, processor_aof = aof, aof_log = None,
      replication =
        \<lparr>role = (if master = None then ROLE_MASTER else ROLE_REPLICA),
         replication_id = generate_replication_id distribution, offset = 0\<rparr>,
      tasks = [], pending_list_pops = [], pending_stream_reads = [], pending_waits = [],
      replication_backlog = [], replica_sessions = [],
      replica_acknowledged_offsets = Map.empty, client_write_offsets = Map.empty,
      transactions = Map.empty, watched_keys = Map.empty, clients = Map.empty,
      channel_subscribers = Map.empty, client_subscriptions = Map.empty,
      pubsub_heap = Map.empty, replica_heap = Map.empty, next_ref = 0,
      fulfilled = [], next_promise = 0, outside = w, calls = 0\<rparr>"

definition get_replication_role :: "processor \<Rightarrow> string" where
  "get_replication_role p = (if role (replication p) = ROLE_MASTER then ''master'' else ''slave'')"

section \<open>Shared operations\<close>

definition current_env :: "processor \<Rightarrow> env" where
  "current_env p = envs (outside p) (calls p)"

definition tick :: "processor \<Rightarrow> processor" where
  "tick p = p\<lparr>calls := Suc (calls p)\<rparr>"

definition fulfil :: "promise \<Rightarrow> result \<Rightarrow> processor \<Rightarrow> processor" where
  "fulfil q r p = p\<lparr>fulfilled := fulfilled p @ [(q, r)]\<rparr>"

abbreviation respond :: "task \<Rightarrow> response \<Rightarrow> processor \<Rightarrow> processor" where
  "respond t r p \<equiv> fulfil (task_promise t) (Responded r) p"

definition run_dispatch :: "command \<Rightarrow> processor \<Rightarrow> (processor \<times> response) option" where
  "run_dispatch command p =
     do {
       (db, r) \<leftarrow> dispatch (current_env p) (database p) command;
       Some (tick (p\<lparr>database := db\<rparr>), r)
     }"

text \<open>The elements of a hash map of sets, where an absent key stands for the empty set.\<close>

definition members :: "('k \<rightharpoonup> 'v set) \<Rightarrow> 'k \<Rightarrow> 'v set" where
  "members m k = (case m k of None \<Rightarrow> {} | Some S \<Rightarrow> S)"

text \<open>Storing a set, with the entry erased when the set is empty.\<close>

definition store_set :: "'k \<Rightarrow> 'v set \<Rightarrow> ('k \<rightharpoonup> 'v set) \<Rightarrow> ('k \<rightharpoonup> 'v set)" where
  "store_set k S m = m(k := if S = {} then None else Some S)"

definition append_log :: "string \<Rightarrow> processor \<Rightarrow> processor \<times> (string + unit)" where
  "append_log bytes p =
     (case aof_log p of
        None \<Rightarrow> (p, Inr ())
      | Some f \<Rightarrow>
          (case append_aof (steady_clock (current_env p) 0) (steady_clock (current_env p) 1) bytes f of
             (f', r) \<Rightarrow> (tick (p\<lparr>aof_log := Some f'\<rparr>), r)))"

fun enqueue_all :: "replication_frame \<Rightarrow> ref list \<Rightarrow> (ref \<rightharpoonup> replica_session) \<Rightarrow> (ref \<rightharpoonup> replica_session)" where
  "enqueue_all frame [] heap = heap"
| "enqueue_all frame (r # rs) heap =
     enqueue_all frame rs (heap(r := map_option (replica_enqueue frame) (heap r)))"

definition append_replication_frame :: "string \<Rightarrow> processor \<Rightarrow> processor" where
  "append_replication_frame bytes p =
     (let new_offset = offset (replication p) + of_nat (length bytes);
          frame = \<lparr>payload = bytes, ending_offset = new_offset\<rparr>;
          sessions = filter (\<lambda>r. replica_heap p r \<noteq> None) (replica_sessions p)
      in p\<lparr>replication := (replication p)\<lparr>offset := new_offset\<rparr>,
           replication_backlog := replication_backlog p @ [frame],
           replica_sessions := sessions,
           replica_heap := enqueue_all frame sessions (replica_heap p)\<rparr>)"

definition append_client_replication_frame :: "client_id \<Rightarrow> string \<Rightarrow> processor \<Rightarrow> processor" where
  "append_client_replication_frame client bytes p =
     (let p1 = append_replication_frame bytes p
      in p1\<lparr>client_write_offsets := (client_write_offsets p1)(client \<mapsto> offset (replication p1))\<rparr>)"

definition persist_blocking_pop :: "task \<Rightarrow> key \<Rightarrow> processor \<Rightarrow> processor \<times> (string + unit)" where
  "persist_blocking_pop t k p =
     (let bytes = serialize_command [''LPOP'', k];
          (p1, logged) = (if aof_log p \<noteq> None \<and> task_source t \<noteq> AOF then append_log bytes p else (p, Inr ()))
      in case logged of
           Inl e \<Rightarrow> (p1, Inl e)
         | Inr _ \<Rightarrow>
             if role (replication p1) = ROLE_MASTER \<and> task_source t = CLIENT
             then (append_client_replication_frame (task_client t) bytes p1, Inr ())
             else (p1, Inr ()))"

end
