(* ===== verification/Processor_Clients.thy ===== *)
theory Processor_Clients
  imports Processor_State
begin

text \<open>
  The commands of the processor that concern clients rather than the store: publish/subscribe, the
  access control list and authentication (\<open>command_processor.cpp\<close>, \<open>acl.hpp\<close>), with the invariant of
  the two subscription tables.
\<close>

section \<open>Publish/subscribe\<close>

text \<open>The session of a client, if the client is registered and its connection still exists.\<close>

definition lock_session :: "client_id \<Rightarrow> processor \<Rightarrow> (ref \<times> pubsub_session) option" where
  "lock_session client p =
     do {
       c \<leftarrow> clients p client;
       session \<leftarrow> pubsub_heap p (session_ref c);
       Some (session_ref c, session)
     }"

definition erase_client :: "client_id \<Rightarrow> processor \<Rightarrow> processor" where
  "erase_client client p = p\<lparr>clients := (clients p)(client := None)\<rparr>"

definition send_frame :: "ref \<Rightarrow> pubsub_session \<Rightarrow> string \<Rightarrow> processor \<Rightarrow> processor \<times> (string + unit)" where
  "send_frame r session frame p =
     (case session_enqueue frame session of
        (session', result) \<Rightarrow> (p\<lparr>pubsub_heap := (pubsub_heap p)(r \<mapsto> session')\<rparr>, result))"

definition subscription_reply :: "string \<Rightarrow> response \<Rightarrow> nat \<Rightarrow> string" where
  "subscription_reply kind channel count =
     serialize_response (ResponseArray [BulkString kind, channel, Integer (int count)])"

fun subscribe_loop :: "client_id \<Rightarrow> string list \<Rightarrow> processor \<Rightarrow> string \<Rightarrow> processor \<times> string" where
  "subscribe_loop client [] p bytes = (p, bytes)"
| "subscribe_loop client (channel # channels) p bytes =
     (let subscriptions = insert channel (members (client_subscriptions p) client)
      in subscribe_loop client channels
           (p\<lparr>client_subscriptions := (client_subscriptions p)(client \<mapsto> subscriptions),
              channel_subscribers :=
                (channel_subscribers p)(channel \<mapsto> insert client (members (channel_subscribers p) channel))\<rparr>)
           (bytes @ subscription_reply ''subscribe'' (BulkString channel) (card subscriptions)))"

definition acknowledge :: "ref \<Rightarrow> pubsub_session \<Rightarrow> string \<Rightarrow> processor \<Rightarrow> processor \<times> response" where
  "acknowledge r session bytes p =
     (case send_frame r session bytes p of
        (p', Inl e) \<Rightarrow> (p', SimpleError (''ERR failed to queue Pub/Sub acknowledgement: '' @ e))
      | (p', Inr _) \<Rightarrow> (p', NoResponse))"

definition subscribe :: "client_id \<Rightarrow> command \<Rightarrow> processor \<Rightarrow> processor \<times> response" where
  "subscribe client command p =
     (if length command < 2 then (p, SimpleError ''ERR wrong number of arguments for 'subscribe' command'')
      else if clients p client = None then (p, SimpleError ''ERR Pub/Sub session is not registered'')
      else
        (case lock_session client p of
           None \<Rightarrow> (erase_client client p, SimpleError ''ERR Pub/Sub session is no longer available'')
         | Some (r, session) \<Rightarrow>
             (case subscribe_loop client (tl command) p [] of
                (p', bytes) \<Rightarrow> acknowledge r session bytes p')))"

definition remove_subscription :: "client_id \<Rightarrow> string \<Rightarrow> processor \<Rightarrow> processor \<times> nat" where
  "remove_subscription client channel p =
     (case client_subscriptions p client of
        None \<Rightarrow> (p, 0)
      | Some subscriptions \<Rightarrow>
          let p1 =
                (if channel \<in> subscriptions then
                   (case channel_subscribers p channel of
                      None \<Rightarrow> p
                    | Some subscribers \<Rightarrow>
                        p\<lparr>channel_subscribers := store_set channel (subscribers - {client}) (channel_subscribers p)\<rparr>)
                 else p);
              remaining = subscriptions - {channel}
          in (p1\<lparr>client_subscriptions := store_set client remaining (client_subscriptions p1)\<rparr>, card remaining))"

fun unsubscribe_loop :: "client_id \<Rightarrow> string list \<Rightarrow> processor \<Rightarrow> string \<Rightarrow> processor \<times> string" where
  "unsubscribe_loop client [] p bytes = (p, bytes)"
| "unsubscribe_loop client (channel # channels) p bytes =
     (case remove_subscription client channel p of
        (p', remaining) \<Rightarrow>
          unsubscribe_loop client channels p'
            (bytes @ subscription_reply ''unsubscribe'' (BulkString channel) remaining))"

definition unsubscribe :: "client_id \<Rightarrow> command \<Rightarrow> processor \<Rightarrow> processor \<times> response" where
  "unsubscribe client command p =
     (if clients p client = None then (p, SimpleError ''ERR Pub/Sub session is not registered'')
      else
        (case lock_session client p of
           None \<Rightarrow> (erase_client client p, SimpleError ''ERR Pub/Sub session is no longer available'')
         | Some (r, session) \<Rightarrow>
             if length command = 1 then
               (if members (client_subscriptions p) client = {}
                then acknowledge r session (subscription_reply ''unsubscribe'' NullBulkString 0) p
                else
                  (case unsubscribe_loop client
                          (channel_order (outside p) (members (client_subscriptions p) client)) p [] of
                     (p', bytes) \<Rightarrow> acknowledge r session bytes p'))
             else
               (case unsubscribe_loop client (tl command) p [] of
                  (p', bytes) \<Rightarrow> acknowledge r session bytes p')))"

text \<open>A subscriber whose connection is gone is dropped from the channel and from the registered clients.\<close>

definition drop_subscriber :: "string \<Rightarrow> client_id \<Rightarrow> processor \<Rightarrow> processor" where
  "drop_subscriber channel client p =
     (let p1 =
        (case client_subscriptions p client of
           None \<Rightarrow> p
         | Some channels \<Rightarrow>
             p\<lparr>client_subscriptions := store_set client (channels - {channel}) (client_subscriptions p)\<rparr>)
      in erase_client client
           (p1\<lparr>channel_subscribers :=
                (channel_subscribers p1)(channel \<mapsto> members (channel_subscribers p1) channel - {client})\<rparr>))"

fun publish_loop :: "string \<Rightarrow> string \<Rightarrow> client_id list \<Rightarrow> processor \<Rightarrow> int \<Rightarrow> processor \<times> int" where
  "publish_loop channel frame [] p recipients = (p, recipients)"
| "publish_loop channel frame (client # subscribers) p recipients =
     (case lock_session client p of
        None \<Rightarrow> publish_loop channel frame subscribers (drop_subscriber channel client p) recipients
      | Some (r, session) \<Rightarrow>
          (case send_frame r session frame p of
             (p', result) \<Rightarrow>
               publish_loop channel frame subscribers p'
                 (if result = Inr () then recipients + 1 else recipients)))"

definition publish :: "command \<Rightarrow> processor \<Rightarrow> processor \<times> response" where
  "publish command p =
     (if length command \<noteq> 3 then (p, SimpleError ''ERR wrong number of arguments for 'publish' command'')
      else
        (case channel_subscribers p (command ! 1) of
           None \<Rightarrow> (p, Integer 0)
         | Some subscribers \<Rightarrow>
             (case publish_loop (command ! 1) (serialize_response (Array [''message'', command ! 1, command ! 2]))
                     (subscriber_order (outside p) subscribers) p 0 of
                (p', recipients) \<Rightarrow>
                  (p'\<lparr>channel_subscribers :=
                       store_set (command ! 1) (members (channel_subscribers p') (command ! 1)) (channel_subscribers p')\<rparr>,
                   Integer recipients))))"

definition enqueue_pubsub_response :: "client_id \<Rightarrow> response \<Rightarrow> processor \<Rightarrow> processor \<times> (string + unit)" where
  "enqueue_pubsub_response client response p =
     (if clients p client = None then (p, Inl ''Pub/Sub session is not registered'')
      else
        (case lock_session client p of
           None \<Rightarrow> (erase_client client p, Inl ''Pub/Sub session is no longer available'')
         | Some (r, session) \<Rightarrow> send_frame r session (serialize_response response) p))"

section \<open>Access control\<close>

definition noauth :: response where
  "noauth = SimpleError ''NOAUTH Authentication required.''"

definition acl_whoami :: "client_id \<Rightarrow> command \<Rightarrow> processor \<Rightarrow> response" where
  "acl_whoami client command p =
     (if length command \<noteq> 2 then SimpleError ''ERR wrong number of arguments for 'acl|whoami' command''
      else
        (case clients p client of
           None \<Rightarrow> noauth
         | Some c \<Rightarrow> if authenticated c then BulkString ''default'' else noauth))"

definition acl_getuser :: "command \<Rightarrow> processor \<Rightarrow> response" where
  "acl_getuser command p =
     (if length command \<noteq> 3 then SimpleError ''ERR wrong number of arguments for 'acl|getuser' command''
      else if command ! 2 \<noteq> ''default'' then NullArray
      else
        ResponseArray
          [BulkString ''flags'',
           Array ([''on'', ''allkeys'', ''allchannels'', ''allcommands''] @
             (if no_password (default_user p) then [''nopass''] else [])),
           BulkString ''passwords'', Array (sorted_list_of_set (password_hashes (default_user p))),
           BulkString ''commands'', BulkString ''+@all'',
           BulkString ''keys'', BulkString ''~*'',
           BulkString ''channels'', BulkString ''&*'',
           BulkString ''selectors'', EmptyArray])"

fun acl_rules :: "(string \<Rightarrow> string option) \<Rightarrow> string list \<Rightarrow> user \<Rightarrow> response + user" where
  "acl_rules digest [] u = Inr u"
| "acl_rules digest (rule # rules) u =
     (if rule = ''nopass'' then acl_rules digest rules \<lparr>no_password = True, password_hashes = {}\<rparr>
      else if 1 < length rule \<and> hd rule = CHR ''>'' then
        (case sha256 digest (tl rule) of
           Inl e \<Rightarrow> Inl (SimpleError (''ERR failed to hash ACL password: '' @ e))
         | Inr h \<Rightarrow> acl_rules digest rules \<lparr>no_password = False, password_hashes = insert h (password_hashes u)\<rparr>)
      else Inl (SimpleError (''ERR unsupported ACL rule: '' @ rule)))"

definition acl_setuser :: "command \<Rightarrow> processor \<Rightarrow> processor \<times> response" where
  "acl_setuser command p =
     (if length command < 3 then (p, SimpleError ''ERR wrong number of arguments for 'acl|setuser' command'')
      else if command ! 2 \<noteq> ''default'' then (p, SimpleError ''ERR only the default ACL user is supported'')
      else
        (case acl_rules (evp_digest (outside p)) (drop 3 command) (default_user p) of
           Inl e \<Rightarrow> (p, e)
         | Inr u \<Rightarrow> (p\<lparr>default_user := u\<rparr>, SimpleString ''OK'')))"

definition process_acl_command :: "client_id \<Rightarrow> command \<Rightarrow> processor \<Rightarrow> processor \<times> response" where
  "process_acl_command client command p =
     (if length command < 2 then (p, SimpleError ''ERR wrong number of arguments for 'acl' command'')
      else if command ! 1 = ''WHOAMI'' then (p, acl_whoami client command p)
      else if command ! 1 = ''GETUSER'' then (p, acl_getuser command p)
      else if command ! 1 = ''SETUSER'' then acl_setuser command p
      else (p, SimpleError ''ERR unknown ACL subcommand''))"

definition wrong_password :: response where
  "wrong_password = SimpleError ''WRONGPASS invalid username-password pair or user is disabled.''"

definition authenticate :: "client_id \<Rightarrow> command \<Rightarrow> processor \<Rightarrow> processor \<times> response" where
  "authenticate client command p =
     (if length command \<noteq> 2 \<and> length command \<noteq> 3
      then (p, SimpleError ''ERR wrong number of arguments for 'auth' command'')
      else
        let username = (if length command = 2 then ''default'' else command ! 1);
            password = (if length command = 2 then command ! 1 else command ! 2)
        in (case clients p client of
              None \<Rightarrow> (p, SimpleError ''ERR client connection is not registered'')
            | Some c \<Rightarrow>
                let accept = (p\<lparr>clients := (clients p)(client \<mapsto> c\<lparr>authenticated := True\<rparr>)\<rparr>, SimpleString ''OK'')
                in if username \<noteq> ''default'' then (p, wrong_password)
                   else if no_password (default_user p) then accept
                   else
                     (case sha256 (evp_digest (outside p)) password of
                        Inl e \<Rightarrow> (p, SimpleError (''ERR failed to hash authentication password: '' @ e))
                      | Inr h \<Rightarrow> if h \<in> password_hashes (default_user p) then accept else (p, wrong_password))))"

end
