(* ===== verification/Processor.thy ===== *)
theory Processor
  imports Processor_Clients
begin

text \<open>
  The command processor (\<open>command_processor.cpp\<close>): transactions, the dispatch of one command, blocking
  commands with their retries and deadlines, the other tasks, and the worker's loop. One iteration of
  the loop is one step; the worker is the only thread that touches this state, apart from the task queue
  (to which other threads append) and the sessions (which connections drain).
\<close>

section \<open>Transactions\<close>

text \<open>The revisions are compared in the order in which the hash table is traversed, up to the first change.\<close>

fun watched_key_changed :: "(key \<rightharpoonup> u64) \<Rightarrow> key list \<Rightarrow> processor \<Rightarrow> processor \<times> bool" where
  "watched_key_changed watched [] p = (p, False)"
| "watched_key_changed watched (k # ks) p =
     (case key_revision (steady_clock (current_env p) 0) k (database p) of
        (db, revision) \<Rightarrow>
          let p1 = tick (p\<lparr>database := db\<rparr>) in
          if watched k \<noteq> Some revision then (p1, True) else watched_key_changed watched ks p1)"

fun transaction_loop ::
  "bool \<Rightarrow> command list \<Rightarrow> processor \<Rightarrow> string \<Rightarrow> response list \<Rightarrow> (processor \<times> string \<times> response list) option" where
  "transaction_loop record_writes [] p bytes responses = Some (p, bytes, responses)"
| "transaction_loop record_writes (command # commands) p bytes responses =
     do {
       (p1, response) \<leftarrow> run_dispatch command p;
       let bytes1 =
         (if record_writes \<and> is_write_command command \<and> write_modified_database command response
          then (if bytes = [] then serialize_command [''MULTI''] else bytes) @
               serialize_command (normalize_replication_command command response)
          else bytes);
       transaction_loop record_writes commands p1 bytes1 (responses @ [response])
     }"

definition misconf :: "string \<Rightarrow> response" where
  "misconf e = SimpleError (''MISCONF AOF persistence error: '' @ e)"

definition check_watched :: "client_id \<Rightarrow> processor \<Rightarrow> processor \<times> bool" where
  "check_watched client p =
     (case watched_keys p client of
        None \<Rightarrow> (p, False)
      | Some watched \<Rightarrow> watched_key_changed watched (watch_order (outside p) watched) p)"

definition forget_transaction :: "client_id \<Rightarrow> processor \<Rightarrow> processor" where
  "forget_transaction client p =
     p\<lparr>transactions := (transactions p)(client := None), watched_keys := (watched_keys p)(client := None)\<rparr>"

definition log_transaction ::
  "client_id \<Rightarrow> bool \<Rightarrow> bool \<Rightarrow> string \<Rightarrow> response list \<Rightarrow> processor \<Rightarrow> processor \<times> response" where
  "log_transaction client replicate_transaction persist_transaction bytes responses p =
     (if bytes = [] then (p, ResponseArray responses)
      else
        let bytes1 = bytes @ serialize_command [''EXEC''] in
        (case (if persist_transaction then append_log bytes1 p else (p, Inr ())) of
           (p1, Inl e) \<Rightarrow> (p1, misconf e)
         | (p1, Inr _) \<Rightarrow>
             (if replicate_transaction then append_client_replication_frame client bytes1 p1 else p1,
              ResponseArray responses)))"

definition execute_transaction :: "client_id \<Rightarrow> command_source \<Rightarrow> processor \<Rightarrow> (processor \<times> response) option" where
  "execute_transaction client source p =
     (case transactions p client of
        None \<Rightarrow> Some (p, SimpleError ''ERR EXEC without MULTI'')
      | Some transaction \<Rightarrow>
          (case check_watched client p of
             (p1, changed) \<Rightarrow>
               let p2 = forget_transaction client p1;
                   commands = transaction_commands transaction
               in if has_error transaction
                  then Some (p2, SimpleError ''EXECABORT Transaction discarded because of previous errors.'')
                  else if changed then Some (p2, NullArray)
                  else if commands = [] then Some (p2, EmptyArray)
                  else
                    let replicate_transaction = (role (replication p2) = ROLE_MASTER \<and> source = CLIENT);
                        persist_transaction = (aof_log p2 \<noteq> None \<and> source \<noteq> AOF)
                    in do {
                      (p3, bytes, responses) \<leftarrow>
                        transaction_loop (replicate_transaction \<or> persist_transaction) commands p2 [] [];
                      Some (log_transaction client replicate_transaction persist_transaction bytes responses p3)
                    }))"

section \<open>One command\<close>

definition config_get :: "string \<Rightarrow> processor \<Rightarrow> response" where
  "config_get parameter p =
     (if parameter = ''dir'' then Array [''dir'', dir (processor_rdb p)]
      else if parameter = ''dbfilename'' then Array [''dbfilename'', db_filename (processor_rdb p)]
      else if parameter = ''appendonly'' then Array [''appendonly'', if enabled (processor_aof p) then ''yes'' else ''no'']
      else if parameter = ''appenddirname'' then Array [''appenddirname'', append_dirname (processor_aof p)]
      else if parameter = ''appendfilename'' then Array [''appendfilename'', append_filename (processor_aof p)]
      else if parameter = ''appendfsync'' then Array [''appendfsync'', append_fsync (processor_aof p)]
      else EmptyArray)"

definition info_text :: "processor \<Rightarrow> string" where
  "info_text p =
     ''# Replication'' @ crlf @ ''role:'' @ get_replication_role p @ crlf @
     ''master_replid:'' @ replication_id (replication p) @ crlf @
     ''master_repl_offset:'' @ dec_of_nat (unat (offset (replication p))) @ crlf"

fun watch_loop :: "key list \<Rightarrow> (key \<rightharpoonup> u64) \<Rightarrow> processor \<Rightarrow> processor \<times> (key \<rightharpoonup> u64)" where
  "watch_loop [] watched p = (p, watched)"
| "watch_loop (k # ks) watched p =
     (if watched k \<noteq> None then watch_loop ks watched p
      else
        (case key_revision (steady_clock (current_env p) 0) k (database p) of
           (db, revision) \<Rightarrow> watch_loop ks (watched(k \<mapsto> revision)) (tick (p\<lparr>database := db\<rparr>))))"

definition watch :: "client_id \<Rightarrow> command \<Rightarrow> processor \<Rightarrow> processor \<times> response" where
  "watch client command p =
     (if length command < 2 then (p, SimpleError ''ERR Invalid syntax. Expected usage: WATCH <key1> <key2> ...'')
      else if transactions p client \<noteq> None then (p, SimpleError ''ERR WATCH inside MULTI is not allowed'')
      else
        (case watch_loop (tl command) (case watched_keys p client of None \<Rightarrow> Map.empty | Some m \<Rightarrow> m) p of
           (p1, watched) \<Rightarrow>
             (p1\<lparr>watched_keys := (watched_keys p1)(client \<mapsto> watched)\<rparr>, SimpleString ''OK'')))"

definition process_command :: "client_id \<Rightarrow> command \<Rightarrow> command_source \<Rightarrow> processor \<Rightarrow> (processor \<times> response) option" where
  "process_command client command source p =
     (if command = [] then Some (p, SimpleError ''ERR empty command'')
      else
        let cmd_name = hd command in
        if cmd_name = ''SUBSCRIBE'' then Some (subscribe client command p)
        else if cmd_name = ''UNSUBSCRIBE'' then Some (unsubscribe client command p)
        else if client_subscriptions p client \<noteq> None \<and> cmd_name = ''PING'' then
          Some (p,
            if 2 < length command then SimpleError ''ERR wrong number of arguments for 'ping' command''
            else Array [''pong'', if length command = 2 then command ! 1 else []])
        else if cmd_name = ''PUBLISH'' then Some (publish command p)
        else if cmd_name = ''AUTH'' then Some (authenticate client command p)
        else if cmd_name = ''ACL'' then Some (process_acl_command client command p)
        else if cmd_name = ''INFO'' then Some (p, BulkString (info_text p))
        else if cmd_name = ''CONFIG'' then
          Some (p,
            if length command \<noteq> 3 \<or> command ! 1 \<noteq> ''GET'' then SimpleError ''ERR syntax error''
            else config_get (command ! 2) p)
        else if cmd_name = ''REPLCONF'' then
          Some (p,
            if length command \<noteq> 3 then SimpleError ''ERR wrong number of arguments for 'replconf' command''
            else SimpleString ''OK'')
        else if cmd_name = ''PSYNC'' then
          Some (p,
            if length command \<noteq> 3 then SimpleError ''ERR wrong number of arguments for 'psync' command''
            else SimpleString (''FULLRESYNC '' @ replication_id (replication p) @ '' '' @
                   dec_of_nat (unat (offset (replication p)))))
        else if cmd_name = ''WATCH'' then Some (watch client command p)
        else if cmd_name = ''UNWATCH'' then
          Some (if length command \<noteq> 1 then (p, SimpleError ''ERR wrong number of arguments for 'unwatch' command'')
            else (p\<lparr>watched_keys := (watched_keys p)(client := None)\<rparr>, SimpleString ''OK''))
        else if cmd_name = ''MULTI'' then
          Some (if transactions p client \<noteq> None then (p, SimpleError ''ERR MULTI calls cannot be nested'')
            else (p\<lparr>transactions := (transactions p)(client \<mapsto> \<lparr>transaction_commands = [], has_error = False\<rparr>)\<rparr>,
                  SimpleString ''OK''))
        else if cmd_name = ''EXEC'' then execute_transaction client source p
        else if cmd_name = ''DISCARD'' then
          Some (if transactions p client = None then (p, SimpleError ''ERR DISCARD without MULTI'')
            else (p\<lparr>transactions := (transactions p)(client := None),
                    watched_keys := (watched_keys p)(client := None)\<rparr>, SimpleString ''OK''))
        else
          (case transactions p client of
             Some t \<Rightarrow>
               Some (p\<lparr>transactions :=
                        (transactions p)(client \<mapsto> t\<lparr>transaction_commands := transaction_commands t @ [command]\<rparr>)\<rparr>,
                     SimpleString ''QUEUED'')
           | None \<Rightarrow> run_dispatch command p))"

section \<open>Blocking commands\<close>

definition deadline_of :: "env \<Rightarrow> int option \<Rightarrow> time_point option option" where
  "deadline_of e timeout =
     (case timeout of
        None \<Rightarrow> Some None
      | Some ms \<Rightarrow> map_option Some (deadline_after (steady_clock e 0) ms))"

definition pop_for :: "key \<Rightarrow> processor \<Rightarrow> processor \<times> (db_error + string)" where
  "pop_for k p =
     (case pop_list_element (steady_clock (current_env p) 0) k (database p) of
        (db, r) \<Rightarrow> (tick (p\<lparr>database := db\<rparr>), r))"

definition answer_pop :: "task \<Rightarrow> key \<Rightarrow> string \<Rightarrow> processor \<Rightarrow> processor" where
  "answer_pop t k v p =
     (case persist_blocking_pop t k p of
        (p1, Inl e) \<Rightarrow> respond t (misconf e) p1
      | (p1, Inr _) \<Rightarrow> respond t (Array [k, v]) p1)"

definition process_blpop :: "task \<Rightarrow> processor \<Rightarrow> processor option" where
  "process_blpop t p =
     do {
       request \<leftarrow> parse_blpop (task_command t);
       case request of
         Inl e \<Rightarrow> Some (respond t e p)
       | Inr r \<Rightarrow>
           (case pop_for (pop_key r) p of
              (p1, Inr v) \<Rightarrow> Some (answer_pop t (pop_key r) v p1)
            | (p1, Inl e) \<Rightarrow>
                if e = WRONG_TYPE then Some (respond t wrong_type_error p1)
                else do {
                  deadline \<leftarrow> deadline_of (current_env p1) (pop_timeout r);
                  Some (tick (p1\<lparr>pending_list_pops := pending_list_pops p1 @
                    [\<lparr>pop_task = t, pending_key = pop_key r, pop_deadline = deadline\<rparr>]\<rparr>))
                })
     }"

definition read_for :: "read_request list \<Rightarrow> processor \<Rightarrow> processor \<times> read_request list \<times> (db_error + read_result list)" where
  "read_for requests p =
     (case read_streams (steady_clock (current_env p)) requests (database p) of
        (db, requests', r) \<Rightarrow> (tick (p\<lparr>database := db\<rparr>), requests', r))"

definition process_xread :: "task \<Rightarrow> processor \<Rightarrow> processor option" where
  "process_xread t p =
     (case parse_xread (task_command t) of
        Inl e \<Rightarrow> Some (respond t e p)
      | Inr c \<Rightarrow>
          (case read_for (read_requests c) p of
             (p1, requests, Inl e) \<Rightarrow> Some (respond t (xread_error e) p1)
           | (p1, requests, Inr results) \<Rightarrow>
               if results \<noteq> [] then Some (respond t (make_xread_response results) p1)
               else if read_mode (options c) = IMMEDIATE then Some (respond t NullArray p1)
               else do {
                 deadline \<leftarrow> deadline_of (current_env p1)
                   (if read_mode (options c) = BLOCK_WITH_TIMEOUT then Some (read_timeout (options c)) else None);
                 Some (tick (p1\<lparr>pending_stream_reads := pending_stream_reads p1 @
                   [\<lparr>read_task = t, pending_requests = requests, read_deadline = deadline\<rparr>]\<rparr>))
               }))"

definition is_acknowledged :: "u64 \<Rightarrow> processor \<Rightarrow> replica_session \<Rightarrow> bool" where
  "is_acknowledged target p session \<longleftrightarrow>
     target = 0 \<or>
     (case replica_acknowledged_offsets p (replica_client session) of
        None \<Rightarrow> False
      | Some acknowledged \<Rightarrow> target \<le> acknowledged)"

definition count_acknowledged_replicas :: "u64 \<Rightarrow> processor \<Rightarrow> processor \<times> nat" where
  "count_acknowledged_replicas target p =
     (let sessions = filter (\<lambda>r. replica_heap p r \<noteq> None) (replica_sessions p)
      in (p\<lparr>replica_sessions := sessions\<rparr>,
          length (filter (\<lambda>r. is_acknowledged target p (the (replica_heap p r))) sessions)))"

definition process_wait :: "task \<Rightarrow> processor \<Rightarrow> processor option" where
  "process_wait t p =
     (if role (replication p) \<noteq> ROLE_MASTER
      then Some (respond t (SimpleError ''ERR WAIT cannot be used with replica instances'') p)
      else
        (case parse_wait_request (task_command t) of
           Inl e \<Rightarrow> Some (respond t e p)
         | Inr request \<Rightarrow>
             let target = (case client_write_offsets p (task_client t) of None \<Rightarrow> 0 | Some n \<Rightarrow> n) in
             (case count_acknowledged_replicas target p of
                (p1, acknowledged) \<Rightarrow>
                  if target = 0 \<or> required_replicas request \<le> acknowledged
                  then Some (respond t (Integer (int acknowledged)) p1)
                  else
                    let p2 = append_replication_frame (serialize_command [''REPLCONF'', ''GETACK'', ''*'']) p1 in
                    do {
                      deadline \<leftarrow> deadline_of (current_env p2) (wait_timeout request);
                      Some (tick (p2\<lparr>pending_waits := pending_waits p2 @
                        [\<lparr>wait_task = t, pending_replicas = required_replicas request, target_offset = target,
                          wait_deadline = deadline\<rparr>]\<rparr>))
                    })))"

section \<open>Command tasks\<close>

text \<open>A response to a subscribed client goes through its session, so that it cannot overtake messages.\<close>

definition queue_response :: "client_id \<Rightarrow> response \<Rightarrow> processor \<Rightarrow> processor \<times> response" where
  "queue_response client response p =
     (case enqueue_pubsub_response client response p of
        (p1, Inr _) \<Rightarrow> (p1, NoResponse)
      | (p1, Inl e) \<Rightarrow> (p1, SimpleError (''ERR failed to queue Pub/Sub response: '' @ e)))"

definition is_authenticated :: "client_id \<Rightarrow> processor \<Rightarrow> bool" where
  "is_authenticated client p \<longleftrightarrow> (case clients p client of None \<Rightarrow> False | Some c \<Rightarrow> authenticated c)"

definition named :: "string \<Rightarrow> command \<Rightarrow> bool" where
  "named name command \<longleftrightarrow> command \<noteq> [] \<and> hd command = name"

definition subscribed_error :: "command \<Rightarrow> response" where
  "subscribed_error command =
     SimpleError (''ERR Can't execute '' @ CHR 0x27 # (if command = [] then [] else hd command) @
       [CHR 0x27] @ '': only SUBSCRIBE, UNSUBSCRIBE and PING are allowed in this context'')"

definition readonly_error :: response where
  "readonly_error = SimpleError ''READONLY You can't write against a read only replica.''"

text \<open>The last part of \<open>process_task\<close>: the command itself, its log entry and its replication frame, the offset
  of a replica, and the response.\<close>

definition log_direct_write ::
  "task \<Rightarrow> bool \<Rightarrow> bool \<Rightarrow> response \<Rightarrow> processor \<Rightarrow> processor \<times> response" where
  "log_direct_write t replicate_write persist_write response p =
     (if (replicate_write \<or> persist_write) \<and> write_modified_database (task_command t) response then
        let bytes = serialize_command (normalize_replication_command (task_command t) response);
            (p1, logged) = (if persist_write then append_log bytes p else (p, Inr ()));
            response1 = (case logged of Inl e \<Rightarrow> misconf e | Inr _ \<Rightarrow> response)
        in (if replicate_write \<and> \<not> response_is_error response1
            then append_client_replication_frame (task_client t) bytes p1 else p1,
            response1)
      else (p, response))"

definition advance_offset :: "task \<Rightarrow> response \<Rightarrow> processor \<Rightarrow> processor" where
  "advance_offset t response p =
     (if task_source t = MASTER \<and> \<not> response_is_error response
      then p\<lparr>replication := (replication p)\<lparr>offset := offset (replication p) + of_nat (replication_bytes t)\<rparr>\<rparr>
      else p)"

definition deliver :: "task \<Rightarrow> response \<Rightarrow> processor \<Rightarrow> processor \<times> response" where
  "deliver t response p =
     (if task_source t = CLIENT \<and> client_subscriptions p (task_client t) \<noteq> None \<and> response \<noteq> NoResponse
      then queue_response (task_client t) response p else (p, response))"

definition execute_task :: "task \<Rightarrow> processor \<Rightarrow> processor option" where
  "execute_task t p =
     (let write_command = (transactions p (task_client t) = None \<and> is_write_command (task_command t));
          replicate_write = (role (replication p) = ROLE_MASTER \<and> task_source t = CLIENT \<and> write_command);
          persist_write = (aof_log p \<noteq> None \<and> task_source t \<noteq> AOF \<and> write_command)
      in do {
        (p1, response) \<leftarrow> process_command (task_client t) (task_command t) (task_source t) p;
        let (p2, response2) = log_direct_write t replicate_write persist_write response p1;
        let (p3, response3) = deliver t response2 (advance_offset t response p2);
        Some (respond t response3 p3)
      })"

definition process_task :: "task \<Rightarrow> processor \<Rightarrow> processor option" where
  "process_task t p =
     (let client = task_client t; command = task_command t in
      if task_source t = CLIENT \<and> \<not> named ''AUTH'' command \<and> \<not> is_authenticated client p then
        (let (p1, response) =
               (if client_subscriptions p client \<noteq> None then queue_response client noauth p else (p, noauth))
         in Some (respond t response p1))
      else if task_source t = CLIENT \<and> client_subscriptions p client \<noteq> None \<and>
        \<not> (named ''SUBSCRIBE'' command \<or> named ''UNSUBSCRIBE'' command \<or> named ''PING'' command) then
        (let (p1, response) = queue_response client (subscribed_error command) p
         in Some (respond t response p1))
      else if role (replication p) = ROLE_REPLICA \<and> task_source t = CLIENT \<and> is_write_command command then
        (let p1 =
           (case transactions p client of
              None \<Rightarrow> p
            | Some tr \<Rightarrow> p\<lparr>transactions := (transactions p)(client \<mapsto> tr\<lparr>has_error := True\<rparr>)\<rparr>)
         in Some (respond t readonly_error p1))
      else if transactions p client = None \<and> named ''BLPOP'' command then process_blpop t p
      else if transactions p client = None \<and> named ''XREAD'' command then process_xread t p
      else if transactions p client = None \<and> named ''WAIT'' command then process_wait t p
      else execute_task t p)"

section \<open>The other tasks\<close>

definition process_replica_registration :: "client_id \<Rightarrow> promise \<Rightarrow> processor \<Rightarrow> processor" where
  "process_replica_registration client q p =
     (let r = next_ref p;
          session = new_replica_session client (offset (replication p))
      in fulfil q
           (Registered \<lparr>registration_id = replication_id (replication p),
                        registration_offset = offset (replication p), registration_session = r\<rparr>)
           (p\<lparr>replica_heap := (replica_heap p)(r \<mapsto> session), next_ref := Suc r,
              replica_sessions := replica_sessions p @ [r]\<rparr>))"

definition process_replication_state_installation :: "string \<Rightarrow> u64 \<Rightarrow> promise \<Rightarrow> processor \<Rightarrow> processor" where
  "process_replication_state_installation new_id new_offset q p =
     fulfil q Completed (p\<lparr>replication := (replication p)\<lparr>replication_id := new_id, offset := new_offset\<rparr>\<rparr>)"

definition process_replication_offset_request :: "promise \<Rightarrow> processor \<Rightarrow> processor" where
  "process_replication_offset_request q p = fulfil q (OffsetIs (offset (replication p))) p"

definition process_replica_acknowledgement :: "client_id \<Rightarrow> u64 \<Rightarrow> promise \<Rightarrow> processor \<Rightarrow> processor" where
  "process_replica_acknowledgement client acknowledged q p =
     (let old = (case replica_acknowledged_offsets p client of None \<Rightarrow> 0 | Some n \<Rightarrow> n)
      in fulfil q Completed
           (p\<lparr>replica_acknowledged_offsets := (replica_acknowledged_offsets p)(client \<mapsto> max old acknowledged)\<rparr>))"

text \<open>The remaining time of an entry at load, at most the largest number of milliseconds.\<close>

definition remaining_expiry :: "int \<Rightarrow> u64 \<Rightarrow> int option" where
  "remaining_expiry unix_now at_unix_ms =
     (if unix_now < 0 \<or> at_unix_ms \<le> word_of_int unix_now then None
      else Some (min (uint (at_unix_ms - word_of_int unix_now)) (2 ^ 63 - 1)))"

fun load_entries :: "env \<Rightarrow> nat \<Rightarrow> string_entry list \<Rightarrow> database \<Rightarrow> database option" where
  "load_entries e i [] db = Some db"
| "load_entries e i (entry # es) db =
     (case expires_at_unix_ms entry of
        None \<Rightarrow> do { db1 \<leftarrow> db_set (steady_clock e i) (se_key entry) (se_value entry) None db;
                      load_entries e (Suc i) es db1 }
      | Some t \<Rightarrow>
          (case remaining_expiry (system_clock e) t of
             None \<Rightarrow> load_entries e i es db
           | Some ms \<Rightarrow> do { db1 \<leftarrow> db_set (steady_clock e i) (se_key entry) (se_value entry) (Some ms) db;
                            load_entries e (Suc i) es db1 }))"

definition process_rdb_load :: "string_entry list \<Rightarrow> promise \<Rightarrow> processor \<Rightarrow> processor option" where
  "process_rdb_load es q p =
     do {
       db \<leftarrow> load_entries (current_env p) 0 es (database p);
       Some (fulfil q Completed (tick (p\<lparr>database := db\<rparr>)))
     }"

definition aof_client_id :: client_id where
  "aof_client_id = - 1"

text \<open>The commands of the log up to the first error.\<close>

fun replay_commands :: "command list \<Rightarrow> processor \<Rightarrow> (processor \<times> string option) option" where
  "replay_commands [] p = Some (p, None)"
| "replay_commands (command # commands) p =
     do {
       (p1, response) \<leftarrow> process_command aof_client_id command AOF p;
       case response of
         SimpleError e \<Rightarrow> Some (p1, Some e)
       | _ \<Rightarrow> replay_commands commands p1
     }"

definition process_aof_initialization :: "aof_file \<Rightarrow> command list \<Rightarrow> promise \<Rightarrow> processor \<Rightarrow> processor option" where
  "process_aof_initialization file commands q p =
     do {
       (p1, failure) \<leftarrow> replay_commands commands p;
       case failure of
         Some e \<Rightarrow>
           Some (fulfil q (AofInitialized (Inl (''Failed to replay AOF command: '' @ e))) (forget_transaction aof_client_id p1))
       | None \<Rightarrow>
           if transactions p1 aof_client_id \<noteq> None then
             Some (fulfil q (AofInitialized (Inl ''AOF file ended before its transaction was completed''))
               (forget_transaction aof_client_id p1))
           else Some (fulfil q (AofInitialized (Inr ()))
             ((forget_transaction aof_client_id p1)\<lparr>aof_log := Some file\<rparr>))
     }"

definition process_client_registration :: "client_id \<Rightarrow> ref \<Rightarrow> promise \<Rightarrow> processor \<Rightarrow> processor" where
  "process_client_registration client r q p =
     fulfil q Completed
       (p\<lparr>clients := (clients p)(client \<mapsto> \<lparr>authenticated = no_password (default_user p), session_ref = r\<rparr>)\<rparr>)"

text \<open>Cancelled commands are answered with no response and removed; the others keep their order.\<close>

definition cancel :: "('a \<Rightarrow> task) \<Rightarrow> client_id \<Rightarrow> 'a list \<Rightarrow> (promise \<times> result) list" where
  "cancel the_task client pending =
     map (\<lambda>x. (task_promise (the_task x), Responded NoResponse))
       (filter (\<lambda>x. task_client (the_task x) = client) pending)"

definition cancel_pending_commands :: "client_id \<Rightarrow> processor \<Rightarrow> processor" where
  "cancel_pending_commands client p =
     p\<lparr>fulfilled := fulfilled p @ cancel pop_task client (pending_list_pops p) @
         cancel read_task client (pending_stream_reads p) @ cancel wait_task client (pending_waits p),
       pending_list_pops := filter (\<lambda>x. task_client (pop_task x) \<noteq> client) (pending_list_pops p),
       pending_stream_reads := filter (\<lambda>x. task_client (read_task x) \<noteq> client) (pending_stream_reads p),
       pending_waits := filter (\<lambda>x. task_client (wait_task x) \<noteq> client) (pending_waits p)\<rparr>"

fun leave_channels :: "client_id \<Rightarrow> string list \<Rightarrow> (string \<rightharpoonup> client_id set) \<Rightarrow> (string \<rightharpoonup> client_id set)" where
  "leave_channels client [] subscribers = subscribers"
| "leave_channels client (channel # channels) subscribers =
     leave_channels client channels
       (case subscribers channel of
          None \<Rightarrow> subscribers
        | Some S \<Rightarrow> store_set channel (S - {client}) subscribers)"

definition process_client_unregistration :: "client_id \<Rightarrow> promise \<Rightarrow> processor \<Rightarrow> processor" where
  "process_client_unregistration client q p =
     (let p1 = cancel_pending_commands client p;
          p2 =
            (case client_subscriptions p1 client of
               None \<Rightarrow> p1
             | Some channels \<Rightarrow>
                 p1\<lparr>channel_subscribers :=
                      leave_channels client (channel_order (outside p1) channels) (channel_subscribers p1),
                    client_subscriptions := (client_subscriptions p1)(client := None)\<rparr>)
      in fulfil q Completed
           (p2\<lparr>clients := (clients p2)(client := None),
               transactions := (transactions p2)(client := None),
               watched_keys := (watched_keys p2)(client := None),
               client_write_offsets := (client_write_offsets p2)(client := None),
               replica_acknowledged_offsets := (replica_acknowledged_offsets p2)(client := None)\<rparr>))"

section \<open>Retries and deadlines\<close>

text \<open>Each loop walks over a queue, answers some of its commands and leaves the others in their order.\<close>

fun retry_list_pops :: "pending_list_pop list \<Rightarrow> processor \<Rightarrow> processor \<times> pending_list_pop list" where
  "retry_list_pops [] p = (p, [])"
| "retry_list_pops (x # xs) p =
     (case pop_for (pending_key x) p of
        (p1, Inr v) \<Rightarrow> retry_list_pops xs (answer_pop (pop_task x) (pending_key x) v p1)
      | (p1, Inl e) \<Rightarrow>
          if e = WRONG_TYPE then retry_list_pops xs (respond (pop_task x) wrong_type_error p1)
          else (case retry_list_pops xs p1 of (p2, rest) \<Rightarrow> (p2, x # rest)))"

definition retry_pending_list_pops :: "processor \<Rightarrow> processor" where
  "retry_pending_list_pops p =
     (case retry_list_pops (pending_list_pops p) p of (p1, rest) \<Rightarrow> p1\<lparr>pending_list_pops := rest\<rparr>)"

fun retry_stream_reads :: "pending_stream_read list \<Rightarrow> processor \<Rightarrow> processor \<times> pending_stream_read list" where
  "retry_stream_reads [] p = (p, [])"
| "retry_stream_reads (x # xs) p =
     (case read_for (pending_requests x) p of
        (p1, requests, Inl e) \<Rightarrow> retry_stream_reads xs (respond (read_task x) (xread_error e) p1)
      | (p1, requests, Inr results) \<Rightarrow>
          if results = [] then
            (case retry_stream_reads xs p1 of (p2, rest) \<Rightarrow> (p2, x\<lparr>pending_requests := requests\<rparr> # rest))
          else retry_stream_reads xs (respond (read_task x) (make_xread_response results) p1))"

definition retry_pending_stream_reads :: "processor \<Rightarrow> processor" where
  "retry_pending_stream_reads p =
     (case retry_stream_reads (pending_stream_reads p) p of (p1, rest) \<Rightarrow> p1\<lparr>pending_stream_reads := rest\<rparr>)"

fun retry_waits :: "pending_wait list \<Rightarrow> processor \<Rightarrow> processor \<times> pending_wait list" where
  "retry_waits [] p = (p, [])"
| "retry_waits (x # xs) p =
     (case count_acknowledged_replicas (target_offset x) p of
        (p1, acknowledged) \<Rightarrow>
          if acknowledged < pending_replicas x
          then (case retry_waits xs p1 of (p2, rest) \<Rightarrow> (p2, x # rest))
          else retry_waits xs (respond (wait_task x) (Integer (int acknowledged)) p1))"

definition retry_pending_waits :: "processor \<Rightarrow> processor" where
  "retry_pending_waits p =
     (case retry_waits (pending_waits p) p of (p1, rest) \<Rightarrow> p1\<lparr>pending_waits := rest\<rparr>)"

definition overdue :: "time_point \<Rightarrow> time_point option \<Rightarrow> bool" where
  "overdue now deadline \<longleftrightarrow> (case deadline of None \<Rightarrow> False | Some d \<Rightarrow> d \<le> now)"

definition expire_pending_list_pops :: "processor \<Rightarrow> processor" where
  "expire_pending_list_pops p =
     (let now = steady_clock (current_env p) 0;
          late = filter (\<lambda>x. overdue now (pop_deadline x)) (pending_list_pops p)
      in tick (p\<lparr>fulfilled := fulfilled p @ map (\<lambda>x. (task_promise (pop_task x), Responded NullArray)) late,
                 pending_list_pops := filter (\<lambda>x. \<not> overdue now (pop_deadline x)) (pending_list_pops p)\<rparr>))"

definition expire_pending_stream_reads :: "processor \<Rightarrow> processor" where
  "expire_pending_stream_reads p =
     (let now = steady_clock (current_env p) 0;
          late = filter (\<lambda>x. overdue now (read_deadline x)) (pending_stream_reads p)
      in tick (p\<lparr>fulfilled := fulfilled p @ map (\<lambda>x. (task_promise (read_task x), Responded NullArray)) late,
                 pending_stream_reads := filter (\<lambda>x. \<not> overdue now (read_deadline x)) (pending_stream_reads p)\<rparr>))"

fun expire_waits :: "time_point \<Rightarrow> pending_wait list \<Rightarrow> processor \<Rightarrow> processor \<times> pending_wait list" where
  "expire_waits now [] p = (p, [])"
| "expire_waits now (x # xs) p =
     (if \<not> overdue now (wait_deadline x) then (case expire_waits now xs p of (p1, rest) \<Rightarrow> (p1, x # rest))
      else
        (case count_acknowledged_replicas (target_offset x) p of
           (p1, acknowledged) \<Rightarrow> expire_waits now xs (respond (wait_task x) (Integer (int acknowledged)) p1)))"

definition expire_pending_waits :: "processor \<Rightarrow> processor" where
  "expire_pending_waits p =
     (case expire_waits (steady_clock (current_env p) 0) (pending_waits p) p of
        (p1, rest) \<Rightarrow> tick (p1\<lparr>pending_waits := rest\<rparr>))"

definition earlier :: "time_point option \<Rightarrow> time_point option \<Rightarrow> time_point option" where
  "earlier deadline next_deadline =
     (case deadline of
        None \<Rightarrow> next_deadline
      | Some d \<Rightarrow> (case next_deadline of None \<Rightarrow> Some d | Some n \<Rightarrow> if d < n then Some d else Some n))"

definition next_pending_deadline :: "processor \<Rightarrow> time_point option" where
  "next_pending_deadline p =
     fold earlier (map wait_deadline (pending_waits p))
       (fold earlier (map read_deadline (pending_stream_reads p))
         (fold earlier (map pop_deadline (pending_list_pops p)) None))"

section \<open>The worker\<close>

definition process :: "processor_task \<Rightarrow> processor \<Rightarrow> processor option" where
  "process t p =
     (case t of
        CommandTask c \<Rightarrow> process_task c p
      | RegisterReplicaTask client q \<Rightarrow> Some (process_replica_registration client q p)
      | InstallReplicationStateTask new_id new_offset q \<Rightarrow>
          Some (process_replication_state_installation new_id new_offset q p)
      | GetReplicationOffsetTask q \<Rightarrow> Some (process_replication_offset_request q p)
      | AcknowledgeReplicaTask client acknowledged q \<Rightarrow> Some (process_replica_acknowledgement client acknowledged q p)
      | LoadRdbTask es q \<Rightarrow> process_rdb_load es q p
      | InitializeAofTask file commands q \<Rightarrow> process_aof_initialization file commands q p
      | RegisterClientTask client r q \<Rightarrow> Some (process_client_registration client r q p)
      | UnregisterClientTask client q \<Rightarrow> Some (process_client_unregistration client q p))"

definition expire_all :: "processor \<Rightarrow> processor" where
  "expire_all p = expire_pending_waits (expire_pending_stream_reads (expire_pending_list_pops p))"

definition retry_all :: "processor \<Rightarrow> processor" where
  "retry_all p = retry_pending_waits (retry_pending_stream_reads (retry_pending_list_pops p))"

text \<open>
  One iteration of the loop in \<open>run\<close>, once the wait is over: with a task in the queue it is processed and
  the blocked commands are retried; without one, a deadline has been reached (\<open>wait_until\<close> returned) and
  only the deadlines are checked. While neither is the case the worker waits, which is no step.
\<close>

definition run_iteration :: "processor \<Rightarrow> processor option" where
  "run_iteration p =
     (case tasks p of
        t # ts \<Rightarrow> do { p1 \<leftarrow> process t (p\<lparr>tasks := ts\<rparr>); Some (expire_all (retry_all p1)) }
      | [] \<Rightarrow> Some (expire_all p))"

section \<open>What other threads do\<close>

text \<open>Submitting a task makes a promise for it; the number is what the returned future refers to.\<close>

definition submit_task :: "(promise \<Rightarrow> processor_task) \<Rightarrow> processor \<Rightarrow> processor \<times> promise" where
  "submit_task new_task p =
     (p\<lparr>tasks := tasks p @ [new_task (next_promise p)], next_promise := Suc (next_promise p)\<rparr>, next_promise p)"

definition enqueue :: "client_id \<Rightarrow> command \<Rightarrow> command_source \<Rightarrow> nat \<Rightarrow> processor \<Rightarrow> processor \<times> promise" where
  "enqueue client command source bytes p =
     submit_task (\<lambda>q. CommandTask \<lparr>task_client = client, task_command = command, task_source = source,
       replication_bytes = bytes, task_promise = q\<rparr>) p"

definition submit :: "client_id \<Rightarrow> command \<Rightarrow> processor \<Rightarrow> processor \<times> promise" where
  "submit client command p = enqueue client command CLIENT 0 p"

definition apply_replication :: "command \<Rightarrow> nat \<Rightarrow> processor \<Rightarrow> processor \<times> promise" where
  "apply_replication command bytes p = enqueue 0 command MASTER bytes p"

definition install_replication_state :: "string \<Rightarrow> u64 \<Rightarrow> processor \<Rightarrow> processor \<times> promise" where
  "install_replication_state new_id new_offset p = submit_task (InstallReplicationStateTask new_id new_offset) p"

definition replication_offset :: "processor \<Rightarrow> processor \<times> promise" where
  "replication_offset p = submit_task GetReplicationOffsetTask p"

definition acknowledge_replica :: "client_id \<Rightarrow> u64 \<Rightarrow> processor \<Rightarrow> processor \<times> promise" where
  "acknowledge_replica client acknowledged p = submit_task (AcknowledgeReplicaTask client acknowledged) p"

definition register_replica :: "client_id \<Rightarrow> processor \<Rightarrow> processor \<times> promise" where
  "register_replica client p = submit_task (RegisterReplicaTask client) p"

definition load_rdb_entries :: "string_entry list \<Rightarrow> processor \<Rightarrow> processor \<times> promise" where
  "load_rdb_entries es p = submit_task (LoadRdbTask es) p"

definition initialize_aof :: "aof_file \<Rightarrow> command list \<Rightarrow> processor \<Rightarrow> processor \<times> promise" where
  "initialize_aof file commands p = submit_task (InitializeAofTask file commands) p"

definition register_client :: "client_id \<Rightarrow> ref \<Rightarrow> processor \<Rightarrow> processor \<times> promise" where
  "register_client client r p = submit_task (RegisterClientTask client r) p"

definition unregister_client :: "client_id \<Rightarrow> processor \<Rightarrow> processor \<times> promise" where
  "unregister_client client p = submit_task (UnregisterClientTask client) p"

end
