(* ===== verification/Processor_Frame.thy ===== *)
theory Processor_Frame
  imports Processor
begin

text \<open>
  What the operations of the processor leave alone. \<open>bookkeeping\<close> collects the parts of the state that only
  the task loop itself changes; \<open>client_part\<close>, \<open>store_part\<close> and \<open>replication_part\<close> are the parts that publish/subscribe, the
  store and replication work on. Each operation has one lemma per part that it keeps. The case analysis
  of \<open>process_command\<close> is proved once here.
\<close>

definition bookkeeping :: "processor \<Rightarrow> processor_task list \<times> pending_list_pop list \<times> pending_stream_read list \<times>
    pending_wait list \<times> (promise \<times> result) list \<times> promise \<times> world \<times> replication_role \<times> ref \<times> rdb_config \<times> aof_config" where
  "bookkeeping p =
     (tasks p, pending_list_pops p, pending_stream_reads p, pending_waits p, fulfilled p, next_promise p,
      outside p, role (replication p), next_ref p, processor_rdb p, processor_aof p)"

lemma bookkeeping_eqs:
  assumes "bookkeeping p' = bookkeeping p"
  shows "tasks p' = tasks p" "pending_list_pops p' = pending_list_pops p"
    "pending_stream_reads p' = pending_stream_reads p" "pending_waits p' = pending_waits p"
    "fulfilled p' = fulfilled p" "next_promise p' = next_promise p" "outside p' = outside p"
    "role (replication p') = role (replication p)"
  using assms by (simp_all add: bookkeeping_def)

text \<open>The part of the state that publish/subscribe works on, and everything else.\<close>

definition client_part :: "processor \<Rightarrow> (client_id \<rightharpoonup> client_state) \<times> (string \<rightharpoonup> client_id set) \<times>
    (client_id \<rightharpoonup> string set) \<times> (ref \<rightharpoonup> pubsub_session)" where
  "client_part p = (clients p, channel_subscribers p, client_subscriptions p, pubsub_heap p)"

definition store_part :: "processor \<Rightarrow> database \<times> aof_file option \<times> nat" where
  "store_part p = (database p, aof_log p, calls p)"

definition replication_part :: "processor \<Rightarrow> replication_state \<times> replication_frame list \<times> ref list \<times>
    (ref \<rightharpoonup> replica_session) \<times> (client_id \<rightharpoonup> u64) \<times> (client_id \<rightharpoonup> u64)" where
  "replication_part p =
     (replication p, replication_backlog p, replica_sessions p, replica_heap p, client_write_offsets p,
      replica_acknowledged_offsets p)"

definition transaction_part :: "processor \<Rightarrow> (client_id \<rightharpoonup> transaction_state) \<times> (client_id \<rightharpoonup> (key \<rightharpoonup> u64))" where
  "transaction_part p = (transactions p, watched_keys p)"

lemmas parts = bookkeeping_def client_part_def store_part_def replication_part_def transaction_part_def

section \<open>Shared operations\<close>

lemma fulfil_parts [simp]:
  "client_part (fulfil q r p) = client_part p" "store_part (fulfil q r p) = store_part p"
  "replication_part (fulfil q r p) = replication_part p" "transaction_part (fulfil q r p) = transaction_part p"
  "default_user (fulfil q r p) = default_user p"
  by (simp_all add: parts fulfil_def)

lemma fulfil_fields [simp]:
  "database (fulfil q r p) = database p" "aof_log (fulfil q r p) = aof_log p" "calls (fulfil q r p) = calls p"
  "tasks (fulfil q r p) = tasks p" "pending_list_pops (fulfil q r p) = pending_list_pops p"
  "pending_stream_reads (fulfil q r p) = pending_stream_reads p" "pending_waits (fulfil q r p) = pending_waits p"
  "fulfilled (fulfil q r p) = fulfilled p @ [(q, r)]" "next_promise (fulfil q r p) = next_promise p"
  "outside (fulfil q r p) = outside p" "replication (fulfil q r p) = replication p"
  "transactions (fulfil q r p) = transactions p" "watched_keys (fulfil q r p) = watched_keys p"
  "clients (fulfil q r p) = clients p" "client_subscriptions (fulfil q r p) = client_subscriptions p"
  "channel_subscribers (fulfil q r p) = channel_subscribers p" "replica_sessions (fulfil q r p) = replica_sessions p"
  "replica_heap (fulfil q r p) = replica_heap p" "replication_backlog (fulfil q r p) = replication_backlog p"
  "replica_acknowledged_offsets (fulfil q r p) = replica_acknowledged_offsets p"
  "client_write_offsets (fulfil q r p) = client_write_offsets p" "pubsub_heap (fulfil q r p) = pubsub_heap p"
  "next_ref (fulfil q r p) = next_ref p" "processor_rdb (fulfil q r p) = processor_rdb p"
  "processor_aof (fulfil q r p) = processor_aof p"
  by (simp_all add: fulfil_def)

lemma current_env_fulfil [simp]: "current_env (fulfil q r p) = current_env p"
  by (simp add: current_env_def)

lemma tick_fields [simp]:
  "database (tick p) = database p" "aof_log (tick p) = aof_log p" "calls (tick p) = Suc (calls p)"
  "tasks (tick p) = tasks p" "pending_list_pops (tick p) = pending_list_pops p"
  "pending_stream_reads (tick p) = pending_stream_reads p" "pending_waits (tick p) = pending_waits p"
  "fulfilled (tick p) = fulfilled p" "next_promise (tick p) = next_promise p"
  "outside (tick p) = outside p" "replication (tick p) = replication p"
  "transactions (tick p) = transactions p" "watched_keys (tick p) = watched_keys p"
  "clients (tick p) = clients p" "client_subscriptions (tick p) = client_subscriptions p"
  "channel_subscribers (tick p) = channel_subscribers p" "replica_sessions (tick p) = replica_sessions p"
  "replica_heap (tick p) = replica_heap p" "replication_backlog (tick p) = replication_backlog p"
  "replica_acknowledged_offsets (tick p) = replica_acknowledged_offsets p"
  "client_write_offsets (tick p) = client_write_offsets p" "pubsub_heap (tick p) = pubsub_heap p"
  "default_user (tick p) = default_user p" "next_ref (tick p) = next_ref p"
  "processor_rdb (tick p) = processor_rdb p" "processor_aof (tick p) = processor_aof p"
  by (simp_all add: tick_def)

lemma run_dispatch_frame:
  assumes "run_dispatch command p = Some (p', r)"
  shows "bookkeeping p' = bookkeeping p" "client_part p' = client_part p" "replication_part p' = replication_part p"
    "transaction_part p' = transaction_part p" "aof_log p' = aof_log p" "default_user p' = default_user p"
    "dispatch (current_env p) (database p) command = Some (database p', r)" "calls p' = Suc (calls p)"
  using assms by (auto simp: run_dispatch_def parts Option.bind_eq_Some_conv)

lemma append_log_frame:
  assumes "append_log bytes p = (p', r)"
  shows "bookkeeping p' = bookkeeping p" "client_part p' = client_part p" "replication_part p' = replication_part p"
    "transaction_part p' = transaction_part p" "database p' = database p" "default_user p' = default_user p"
    "aof_log p' = None \<longleftrightarrow> aof_log p = None" "aof_log p = None \<Longrightarrow> p' = p"
  using assms by (auto simp: append_log_def parts split: option.splits prod.splits)

lemma append_replication_frame_frame [simp]:
  "bookkeeping (append_replication_frame bytes p) = bookkeeping p"
  "client_part (append_replication_frame bytes p) = client_part p"
  "store_part (append_replication_frame bytes p) = store_part p"
  "transaction_part (append_replication_frame bytes p) = transaction_part p"
  "default_user (append_replication_frame bytes p) = default_user p"
  by (simp_all add: append_replication_frame_def parts Let_def)

lemma append_client_replication_frame_frame [simp]:
  "bookkeeping (append_client_replication_frame client bytes p) = bookkeeping p"
  "client_part (append_client_replication_frame client bytes p) = client_part p"
  "store_part (append_client_replication_frame client bytes p) = store_part p"
  "transaction_part (append_client_replication_frame client bytes p) = transaction_part p"
  "default_user (append_client_replication_frame client bytes p) = default_user p"
  by (simp_all add: append_client_replication_frame_def append_replication_frame_def parts Let_def)

lemma store_part_eqs:
  "store_part p' = store_part p \<Longrightarrow> database p' = database p \<and> aof_log p' = aof_log p \<and> calls p' = calls p"
  by (simp add: store_part_def)

lemma persist_blocking_pop_frame:
  assumes "persist_blocking_pop t k p = (p', r)"
  shows "bookkeeping p' = bookkeeping p" "client_part p' = client_part p" "transaction_part p' = transaction_part p"
    "database p' = database p" "default_user p' = default_user p"
proof -
  obtain p1 logged where l: "(if aof_log p \<noteq> None \<and> task_source t \<noteq> AOF
      then append_log (serialize_command [''LPOP'', k]) p else (p, Inr ())) = (p1, logged)" by fastforce
  have k: "bookkeeping p1 = bookkeeping p" "client_part p1 = client_part p" "transaction_part p1 = transaction_part p"
    "database p1 = database p" "default_user p1 = default_user p"
    using l append_log_frame [of _ p p1 logged] by (auto split: if_splits)
  have "p' = p1 \<or> p' = append_client_replication_frame (task_client t) (serialize_command [''LPOP'', k]) p1"
    using assms l by (auto simp: persist_blocking_pop_def Let_def split: sum.splits if_splits)
  with k show "bookkeeping p' = bookkeeping p" "client_part p' = client_part p" "transaction_part p' = transaction_part p"
    "database p' = database p" "default_user p' = default_user p"
    by (auto simp: store_part_eqs [OF append_client_replication_frame_frame(3)])
qed

section \<open>Publish/subscribe and access control\<close>

text \<open>Everything but the part that publish/subscribe works on.\<close>

definition rest_part :: "processor \<Rightarrow> _" where
  "rest_part p = (bookkeeping p, store_part p, replication_part p, transaction_part p)"

lemma rest_partD:
  assumes "rest_part p' = rest_part p"
  shows "bookkeeping p' = bookkeeping p" "store_part p' = store_part p" "replication_part p' = replication_part p"
    "transaction_part p' = transaction_part p"
  using assms by (simp_all add: rest_part_def)

lemma rest_part_updates [simp]:
  "rest_part (p\<lparr>clients := a\<rparr>) = rest_part p" "rest_part (p\<lparr>channel_subscribers := b\<rparr>) = rest_part p"
  "rest_part (p\<lparr>client_subscriptions := c\<rparr>) = rest_part p" "rest_part (p\<lparr>pubsub_heap := d\<rparr>) = rest_part p"
  "rest_part (p\<lparr>default_user := u\<rparr>) = rest_part p"
  by (simp_all add: rest_part_def parts)

lemma fst_rest: "rest_part (fst x) = rest_part p \<Longrightarrow> x = (p', y) \<Longrightarrow> rest_part p' = rest_part p"
  by simp

lemma send_frame_rest: "rest_part (fst (send_frame r session frame p)) = rest_part p"
  by (simp add: send_frame_def split: prod.splits)

lemma erase_client_rest [simp]: "rest_part (erase_client client p) = rest_part p"
  by (simp add: erase_client_def)

lemma acknowledge_rest: "rest_part (fst (acknowledge r session bytes p)) = rest_part p"
  using send_frame_rest [of r session bytes p] by (auto simp: acknowledge_def split: prod.splits sum.splits)

lemma subscribe_loop_rest: "rest_part (fst (subscribe_loop client channels p bytes)) = rest_part p"
  by (induction client channels p bytes rule: subscribe_loop.induct) (simp_all add: Let_def)

lemma remove_subscription_rest: "rest_part (fst (remove_subscription client channel p)) = rest_part p"
  by (simp add: remove_subscription_def Let_def split: option.splits)

lemma unsubscribe_loop_rest: "rest_part (fst (unsubscribe_loop client channels p bytes)) = rest_part p"
proof (induction client channels p bytes rule: unsubscribe_loop.induct)
  case (2 client channel channels p bytes)
  then show ?case using remove_subscription_rest [of client channel p] by (auto split: prod.splits)
qed simp

lemma drop_subscriber_rest [simp]: "rest_part (drop_subscriber channel client p) = rest_part p"
  by (simp add: drop_subscriber_def Let_def split: option.splits)

lemma publish_loop_rest: "rest_part (fst (publish_loop channel frame subscribers p n)) = rest_part p"
proof (induction channel frame subscribers p n rule: publish_loop.induct)
  case (2 channel frame client subscribers p n)
  then show ?case by (auto dest: fst_rest [OF send_frame_rest] split: prod.splits option.splits)
qed simp

lemma client_commands_rest:
  "rest_part (fst (subscribe client command p)) = rest_part p"
  "rest_part (fst (unsubscribe client command p)) = rest_part p"
  "rest_part (fst (publish command p)) = rest_part p"
  "rest_part (fst (authenticate client command p)) = rest_part p"
  "rest_part (fst (process_acl_command client command p)) = rest_part p"
  by (auto simp: subscribe_def unsubscribe_def publish_def authenticate_def process_acl_command_def acl_setuser_def
      acknowledge_rest Let_def split: prod.splits option.splits sum.splits
      dest!: fst_rest [OF subscribe_loop_rest] fst_rest [OF unsubscribe_loop_rest] fst_rest [OF publish_loop_rest])

lemmas client_commands_restD = client_commands_rest [THEN fst_rest]

lemma enqueue_pubsub_response_rest: "rest_part (fst (enqueue_pubsub_response client response p)) = rest_part p"
  using send_frame_rest by (auto simp: enqueue_pubsub_response_def split: option.splits)

lemma queue_response_rest: "rest_part (fst (queue_response client response p)) = rest_part p"
  using enqueue_pubsub_response_rest [of client response p]
  by (auto simp: queue_response_def split: prod.splits sum.splits)

section \<open>The cases of a command\<close>

lemma process_command_cases:
  obtains (pure) r where "process_command client command source p = Some (p, r)"
  | (subscribe) "named ''SUBSCRIBE'' command" "process_command client command source p = Some (subscribe client command p)"
  | (unsubscribe) "named ''UNSUBSCRIBE'' command"
      "process_command client command source p = Some (unsubscribe client command p)"
  | (publish) "named ''PUBLISH'' command" "process_command client command source p = Some (publish command p)"
  | (auth) "named ''AUTH'' command" "process_command client command source p = Some (authenticate client command p)"
  | (acl) "named ''ACL'' command" "process_command client command source p = Some (process_acl_command client command p)"
  | (watch) "named ''WATCH'' command" "process_command client command source p = Some (watch client command p)"
  | (unwatch) "named ''UNWATCH'' command"
      "process_command client command source p =
        Some (p\<lparr>watched_keys := (watched_keys p)(client := None)\<rparr>, SimpleString ''OK'')"
  | (multi) "named ''MULTI'' command" "transactions p client = None"
      "process_command client command source p =
        Some (p\<lparr>transactions := (transactions p)(client \<mapsto> \<lparr>transaction_commands = [], has_error = False\<rparr>)\<rparr>,
          SimpleString ''OK'')"
  | (exec) "named ''EXEC'' command" "process_command client command source p = execute_transaction client source p"
  | (discard) "named ''DISCARD'' command" "transactions p client \<noteq> None"
      "process_command client command source p = Some (forget_transaction client p, SimpleString ''OK'')"
  | (queue) t where "transactions p client = Some t" "command \<noteq> []"
      "process_command client command source p =
        Some (p\<lparr>transactions :=
            (transactions p)(client \<mapsto> t\<lparr>transaction_commands := transaction_commands t @ [command]\<rparr>)\<rparr>,
          SimpleString ''QUEUED'')"
  | (run) "transactions p client = None" "command \<noteq> []"
      "process_command client command source p = run_dispatch command p"
proof -
  obtain R where R: "process_command client command source p = R" by blast
  note unfolded = R [unfolded process_command_def Let_def]
  have pureI: thesis if "Some (p, r) = R" for r
    by (rule pure [OF trans [OF R that [symmetric]]])
  from unfolded show thesis
  proof (elim if_eqE, goal_cases)
    case 1 then show ?case by (elim pureI)
  next
    case 2 then show ?case by (intro subscribe) (simp_all add: R named_def)
  next
    case 3 then show ?case by (intro unsubscribe) (simp_all add: R named_def)
  next
    case 4 then show ?case by (elim pureI)
  next
    case 5 then show ?case by (intro publish) (simp_all add: R named_def)
  next
    case 6 then show ?case by (intro auth) (simp_all add: R named_def)
  next
    case 7 then show ?case by (intro acl) (simp_all add: R named_def)
  next
    case 8 then show ?case by (elim pureI)
  next
    case 9 then show ?case by (elim pureI)
  next
    case 10 then show ?case by (elim pureI)
  next
    case 11 then show ?case by (elim pureI)
  next
    case 12 then show ?case by (intro watch) (simp_all add: R named_def)
  next
    case 13
    then show ?case
      by (cases "length command = 1") (intro unwatch, simp_all add: R named_def, elim pureI)
  next
    case 14
    then show ?case
      by (cases "transactions p client = None") (intro multi, simp_all add: R named_def, elim pureI)
  next
    case 15 then show ?case by (intro exec) (simp_all add: R named_def)
  next
    case 16
    then show ?case
      by (cases "transactions p client = None") (simp_all, elim pureI, intro discard, simp_all add: R named_def forget_transaction_def)
  next
    case 17
    then show ?case
      by (cases "transactions p client") (intro run, simp_all add: R, intro queue, simp_all add: R, erule sym)
  qed
qed

section \<open>Transactions\<close>

lemma watched_key_changed_frame:
  assumes "watched_key_changed watched ks p = (p', changed)"
  shows "bookkeeping p' = bookkeeping p \<and> client_part p' = client_part p \<and> replication_part p' = replication_part p \<and>
    transaction_part p' = transaction_part p \<and> aof_log p' = aof_log p \<and> default_user p' = default_user p"
  using assms
proof (induction watched ks p rule: watched_key_changed.induct)
  case (2 watched k ks p)
  then show ?case by (fastforce simp: parts Let_def split: prod.splits if_splits)
qed simp

lemma transaction_loop_frame:
  assumes "transaction_loop record_writes commands p bytes responses = Some (p', bytes', responses')"
  shows "bookkeeping p' = bookkeeping p \<and> client_part p' = client_part p \<and> replication_part p' = replication_part p \<and>
    transaction_part p' = transaction_part p \<and> aof_log p' = aof_log p \<and> default_user p' = default_user p"
  using assms
proof (induction commands arbitrary: p bytes responses)
  case (Cons command commands)
  from Cons.prems obtain p1 r bytes1 where run: "run_dispatch command p = Some (p1, r)"
    and rest: "transaction_loop record_writes commands p1 bytes1 (responses @ [r]) = Some (p', bytes', responses')"
    by (auto simp: Option.bind_eq_Some_conv Let_def)
  from Cons.IH [OF rest] run_dispatch_frame [OF run] show ?case by simp
qed simp

lemma watch_loop_frame:
  assumes "watch_loop ks watched p = (p', watched')"
  shows "bookkeeping p' = bookkeeping p \<and> client_part p' = client_part p \<and> replication_part p' = replication_part p \<and>
    transaction_part p' = transaction_part p \<and> aof_log p' = aof_log p \<and> default_user p' = default_user p"
  using assms
proof (induction ks watched p rule: watch_loop.induct)
  case (2 k ks watched p)
  then show ?case by (fastforce simp: parts split: prod.splits if_splits)
qed simp

lemma watch_frame:
  assumes "watch client command p = (p', r)"
  shows "bookkeeping p' = bookkeeping p \<and> client_part p' = client_part p \<and> replication_part p' = replication_part p \<and>
    transactions p' = transactions p \<and> aof_log p' = aof_log p \<and> default_user p' = default_user p"
  using assms
  by (auto simp: watch_def parts split: if_splits prod.splits option.splits dest!: watch_loop_frame)

text \<open>The stages of an executed transaction.\<close>

lemma execute_transaction_cases:
  assumes "execute_transaction client source p = Some (p', r)"
  obtains (none) "transactions p client = None" "p' = p" "r = SimpleError ''ERR EXEC without MULTI''"
  | (refused) tr p1 changed where "transactions p client = Some tr" "check_watched client p = (p1, changed)"
      "p' = forget_transaction client p1" "has_error tr \<or> changed \<or> transaction_commands tr = []"
      "r = (if has_error tr then SimpleError ''EXECABORT Transaction discarded because of previous errors.''
        else if changed then NullArray else EmptyArray)"
  | (executed) tr p1 p3 bytes responses persist_transaction replicate_transaction where
      "transactions p client = Some tr" "\<not> has_error tr" "check_watched client p = (p1, False)"
      "transaction_commands tr \<noteq> []"
      "replicate_transaction = (role (replication p1) = ROLE_MASTER \<and> source = CLIENT)"
      "persist_transaction = (aof_log p1 \<noteq> None \<and> source \<noteq> AOF)"
      "transaction_loop (replicate_transaction \<or> persist_transaction)
        (transaction_commands tr) (forget_transaction client p1) [] [] = Some (p3, bytes, responses)"
      "(p', r) = log_transaction client replicate_transaction persist_transaction bytes responses p3"
proof (cases "transactions p client")
  case None
  with assms show ?thesis by (intro none) (simp_all add: execute_transaction_def)
next
  case (Some tr)
  obtain p1 changed where w: "check_watched client p = (p1, changed)" by fastforce
  have fields: "replication (forget_transaction client p1) = replication p1" "aof_log (forget_transaction client p1) = aof_log p1"
    by (simp_all add: forget_transaction_def)
  show ?thesis
  proof (cases "has_error tr \<or> changed \<or> transaction_commands tr = []")
    case True
    with assms Some w show ?thesis
      by (intro refused [OF Some w _ True]) (auto simp: execute_transaction_def Let_def split: if_splits)
  next
    case False
    define rep where "rep = (role (replication p1) = ROLE_MASTER \<and> source = CLIENT)"
    define per where "per = (aof_log p1 \<noteq> None \<and> source \<noteq> AOF)"
    have "execute_transaction client source p =
        transaction_loop (rep \<or> per) (transaction_commands tr) (forget_transaction client p1) [] [] \<bind>
          (\<lambda>(p3, bytes, responses). Some (log_transaction client rep per bytes responses p3))"
      using False Some w by (simp add: execute_transaction_def Let_def fields rep_def per_def)
    with assms obtain p3 bytes responses where
      loop: "transaction_loop (rep \<or> per) (transaction_commands tr) (forget_transaction client p1) [] [] =
        Some (p3, bytes, responses)"
      and log: "(p', r) = log_transaction client rep per bytes responses p3"
      by (cases "transaction_loop (rep \<or> per) (transaction_commands tr) (forget_transaction client p1) [] []") auto
    from False w show ?thesis by (intro executed [OF Some _ _ _ rep_def per_def loop log]) simp_all
  qed
qed

lemma forget_transaction_frame [simp]:
  "bookkeeping (forget_transaction client p) = bookkeeping p" "client_part (forget_transaction client p) = client_part p"
  "store_part (forget_transaction client p) = store_part p" "replication_part (forget_transaction client p) = replication_part p"
  "default_user (forget_transaction client p) = default_user p"
  by (simp_all add: forget_transaction_def parts)

lemma check_watched_frame:
  assumes "check_watched client p = (p1, changed)"
  shows "bookkeeping p1 = bookkeeping p \<and> client_part p1 = client_part p \<and> replication_part p1 = replication_part p \<and>
    transaction_part p1 = transaction_part p \<and> aof_log p1 = aof_log p \<and> default_user p1 = default_user p"
  using assms by (auto simp: check_watched_def split: option.splits dest: watched_key_changed_frame)

lemma log_transaction_frame:
  assumes "(p', r) = log_transaction client replicate_transaction persist_transaction bytes responses p"
  shows "bookkeeping p' = bookkeeping p \<and> client_part p' = client_part p \<and> default_user p' = default_user p \<and>
    transaction_part p' = transaction_part p \<and> database p' = database p"
proof (cases "bytes = []")
  case False
  obtain p4 logged where a: "(if persist_transaction then append_log (bytes @ serialize_command [''EXEC'']) p
      else (p, Inr ())) = (p4, logged)" by fastforce
  have "bookkeeping p4 = bookkeeping p \<and> client_part p4 = client_part p \<and> default_user p4 = default_user p \<and>
      transaction_part p4 = transaction_part p \<and> database p4 = database p"
    using a append_log_frame [of _ p p4 logged] by (auto split: if_splits)
  with assms False a show ?thesis
    by (auto simp: log_transaction_def store_part_eqs [OF append_client_replication_frame_frame(3)] split: sum.splits)
qed (use assms in \<open>simp add: log_transaction_def\<close>)

lemma transaction_part_forget:
  "transaction_part p1 = transaction_part p \<Longrightarrow>
   transaction_part (forget_transaction client p1) = transaction_part (forget_transaction client p)"
  by (simp add: transaction_part_def forget_transaction_def)

lemma execute_transaction_frame:
  assumes "execute_transaction client source p = Some (p', r)"
  shows "bookkeeping p' = bookkeeping p \<and> client_part p' = client_part p \<and> default_user p' = default_user p \<and>
    transaction_part p' = (if transactions p client = None then transaction_part p
      else transaction_part (forget_transaction client p))"
  using assms
proof (cases rule: execute_transaction_cases)
  case none
  then show ?thesis by simp
next
  case (refused tr p1 changed)
  from check_watched_frame [OF refused(2)] transaction_part_forget [of p1 p client] refused(1,3) show ?thesis by simp
next
  case (executed tr p1 p3 bytes responses)
  from check_watched_frame [OF executed(3)] transaction_loop_frame [OF executed(7)] log_transaction_frame [OF executed(8)]
    transaction_part_forget [of p1 p client] executed(1)
  show ?thesis by simp
qed

section \<open>All commands\<close>

text \<open>The effects of a command outside of the tables of clients.\<close>

lemma process_command_effects:
  assumes "process_command client command source p = Some (p', r)"
  obtains (clients) "rest_part p' = rest_part p"
  | (watch) "named ''WATCH'' command" "watch client command p = (p', r)"
  | (unwatch) "named ''UNWATCH'' command" "p' = p\<lparr>watched_keys := (watched_keys p)(client := None)\<rparr>"
  | (multi) "named ''MULTI'' command" "transactions p client = None"
      "p' = p\<lparr>transactions := (transactions p)(client \<mapsto> \<lparr>transaction_commands = [], has_error = False\<rparr>)\<rparr>"
  | (exec) "named ''EXEC'' command" "execute_transaction client source p = Some (p', r)"
  | (discard) "named ''DISCARD'' command" "p' = forget_transaction client p"
  | (queue) t where "transactions p client = Some t" "command \<noteq> []"
      "p' = p\<lparr>transactions :=
          (transactions p)(client \<mapsto> t\<lparr>transaction_commands := transaction_commands t @ [command]\<rparr>)\<rparr>"
  | (run) "transactions p client = None" "command \<noteq> []" "run_dispatch command p = Some (p', r)"
proof (cases rule: process_command_cases [of client command source p])
  case (pure r')
  with assms clients show ?thesis by simp
next
  case subscribe
  with assms clients show ?thesis by (auto intro: client_commands_restD)
next
  case unsubscribe
  with assms clients show ?thesis by (auto intro: client_commands_restD)
next
  case publish
  with assms clients show ?thesis by (auto intro: client_commands_restD)
next
  case auth
  with assms clients show ?thesis by (auto intro: client_commands_restD)
next
  case acl
  with assms clients show ?thesis by (auto intro: client_commands_restD)
next
  case watch
  with assms show ?thesis by (intro that(2)) simp_all
next
  case unwatch
  with assms show ?thesis by (intro that(3)) simp_all
next
  case multi
  with assms show ?thesis by (intro that(4)) simp_all
next
  case exec
  with assms show ?thesis by (intro that(5)) simp_all
next
  case discard
  with assms show ?thesis by (intro that(6)) simp_all
next
  case (queue t)
  with assms show ?thesis by (intro that(7) [of t]) simp_all
next
  case run
  with assms show ?thesis by (intro that(8)) simp_all
qed

lemma process_command_bookkeeping:
  assumes "process_command client command source p = Some (p', r)"
  shows "bookkeeping p' = bookkeeping p"
  using assms
proof (cases rule: process_command_effects)
  case clients
  then show ?thesis by (rule rest_partD)
next
  case watch
  with watch_frame show ?thesis by blast
next
  case exec
  with execute_transaction_frame show ?thesis by blast
next
  case run
  with run_dispatch_frame(1) show ?thesis by blast
qed (simp_all add: bookkeeping_def forget_transaction_def)

section \<open>Tasks\<close>

lemma log_direct_write_frame:
  assumes "log_direct_write t replicate_write persist_write response p = (p', r)"
  shows "bookkeeping p' = bookkeeping p \<and> client_part p' = client_part p \<and> transaction_part p' = transaction_part p \<and>
    database p' = database p \<and> default_user p' = default_user p"
proof -
  let ?bytes = "serialize_command (normalize_replication_command (task_command t) response)"
  obtain p1 logged where l: "(if persist_write then append_log ?bytes p else (p, Inr ())) = (p1, logged)" by fastforce
  have k: "bookkeeping p1 = bookkeeping p \<and> client_part p1 = client_part p \<and> transaction_part p1 = transaction_part p \<and>
    database p1 = database p \<and> default_user p1 = default_user p"
    using l append_log_frame [of ?bytes p p1 logged] by (simp split: if_splits)
  have "p' = p \<or> p' = p1 \<or> p' = append_client_replication_frame (task_client t) ?bytes p1"
    using assms l by (auto simp: log_direct_write_def Let_def split: if_splits)
  with k show ?thesis by (auto simp: store_part_eqs [OF append_client_replication_frame_frame(3)])
qed

lemma advance_offset_frame [simp]:
  "bookkeeping (advance_offset t r p) = bookkeeping p" "client_part (advance_offset t r p) = client_part p"
  "store_part (advance_offset t r p) = store_part p" "transaction_part (advance_offset t r p) = transaction_part p"
  "default_user (advance_offset t r p) = default_user p"
  by (simp_all add: advance_offset_def parts)

lemma deliver_rest: "deliver t r p = (p', r') \<Longrightarrow> rest_part p' = rest_part p"
  using fst_rest [OF queue_response_rest] by (auto simp: deliver_def split: if_splits)

lemma execute_task_stages:
  assumes "execute_task t p = Some p'"
  obtains p1 response p2 response2 p3 response3 rep per where
    "rep = (role (replication p) = ROLE_MASTER \<and> task_source t = CLIENT \<and>
      transactions p (task_client t) = None \<and> is_write_command (task_command t))"
    "per = (aof_log p \<noteq> None \<and> task_source t \<noteq> AOF \<and>
      transactions p (task_client t) = None \<and> is_write_command (task_command t))"
    "process_command (task_client t) (task_command t) (task_source t) p = Some (p1, response)"
    "log_direct_write t rep per response p1 = (p2, response2)"
    "deliver t response2 (advance_offset t response p2) = (p3, response3)"
    "p' = respond t response3 p3"
proof -
  define rep where "rep = (role (replication p) = ROLE_MASTER \<and> task_source t = CLIENT \<and>
    transactions p (task_client t) = None \<and> is_write_command (task_command t))"
  define per where "per = (aof_log p \<noteq> None \<and> task_source t \<noteq> AOF \<and>
    transactions p (task_client t) = None \<and> is_write_command (task_command t))"
  from assms obtain p1 response where
    c: "process_command (task_client t) (task_command t) (task_source t) p = Some (p1, response)"
    by (auto simp: execute_task_def Let_def Option.bind_eq_Some_conv)
  obtain p2 response2 where l: "log_direct_write t rep per response p1 = (p2, response2)" by fastforce
  obtain p3 response3 where d: "deliver t response2 (advance_offset t response p2) = (p3, response3)" by fastforce
  have "p' = respond t response3 p3"
    using assms c l d unfolding execute_task_def Let_def rep_def per_def by simp
  from that [OF rep_def per_def c l d this] show thesis .
qed

lemma process_blpop_cases:
  assumes "process_blpop t p = Some p'"
  obtains (invalid) e where "parse_blpop (task_command t) = Some (Inl e)" "p' = respond t e p"
  | (popped) r p1 v where "parse_blpop (task_command t) = Some (Inr r)" "pop_for (pop_key r) p = (p1, Inr v)"
      "p' = answer_pop t (pop_key r) v p1"
  | (wrong_type) r p1 where "parse_blpop (task_command t) = Some (Inr r)" "pop_for (pop_key r) p = (p1, Inl WRONG_TYPE)"
      "p' = respond t wrong_type_error p1"
  | (blocked) r p1 e d where "parse_blpop (task_command t) = Some (Inr r)" "pop_for (pop_key r) p = (p1, Inl e)"
      "e \<noteq> WRONG_TYPE" "deadline_of (current_env p1) (pop_timeout r) = Some d"
      "p' = tick (p1\<lparr>pending_list_pops := pending_list_pops p1 @
        [\<lparr>pop_task = t, pending_key = pop_key r, pop_deadline = d\<rparr>]\<rparr>)"
proof -
  from assms obtain request where q: "parse_blpop (task_command t) = Some request"
    by (auto simp: process_blpop_def Option.bind_eq_Some_conv)
  show thesis
  proof (cases request)
    case (Inl e)
    with assms q show ?thesis by (intro invalid) (auto simp: process_blpop_def)
  next
    case (Inr r)
    obtain p1 result where pop: "pop_for (pop_key r) p = (p1, result)" by fastforce
    show ?thesis
    proof (cases result)
      case (Inl e)
      show ?thesis
      proof (cases "e = WRONG_TYPE")
        case True
        with assms q \<open>request = Inr r\<close> pop Inl show ?thesis by (intro wrong_type) (auto simp: process_blpop_def)
      next
        case False
        with assms q \<open>request = Inr r\<close> pop Inl obtain d where
          d: "deadline_of (current_env p1) (pop_timeout r) = Some d"
          "p' = tick (p1\<lparr>pending_list_pops := pending_list_pops p1 @
            [\<lparr>pop_task = t, pending_key = pop_key r, pop_deadline = d\<rparr>]\<rparr>)"
          by (auto simp: process_blpop_def Option.bind_eq_Some_conv)
        from False q \<open>request = Inr r\<close> pop Inl show ?thesis by (intro blocked [OF _ _ _ d]) simp_all
      qed
    next
      case (Inr v)
      with assms q \<open>request = Inr r\<close> pop show ?thesis by (intro popped) (auto simp: process_blpop_def)
    qed
  qed
qed

lemma process_xread_cases:
  assumes "process_xread t p = Some p'"
  obtains (invalid) e where "p' = respond t e p"
  | (answered) c p1 requests result r where "parse_xread (task_command t) = Inr c"
      "read_for (read_requests c) p = (p1, requests, result)" "p' = respond t r p1"
  | (blocked) c p1 requests d where "parse_xread (task_command t) = Inr c"
      "read_for (read_requests c) p = (p1, requests, Inr [])"
      "p' = tick (p1\<lparr>pending_stream_reads := pending_stream_reads p1 @
        [\<lparr>read_task = t, pending_requests = requests, read_deadline = d\<rparr>]\<rparr>)"
proof (cases "parse_xread (task_command t)")
  case (Inl e)
  with assms show ?thesis by (intro invalid) (auto simp: process_xread_def)
next
  case (Inr c)
  obtain p1 requests result where read: "read_for (read_requests c) p = (p1, requests, result)" by (metis prod_cases3)
  show ?thesis
  proof (cases "result = Inr [] \<and> read_mode (options c) \<noteq> IMMEDIATE")
    case True
    with assms Inr read obtain d where
      "p' = tick (p1\<lparr>pending_stream_reads := pending_stream_reads p1 @
        [\<lparr>read_task = t, pending_requests = requests, read_deadline = d\<rparr>]\<rparr>)"
      by (auto simp: process_xread_def Option.bind_eq_Some_conv)
    from blocked [OF Inr _ this] read True show ?thesis by simp
  next
    case False
    with assms Inr read have "\<exists>r. p' = respond t r p1"
      by (cases result) (auto simp: process_xread_def split: if_splits)
    with answered [OF Inr read] show ?thesis by blast
  qed
qed

lemma process_wait_cases:
  assumes "process_wait t p = Some p'"
  obtains (invalid) e where "p' = respond t (SimpleError e) p"
  | (answered) target n where "target = (case client_write_offsets p (task_client t) of None \<Rightarrow> 0 | Some n \<Rightarrow> n)"
      "n = snd (count_acknowledged_replicas target p)"
      "p' = respond t (Integer (int n)) (fst (count_acknowledged_replicas target p))"
  | (blocked) request target p2 d where "role (replication p) = ROLE_MASTER"
      "parse_wait_request (task_command t) = Inr request"
      "target = (case client_write_offsets p (task_client t) of None \<Rightarrow> 0 | Some n \<Rightarrow> n)" "target \<noteq> 0"
      "snd (count_acknowledged_replicas target p) < required_replicas request"
      "p2 = append_replication_frame (serialize_command [''REPLCONF'', ''GETACK'', ''*''])
        (fst (count_acknowledged_replicas target p))"
      "p' = tick (p2\<lparr>pending_waits := pending_waits p2 @
        [\<lparr>wait_task = t, pending_replicas = required_replicas request, target_offset = target, wait_deadline = d\<rparr>]\<rparr>)"
proof (cases "role (replication p) = ROLE_MASTER")
  case False
  with assms invalid show ?thesis by (auto simp: process_wait_def)
next
  case role: True
  show ?thesis
  proof (cases "parse_wait_request (task_command t)")
    case (Inl e)
    moreover from this obtain msg where "e = SimpleError msg"
      by (auto simp: parse_wait_request_def split: if_splits option.splits)
    ultimately show ?thesis using assms role by (intro invalid) (auto simp: process_wait_def)
  next
    case (Inr request)
    define target where "target = (case client_write_offsets p (task_client t) of None \<Rightarrow> 0 | Some n \<Rightarrow> n)"
    define p1 where "p1 = fst (count_acknowledged_replicas target p)"
    define n where "n = snd (count_acknowledged_replicas target p)"
    have pair: "count_acknowledged_replicas target p = (p1, n)" by (simp add: p1_def n_def)
    show ?thesis
    proof (cases "target = 0 \<or> required_replicas request \<le> n")
      case True
      have "p' = respond t (Integer (int n)) p1"
        using assms role Inr True pair by (simp add: process_wait_def Let_def target_def [symmetric])
      then show ?thesis by (intro answered [OF target_def n_def]) (simp add: p1_def)
    next
      case False
      define p2 where "p2 = append_replication_frame (serialize_command [''REPLCONF'', ''GETACK'', ''*'']) p1"
      obtain d where d: "p' = tick (p2\<lparr>pending_waits := pending_waits p2 @
          [\<lparr>wait_task = t, pending_replicas = required_replicas request, target_offset = target, wait_deadline = d\<rparr>]\<rparr>)"
        using assms role Inr False pair
        by (auto simp: process_wait_def Let_def target_def [symmetric] p2_def [symmetric] Option.bind_eq_Some_conv)
      from False show ?thesis
        by (intro blocked [OF role Inr target_def _ _ p2_def [unfolded p1_def] d]) (simp_all add: n_def)
    qed
  qed
qed

text \<open>A task that is refused leaves everything but the sessions as it was.\<close>

lemma process_task_cases:
  assumes "process_task t p = Some p'"
  obtains (refused) r p1 where "rest_part p1 = rest_part p" "default_user p1 = default_user p"
      "p' = respond t r p1" "task_source t = CLIENT" "clients p1 \<subseteq>\<^sub>m clients p"
      "client_subscriptions p1 = client_subscriptions p" "channel_subscribers p1 = channel_subscribers p"
  | (readonly) p1 where "task_source t = CLIENT" "role (replication p) = ROLE_REPLICA" "is_write_command (task_command t)"
      "p1 = (case transactions p (task_client t) of None \<Rightarrow> p
        | Some tr \<Rightarrow> p\<lparr>transactions := (transactions p)(task_client t \<mapsto> tr\<lparr>has_error := True\<rparr>)\<rparr>)"
      "p' = respond t readonly_error p1"
  | (blpop) "named ''BLPOP'' (task_command t)" "process_blpop t p = Some p'" "transactions p (task_client t) = None"
      "\<not> (role (replication p) = ROLE_REPLICA \<and> task_source t = CLIENT \<and> is_write_command (task_command t))"
  | (xread) "process_xread t p = Some p'"
  | (wait) "process_wait t p = Some p'"
  | (execute) "execute_task t p = Some p'"
      "\<not> (role (replication p) = ROLE_REPLICA \<and> task_source t = CLIENT \<and> is_write_command (task_command t))"
      "task_source t = CLIENT \<Longrightarrow> named ''AUTH'' (task_command t) \<or> is_authenticated (task_client t) p"
proof -
  have queued: "rest_part q = rest_part p \<and> default_user q = default_user p \<and> clients q \<subseteq>\<^sub>m clients p \<and>
      client_subscriptions q = client_subscriptions p \<and> channel_subscribers q = channel_subscribers p"
    if "queue_response (task_client t) r p = (q, r')" for q r r'
    using fst_rest [OF queue_response_rest that] that
    by (auto simp: map_le_def queue_response_def enqueue_pubsub_response_def send_frame_def erase_client_def
        split: prod.splits sum.splits if_splits option.splits)
  from assms show thesis
    unfolding process_task_def Let_def
  proof (elim if_eqE, goal_cases)
    case 1
    obtain p1 r where q: "(if client_subscriptions p (task_client t) \<noteq> None then queue_response (task_client t) noauth p
        else (p, noauth)) = (p1, r)" by fastforce
    with 1 queued [of noauth p1 r] show ?case by (intro refused [of p1 r]) (auto split: if_splits)
  next
    case 2
    obtain p1 r where q: "queue_response (task_client t) (subscribed_error (task_command t)) p = (p1, r)" by fastforce
    with 2 queued [OF q] show ?case by (intro refused [of p1 r]) auto
  next
    case 3 then show ?case by (intro readonly [OF _ _ _ refl]) auto
  next
    case 4 then show ?case by (intro blpop) auto
  next
    case 5 then show ?case by (intro xread) auto
  next
    case 6 then show ?case by (intro wait) auto
  next
    case 7 then show ?case by (intro execute) auto
  qed
qed

section \<open>Retries, deadlines and the other tasks\<close>

lemma pop_for_bookkeeping: "pop_for k p = (p', r) \<Longrightarrow> bookkeeping p' = bookkeeping p"
  by (auto simp: pop_for_def bookkeeping_def split: prod.splits)

lemma read_for_bookkeeping: "read_for rs p = (p', rs', r) \<Longrightarrow> bookkeeping p' = bookkeeping p"
  by (auto simp: read_for_def bookkeeping_def split: prod.splits)

text \<open>What no operation of the worker changes.\<close>

definition fixed_part :: "processor \<Rightarrow> promise \<times> world \<times> replication_role \<times> rdb_config \<times> aof_config" where
  "fixed_part p = (next_promise p, outside p, role (replication p), processor_rdb p, processor_aof p)"

lemma fixed_partD:
  assumes "fixed_part p' = fixed_part p"
  shows "next_promise p' = next_promise p" "outside p' = outside p" "role (replication p') = role (replication p)"
  using assms by (simp_all add: fixed_part_def)

lemma fixed_part_bookkeeping: "bookkeeping p' = bookkeeping p \<Longrightarrow> fixed_part p' = fixed_part p"
  by (simp add: fixed_part_def bookkeeping_def)

lemma fixed_part_fulfil [simp]: "fixed_part (fulfil q r p) = fixed_part p"
  by (simp add: fixed_part_def fulfil_def)

lemma fixed_part_tick [simp]: "fixed_part (tick p) = fixed_part p"
  by (simp add: fixed_part_def)

text \<open>What the loops over the blocked commands keep.\<close>

definition quiet_part :: "processor \<Rightarrow> _" where
  "quiet_part p = (fixed_part p, tasks p, client_part p, transaction_part p, default_user p, next_ref p)"

lemma quiet_partD:
  assumes "quiet_part p' = quiet_part p"
  shows "fixed_part p' = fixed_part p" "tasks p' = tasks p" "client_part p' = client_part p"
    "transaction_part p' = transaction_part p" "default_user p' = default_user p" "next_ref p' = next_ref p"
  using assms by (simp_all add: quiet_part_def)

lemma quiet_part_fulfil [simp]: "quiet_part (fulfil q r p) = quiet_part p"
  by (simp add: quiet_part_def)

lemma quiet_part_tick [simp]: "quiet_part (tick p) = quiet_part p"
  by (simp add: quiet_part_def parts)

lemma quiet_part_updates [simp]:
  "quiet_part (p\<lparr>pending_list_pops := xs\<rparr>) = quiet_part p" "quiet_part (p\<lparr>pending_stream_reads := ys\<rparr>) = quiet_part p"
  "quiet_part (p\<lparr>pending_waits := zs\<rparr>) = quiet_part p" "quiet_part (p\<lparr>fulfilled := fs\<rparr>) = quiet_part p"
  "quiet_part (p\<lparr>replica_sessions := rs\<rparr>) = quiet_part p" "quiet_part (p\<lparr>database := db\<rparr>) = quiet_part p"
  by (simp_all add: quiet_part_def parts fixed_part_def)

lemma answer_pop_quiet [simp]: "quiet_part (answer_pop t k v p) = quiet_part p"
proof -
  obtain p1 r where b: "persist_blocking_pop t k p = (p1, r)" by fastforce
  have "quiet_part p1 = quiet_part p"
    using persist_blocking_pop_frame [OF b] by (simp add: quiet_part_def parts fixed_part_def)
  with b show ?thesis by (auto simp: answer_pop_def split: sum.splits)
qed

lemma pop_for_quiet: "pop_for k p = (p', r) \<Longrightarrow> quiet_part p' = quiet_part p"
  by (auto simp: pop_for_def split: prod.splits)

lemma read_for_quiet: "read_for rs p = (p', rs', r) \<Longrightarrow> quiet_part p' = quiet_part p"
  by (auto simp: read_for_def split: prod.splits)

lemma count_acknowledged_quiet: "count_acknowledged_replicas target p = (p', n) \<Longrightarrow> quiet_part p' = quiet_part p"
  by (auto simp: count_acknowledged_replicas_def Let_def)

lemma retry_list_pops_quiet: "quiet_part (fst (retry_list_pops xs p)) = quiet_part p"
proof (induction xs arbitrary: p)
  case (Cons x xs)
  obtain p1 r where pop: "pop_for (pending_key x) p = (p1, r)" by fastforce
  from Cons.IH [of p1] Cons.IH [of "answer_pop (pop_task x) (pending_key x) _ p1"]
    Cons.IH [of "respond (pop_task x) wrong_type_error p1"] pop_for_quiet [OF pop] pop
  show ?case by (auto split: sum.splits prod.splits)
qed simp

lemma retry_stream_reads_quiet: "quiet_part (fst (retry_stream_reads xs p)) = quiet_part p"
proof (induction xs arbitrary: p)
  case (Cons x xs)
  obtain p1 requests r where read: "read_for (pending_requests x) p = (p1, requests, r)" by (metis prod_cases3)
  from Cons.IH [of p1] Cons.IH [of "respond (read_task x) _ p1"] read_for_quiet [OF read] read
  show ?case by (auto split: sum.splits prod.splits)
qed simp

lemma retry_waits_quiet: "quiet_part (fst (retry_waits xs p)) = quiet_part p"
proof (induction xs arbitrary: p)
  case (Cons x xs)
  obtain p1 n where c: "count_acknowledged_replicas (target_offset x) p = (p1, n)" by fastforce
  from Cons.IH [of p1] Cons.IH [of "respond (wait_task x) _ p1"] count_acknowledged_quiet [OF c] c
  show ?case by (auto split: prod.splits)
qed simp

lemma expire_waits_quiet: "quiet_part (fst (expire_waits now xs p)) = quiet_part p"
proof (induction xs arbitrary: p)
  case (Cons x xs)
  obtain p1 n where c: "count_acknowledged_replicas (target_offset x) p = (p1, n)" by fastforce
  from Cons.IH [of p] Cons.IH [of "respond (wait_task x) _ p1"] count_acknowledged_quiet [OF c] c
  show ?case by (auto split: prod.splits)
qed simp

lemma retry_all_quiet [simp]: "quiet_part (retry_all p) = quiet_part p"
proof -
  have "quiet_part (retry_pending_list_pops q) = quiet_part q" for q
    using retry_list_pops_quiet [of "pending_list_pops q" q] by (auto simp: retry_pending_list_pops_def split: prod.splits)
  moreover have "quiet_part (retry_pending_stream_reads q) = quiet_part q" for q
    using retry_stream_reads_quiet [of "pending_stream_reads q" q]
    by (auto simp: retry_pending_stream_reads_def split: prod.splits)
  moreover have "quiet_part (retry_pending_waits q) = quiet_part q" for q
    using retry_waits_quiet [of "pending_waits q" q] by (auto simp: retry_pending_waits_def split: prod.splits)
  ultimately show ?thesis by (simp add: retry_all_def)
qed

lemma expire_all_quiet [simp]: "quiet_part (expire_all p) = quiet_part p"
proof -
  have "quiet_part (expire_pending_waits q) = quiet_part q" for q
    using expire_waits_quiet [of "steady_clock (current_env q) 0" "pending_waits q" q]
    by (auto simp: expire_pending_waits_def split: prod.splits)
  then show ?thesis
    by (simp add: expire_all_def expire_pending_list_pops_def expire_pending_stream_reads_def Let_def)
qed

section \<open>One iteration\<close>

lemma replay_commands_bookkeeping:
  assumes "replay_commands commands p = Some (p', failure)"
  shows "bookkeeping p' = bookkeeping p"
  using assms
proof (induction commands p rule: replay_commands.induct)
  case (2 command commands p)
  from "2.prems" obtain p1 r where c: "process_command aof_client_id command AOF p = Some (p1, r)"
    by (auto simp: Option.bind_eq_Some_conv)
  have k: "bookkeeping p1 = bookkeeping p" by (rule process_command_bookkeeping [OF c])
  show ?case
  proof (cases r)
    case (SimpleError e)
    with "2.prems" c k show ?thesis by simp
  qed (use "2.prems" "2.IH" [OF c refl] c k in simp_all)
qed simp

lemma process_task_fixed:
  assumes "process_task t p = Some p'"
  shows "fixed_part p' = fixed_part p \<and> tasks p' = tasks p"
  using assms
proof (cases rule: process_task_cases)
  case (refused r p1)
  from fixed_part_bookkeeping [OF rest_partD(1) [OF refused(1)]] bookkeeping_eqs(1) [OF rest_partD(1) [OF refused(1)]] refused(3)
  show ?thesis by simp
next
  case (readonly p1)
  then show ?thesis by (simp add: fixed_part_def split: option.splits)
next
  case blpop
  from blpop(2) have "quiet_part p' = quiet_part p"
    by (cases rule: process_blpop_cases) (auto dest: pop_for_quiet)
  with quiet_partD show ?thesis by blast
next
  case xread
  then have "quiet_part p' = quiet_part p"
    by (cases rule: process_xread_cases) (auto dest: read_for_quiet)
  with quiet_partD show ?thesis by blast
next
  case wait
  then show ?thesis
    by (cases rule: process_wait_cases)
      (simp_all add: count_acknowledged_replicas_def append_replication_frame_def Let_def fixed_part_def)
next
  case execute
  from execute(1) show ?thesis
  proof (cases rule: execute_task_stages)
    case (1 p1 response p2 response2 p3 response3 rep per)
    have b: "bookkeeping p3 = bookkeeping p"
      using process_command_bookkeeping [OF 1(3)] log_direct_write_frame [OF 1(4)] rest_partD(1) [OF deliver_rest [OF 1(5)]]
      by simp
    from fixed_part_bookkeeping [OF b] bookkeeping_eqs(1) [OF b] 1(6) show ?thesis by simp
  qed
qed

lemma process_fixed:
  assumes "process t p = Some p'"
  shows "fixed_part p' = fixed_part p \<and> tasks p' = tasks p"
proof (cases t)
  case (CommandTask c)
  with assms process_task_fixed show ?thesis by (simp add: process_def)
next
  case (LoadRdbTask es q)
  with assms show ?thesis by (auto simp: process_def process_rdb_load_def Option.bind_eq_Some_conv fixed_part_def)
next
  case (InitializeAofTask f commands q)
  with assms obtain p1 failure where c: "replay_commands commands p = Some (p1, failure)"
    by (auto simp: process_def process_aof_initialization_def Option.bind_eq_Some_conv)
  note b = replay_commands_bookkeeping [OF c]
  from assms InitializeAofTask c fixed_part_bookkeeping [OF b] bookkeeping_eqs(1) [OF b] show ?thesis
    by (auto simp: process_def process_aof_initialization_def forget_transaction_def fixed_part_def
        split: option.splits if_splits)
qed (use assms in \<open>auto simp: process_def process_replica_registration_def process_replication_state_installation_def
    process_replication_offset_request_def process_replica_acknowledgement_def process_client_registration_def
    process_client_unregistration_def cancel_pending_commands_def Let_def fixed_part_def split: option.splits\<close>)

lemma run_iteration_cases:
  assumes "run_iteration p = Some p'"
  obtains (idle) "tasks p = []" "p' = expire_all p"
  | (task) t ts p1 where "tasks p = t # ts" "process t (p\<lparr>tasks := ts\<rparr>) = Some p1" "p' = expire_all (retry_all p1)"
  using assms by (cases "tasks p") (auto simp: run_iteration_def Option.bind_eq_Some_conv)

lemma run_iteration_fixed:
  assumes "run_iteration p = Some p'"
  shows "fixed_part p' = fixed_part p"
  using assms
proof (cases rule: run_iteration_cases)
  case idle
  then show ?thesis using quiet_partD(1) [OF expire_all_quiet] by simp
next
  case (task t ts p1)
  have "fixed_part p' = fixed_part p1"
    using task(3) quiet_partD(1) [of "expire_all (retry_all p1)" p1] by simp
  with process_fixed [OF task(2)] show ?thesis by (simp add: fixed_part_def)
qed

end
