(* ===== verification/Processor_Promises.thy ===== *)
theory Processor_Promises
  imports Processor_Frame "HOL-Library.Multiset"
begin

text \<open>
  The processor as a state machine, and the accounting of promises over it: every task that was submitted
  is either waiting in the queue, or blocked, or answered exactly once.
\<close>

section \<open>The state machine\<close>

text \<open>
  Other threads submit tasks, open, drain and drop sessions; the worker runs an iteration when there is a
  task, or checks the deadlines when one was reached. A step of the worker without defined behaviour
  (\<^const>\<open>None\<close>) leads nowhere.
\<close>

inductive submitted :: "processor \<Rightarrow> processor \<Rightarrow> bool" where
  "submit client command p = (p', q) \<Longrightarrow> client \<noteq> 0 \<Longrightarrow> client \<noteq> aof_client_id \<Longrightarrow> submitted p p'"
| "apply_replication command bytes p = (p', q) \<Longrightarrow> submitted p p'"
| "install_replication_state new_id new_offset p = (p', q) \<Longrightarrow> submitted p p'"
| "replication_offset p = (p', q) \<Longrightarrow> submitted p p'"
| "acknowledge_replica client acknowledged p = (p', q) \<Longrightarrow> submitted p p'"
| "register_replica client p = (p', q) \<Longrightarrow> submitted p p'"
| "load_rdb_entries es p = (p', q) \<Longrightarrow> submitted p p'"
| "initialize_aof file commands p = (p', q) \<Longrightarrow> submitted p p'"
| "register_client client r p = (p', q) \<Longrightarrow> client \<noteq> 0 \<Longrightarrow> client \<noteq> aof_client_id \<Longrightarrow> submitted p p'"
| "unregister_client client p = (p', q) \<Longrightarrow> submitted p p'"

inductive connection_step :: "processor \<Rightarrow> processor \<Rightarrow> bool" where
  open_session: "pubsub_heap p r = None \<Longrightarrow>
    connection_step p (p\<lparr>pubsub_heap := (pubsub_heap p)(r \<mapsto> new_session outcomes)\<rparr>)"
| take_frame: "pubsub_heap p r = Some s \<Longrightarrow> pop_frame s = (s', f) \<Longrightarrow>
    connection_step p (p\<lparr>pubsub_heap := (pubsub_heap p)(r \<mapsto> s')\<rparr>)"
| clear: "pubsub_heap p r = Some s \<Longrightarrow> clear_notification outcome s = (s', result) \<Longrightarrow>
    connection_step p (p\<lparr>pubsub_heap := (pubsub_heap p)(r \<mapsto> s')\<rparr>)"
| drop_session: "connection_step p (p\<lparr>pubsub_heap := (pubsub_heap p)(r := None)\<rparr>)"
| take_replica_frame: "replica_heap p r = Some s \<Longrightarrow> wait_for_frame stop_requested s = Some (s', f) \<Longrightarrow>
    connection_step p (p\<lparr>replica_heap := (replica_heap p)(r \<mapsto> s')\<rparr>)"
| close_replica: "replica_heap p r = Some s \<Longrightarrow>
    connection_step p (p\<lparr>replica_heap := (replica_heap p)(r \<mapsto> close_session s)\<rparr>)"
| drop_replica: "connection_step p (p\<lparr>replica_heap := (replica_heap p)(r := None)\<rparr>)"

inductive processor_step :: "processor \<Rightarrow> processor \<Rightarrow> bool" where
  submission: "submitted p p' \<Longrightarrow> processor_step p p'"
| connection: "connection_step p p' \<Longrightarrow> processor_step p p'"
| iteration: "tasks p \<noteq> [] \<Longrightarrow> run_iteration p = Some p' \<Longrightarrow> processor_step p p'"
| deadline: "tasks p = [] \<Longrightarrow> next_pending_deadline p \<noteq> None \<Longrightarrow> run_iteration p = Some p' \<Longrightarrow> processor_step p p'"

inductive processor_reachable :: "processor \<Rightarrow> bool" where
  start: "processor_reachable (new_processor w distribution master rdb aof password_hash)"
| step: "processor_reachable p \<Longrightarrow> processor_step p p' \<Longrightarrow> processor_reachable p'"

section \<open>Accounting\<close>

fun promise_of :: "processor_task \<Rightarrow> promise" where
  "promise_of (CommandTask t) = task_promise t"
| "promise_of (RegisterReplicaTask client q) = q"
| "promise_of (InstallReplicationStateTask new_id new_offset q) = q"
| "promise_of (GetReplicationOffsetTask q) = q"
| "promise_of (AcknowledgeReplicaTask client acknowledged q) = q"
| "promise_of (LoadRdbTask es q) = q"
| "promise_of (InitializeAofTask file commands q) = q"
| "promise_of (RegisterClientTask client r q) = q"
| "promise_of (UnregisterClientTask client q) = q"

abbreviation pop_promises :: "pending_list_pop list \<Rightarrow> promise multiset" where
  "pop_promises xs \<equiv> mset (map (\<lambda>x. task_promise (pop_task x)) xs)"

abbreviation read_promises :: "pending_stream_read list \<Rightarrow> promise multiset" where
  "read_promises xs \<equiv> mset (map (\<lambda>x. task_promise (read_task x)) xs)"

abbreviation wait_promises :: "pending_wait list \<Rightarrow> promise multiset" where
  "wait_promises xs \<equiv> mset (map (\<lambda>x. task_promise (wait_task x)) xs)"

text \<open>The promises of tasks that have not been answered: queued, and blocked.\<close>

definition outstanding :: "processor \<Rightarrow> promise multiset" where
  "outstanding p =
     mset (map promise_of (tasks p)) + pop_promises (pending_list_pops p) +
     read_promises (pending_stream_reads p) + wait_promises (pending_waits p)"

definition answered :: "processor \<Rightarrow> promise multiset" where
  "answered p = mset (map fst (fulfilled p))"

definition accounted :: "processor \<Rightarrow> promise multiset" where
  "accounted p = outstanding p + answered p"

lemmas accounting = accounted_def outstanding_def answered_def

lemma accounted_bookkeeping: "bookkeeping p' = bookkeeping p \<Longrightarrow> accounted p' = accounted p"
  by (simp add: accounting bookkeeping_def)

lemma accounted_fulfil [simp]: "accounted (fulfil q r p) = add_mset q (accounted p)"
  by (simp add: accounting)

lemma accounted_tick [simp]: "accounted (tick p) = accounted p"
  by (simp add: accounting)

lemma accounted_updates [simp]:
  "accounted (p\<lparr>database := db\<rparr>) = accounted p" "accounted (p\<lparr>replica_sessions := rs\<rparr>) = accounted p"
  "accounted (p\<lparr>pubsub_heap := h\<rparr>) = accounted p" "accounted (p\<lparr>replica_heap := g\<rparr>) = accounted p"
  "accounted (p\<lparr>replication := s\<rparr>) = accounted p" "accounted (p\<lparr>transactions := ts\<rparr>) = accounted p"
  by (simp_all add: accounting)

subsection \<open>Command tasks\<close>

lemma queue_response_accounted:
  "queue_response client response p = (p', r) \<Longrightarrow> accounted p' = accounted p"
  by (rule accounted_bookkeeping, rule rest_partD(1), rule fst_rest [OF queue_response_rest])

lemma execute_task_accounted:
  assumes "execute_task t p = Some p'"
  shows "accounted p' = add_mset (task_promise t) (accounted p)"
  using assms
proof (cases rule: execute_task_stages)
  case (1 p1 response p2 response2 p3 response3 rep per)
  have "bookkeeping p3 = bookkeeping p"
    using process_command_bookkeeping [OF 1(3)] log_direct_write_frame [OF 1(4)] rest_partD(1) [OF deliver_rest [OF 1(5)]]
    by simp
  from accounted_bookkeeping [OF this] 1(6) show ?thesis by simp
qed

lemma answer_pop_accounted: "accounted (answer_pop t k v p) = add_mset (task_promise t) (accounted p)"
proof -
  obtain p1 r where b: "persist_blocking_pop t k p = (p1, r)" by fastforce
  with accounted_bookkeeping [OF persist_blocking_pop_frame(1) [OF b]] show ?thesis
    by (auto simp: answer_pop_def split: sum.splits)
qed

lemma accounted_block [simp]:
  "accounted (p\<lparr>pending_list_pops := pending_list_pops p @ [x]\<rparr>) = add_mset (task_promise (pop_task x)) (accounted p)"
  "accounted (p\<lparr>pending_stream_reads := pending_stream_reads p @ [y]\<rparr>) = add_mset (task_promise (read_task y)) (accounted p)"
  "accounted (p\<lparr>pending_waits := pending_waits p @ [z]\<rparr>) = add_mset (task_promise (wait_task z)) (accounted p)"
  by (simp_all add: accounting)

lemma process_blpop_accounted:
  assumes "process_blpop t p = Some p'"
  shows "accounted p' = add_mset (task_promise t) (accounted p)"
  using assms
  by (cases rule: process_blpop_cases)
    (auto simp: answer_pop_accounted dest!: pop_for_bookkeeping accounted_bookkeeping)

lemma process_xread_accounted:
  assumes "process_xread t p = Some p'"
  shows "accounted p' = add_mset (task_promise t) (accounted p)"
  using assms
  by (cases rule: process_xread_cases) (auto dest!: read_for_bookkeeping accounted_bookkeeping)

lemma count_acknowledged_replicas_state:
  "fst (count_acknowledged_replicas target p) =
   p\<lparr>replica_sessions := filter (\<lambda>r. replica_heap p r \<noteq> None) (replica_sessions p)\<rparr>"
  by (simp add: count_acknowledged_replicas_def Let_def)

lemma process_wait_accounted:
  assumes "process_wait t p = Some p'"
  shows "accounted p' = add_mset (task_promise t) (accounted p)"
proof -
  have f: "accounted (append_replication_frame bytes q) = accounted q" for bytes q
    by (rule accounted_bookkeeping) simp
  from assms show ?thesis
    by (cases rule: process_wait_cases) (simp_all add: count_acknowledged_replicas_state f)
qed

lemma process_task_accounted:
  assumes "process_task t p = Some p'"
  shows "accounted p' = add_mset (task_promise t) (accounted p)"
  using assms
proof (cases rule: process_task_cases)
  case (refused r p1)
  from accounted_bookkeeping [OF rest_partD(1) [OF refused(1)]] refused(3) show ?thesis by simp
next
  case (readonly p1)
  then show ?thesis by (simp split: option.splits)
qed (simp_all add: execute_task_accounted process_blpop_accounted process_xread_accounted process_wait_accounted)

subsection \<open>The other tasks\<close>

lemma cancel_promises:
  "mset (map fst (cancel f client xs)) + mset (map (\<lambda>x. task_promise (f x)) (filter (\<lambda>x. task_client (f x) \<noteq> client) xs)) =
   mset (map (\<lambda>x. task_promise (f x)) xs)"
  by (induction xs) (simp_all add: cancel_def)

lemma accounted_replace:
  "accounted (p\<lparr>pending_list_pops := xs\<rparr>) + pop_promises (pending_list_pops p) = accounted p + pop_promises xs"
  "accounted (p\<lparr>pending_stream_reads := ys\<rparr>) + read_promises (pending_stream_reads p) = accounted p + read_promises ys"
  "accounted (p\<lparr>pending_waits := zs\<rparr>) + wait_promises (pending_waits p) = accounted p + wait_promises zs"
  by (simp_all add: accounting ac_simps)

lemma accounted_answers: "accounted (p\<lparr>fulfilled := fulfilled p @ rs\<rparr>) = accounted p + mset (map fst rs)"
  by (simp add: accounting ac_simps)

text \<open>Answering a part of a queue and keeping the rest.\<close>

lemma accounted_part:
  assumes "mset (map fst rs) + pop_promises xs = pop_promises (pending_list_pops p)"
  shows "accounted (p\<lparr>fulfilled := fulfilled p @ rs, pending_list_pops := xs\<rparr>) = accounted p"
  using accounted_replace(1) [of xs "p\<lparr>fulfilled := fulfilled p @ rs\<rparr>"] accounted_answers [of p rs] assms
  by (simp add: ac_simps)

lemma accounted_part_reads:
  assumes "mset (map fst rs) + read_promises xs = read_promises (pending_stream_reads p)"
  shows "accounted (p\<lparr>fulfilled := fulfilled p @ rs, pending_stream_reads := xs\<rparr>) = accounted p"
  using accounted_replace(2) [of xs "p\<lparr>fulfilled := fulfilled p @ rs\<rparr>"] accounted_answers [of p rs] assms
  by (simp add: ac_simps)

lemma accounted_part_waits:
  assumes "mset (map fst rs) + wait_promises xs = wait_promises (pending_waits p)"
  shows "accounted (p\<lparr>fulfilled := fulfilled p @ rs, pending_waits := xs\<rparr>) = accounted p"
  using accounted_replace(3) [of xs "p\<lparr>fulfilled := fulfilled p @ rs\<rparr>"] accounted_answers [of p rs] assms
  by (simp add: ac_simps)

lemma cancel_pending_commands_accounted: "accounted (cancel_pending_commands client p) = accounted p"
proof -
  let ?pops = "filter (\<lambda>x. task_client (pop_task x) \<noteq> client) (pending_list_pops p)"
  let ?reads = "filter (\<lambda>x. task_client (read_task x) \<noteq> client) (pending_stream_reads p)"
  let ?waits = "filter (\<lambda>x. task_client (wait_task x) \<noteq> client) (pending_waits p)"
  let ?p1 = "p\<lparr>fulfilled := fulfilled p @ cancel pop_task client (pending_list_pops p), pending_list_pops := ?pops\<rparr>"
  let ?p2 = "?p1\<lparr>fulfilled := fulfilled ?p1 @ cancel read_task client (pending_stream_reads p), pending_stream_reads := ?reads\<rparr>"
  let ?p3 = "?p2\<lparr>fulfilled := fulfilled ?p2 @ cancel wait_task client (pending_waits p), pending_waits := ?waits\<rparr>"
  have "accounted ?p3 = accounted ?p2" by (rule accounted_part_waits) (use cancel_promises [of wait_task] in simp)
  also have "\<dots> = accounted ?p1" by (rule accounted_part_reads) (use cancel_promises [of read_task] in simp)
  also have "\<dots> = accounted p" by (rule accounted_part) (use cancel_promises [of pop_task] in simp)
  finally have "accounted ?p3 = accounted p" .
  moreover have "cancel_pending_commands client p = ?p3"
    by (rule processor.equality) (simp_all add: cancel_pending_commands_def)
  ultimately show ?thesis by simp
qed

lemma process_accounted:
  assumes "process t p = Some p'"
  shows "accounted p' = add_mset (promise_of t) (accounted p)"
proof (cases t)
  case (CommandTask c)
  with assms process_task_accounted show ?thesis by (simp add: process_def)
next
  case (LoadRdbTask es q)
  with assms show ?thesis by (auto simp: process_def process_rdb_load_def Option.bind_eq_Some_conv)
next
  case (InitializeAofTask f commands q)
  with assms obtain p1 failure where c: "replay_commands commands p = Some (p1, failure)"
    by (auto simp: process_def process_aof_initialization_def Option.bind_eq_Some_conv)
  have k: "accounted p1 = accounted p" by (rule accounted_bookkeeping, rule replay_commands_bookkeeping [OF c])
  have f: "accounted (forget_transaction client p1) = accounted p1" for client by (rule accounted_bookkeeping) simp
  have g: "accounted (x\<lparr>aof_log := l\<rparr>) = accounted x" for x l by (simp add: accounting)
  from assms InitializeAofTask c k f g show ?thesis
    by (auto simp: process_def process_aof_initialization_def split: option.splits if_splits)
next
  case (UnregisterClientTask client q)
  have "accounted p' = add_mset q (accounted (cancel_pending_commands client p))"
    using assms UnregisterClientTask
    by (auto simp: process_def process_client_unregistration_def Let_def accounting split: option.splits)
  then show ?thesis by (simp add: cancel_pending_commands_accounted UnregisterClientTask)
qed (use assms in \<open>auto simp: process_def process_replica_registration_def process_replication_state_installation_def
    process_replication_offset_request_def process_replica_acknowledgement_def process_client_registration_def Let_def accounting\<close>)

subsection \<open>Retries and deadlines\<close>

lemma retry_list_pops_accounted:
  "retry_list_pops xs p = (p', rest) \<Longrightarrow>
   accounted p' + pop_promises rest = accounted p + pop_promises xs \<and> pending_list_pops p' = pending_list_pops p"
proof (induction xs arbitrary: p p' rest)
  case (Cons x xs)
  obtain p1 r where pop: "pop_for (pending_key x) p = (p1, r)" by fastforce
  have k: "accounted p1 = accounted p" "pending_list_pops p1 = pending_list_pops p"
    using pop_for_bookkeeping [OF pop] accounted_bookkeeping bookkeeping_eqs(2) by blast+
  have a: "pending_list_pops (answer_pop t key v q) = pending_list_pops q" for t key v q
    using bookkeeping_eqs(2) [OF persist_blocking_pop_frame(1)]
    by (auto simp: answer_pop_def split: prod.splits sum.splits)
  show ?case
  proof (cases r)
    case (Inr v)
    with Cons.prems pop Cons.IH [of "answer_pop (pop_task x) (pending_key x) v p1"] k show ?thesis
      by (auto simp: answer_pop_accounted a)
  next
    case (Inl e)
    show ?thesis
    proof (cases "e = WRONG_TYPE")
      case True
      with Cons.prems pop Inl Cons.IH [of "respond (pop_task x) wrong_type_error p1"] k show ?thesis by auto
    next
      case False
      obtain p2 rest2 where r2: "retry_list_pops xs p1 = (p2, rest2)" by fastforce
      with Cons.prems pop Inl False Cons.IH [OF r2] k show ?thesis by auto
    qed
  qed
qed simp

lemma retry_pending_list_pops_accounted: "accounted (retry_pending_list_pops p) = accounted p"
proof -
  obtain p1 rest where r: "retry_list_pops (pending_list_pops p) p = (p1, rest)" by fastforce
  from retry_list_pops_accounted [OF r] accounted_replace(1) [of rest p1] r show ?thesis
    by (simp add: retry_pending_list_pops_def)
qed

lemma retry_stream_reads_accounted:
  "retry_stream_reads xs p = (p', rest) \<Longrightarrow>
   accounted p' + read_promises rest = accounted p + read_promises xs \<and> pending_stream_reads p' = pending_stream_reads p"
proof (induction xs arbitrary: p p' rest)
  case (Cons x xs)
  obtain p1 requests r where read: "read_for (pending_requests x) p = (p1, requests, r)" by (metis prod_cases3)
  have k: "accounted p1 = accounted p" "pending_stream_reads p1 = pending_stream_reads p"
    using read_for_bookkeeping [OF read] accounted_bookkeeping bookkeeping_eqs(3) by blast+
  obtain p2 rest2 where r2: "retry_stream_reads xs p1 = (p2, rest2)" by fastforce
  from Cons.prems read r2 Cons.IH [OF r2] Cons.IH [of "respond (read_task x) _ p1"] k show ?case
    by (auto split: sum.splits if_splits)
qed simp

lemma retry_pending_stream_reads_accounted: "accounted (retry_pending_stream_reads p) = accounted p"
proof -
  obtain p1 rest where r: "retry_stream_reads (pending_stream_reads p) p = (p1, rest)" by fastforce
  from retry_stream_reads_accounted [OF r] accounted_replace(2) [of rest p1] r show ?thesis
    by (simp add: retry_pending_stream_reads_def)
qed

lemma count_acknowledged_replicas_accounted:
  "count_acknowledged_replicas target p = (p', n) \<Longrightarrow> accounted p' = accounted p \<and> pending_waits p' = pending_waits p"
  by (auto simp: count_acknowledged_replicas_def Let_def)

lemma retry_waits_accounted:
  "retry_waits xs p = (p', rest) \<Longrightarrow>
   accounted p' + wait_promises rest = accounted p + wait_promises xs \<and> pending_waits p' = pending_waits p"
proof (induction xs arbitrary: p p' rest)
  case (Cons x xs)
  obtain p1 n where c: "count_acknowledged_replicas (target_offset x) p = (p1, n)" by fastforce
  obtain p2 rest2 where r2: "retry_waits xs p1 = (p2, rest2)" by fastforce
  from Cons.prems c r2 Cons.IH [OF r2] Cons.IH [of "respond (wait_task x) _ p1"] count_acknowledged_replicas_accounted [OF c]
  show ?case by (auto split: if_splits)
qed simp

lemma retry_pending_waits_accounted: "accounted (retry_pending_waits p) = accounted p"
proof -
  obtain p1 rest where r: "retry_waits (pending_waits p) p = (p1, rest)" by fastforce
  from retry_waits_accounted [OF r] accounted_replace(3) [of rest p1] r show ?thesis
    by (simp add: retry_pending_waits_def)
qed

lemma expire_waits_accounted:
  "expire_waits now xs p = (p', rest) \<Longrightarrow>
   accounted p' + wait_promises rest = accounted p + wait_promises xs \<and> pending_waits p' = pending_waits p"
proof (induction xs arbitrary: p p' rest)
  case (Cons x xs)
  obtain p1 n where c: "count_acknowledged_replicas (target_offset x) p = (p1, n)" by fastforce
  obtain p2 rest2 where r2: "expire_waits now xs p = (p2, rest2)" by fastforce
  from Cons.prems c r2 Cons.IH [OF r2] Cons.IH [of "respond (wait_task x) _ p1"] count_acknowledged_replicas_accounted [OF c]
  show ?case by (auto split: if_splits)
qed simp

lemma filter_promises:
  "mset (map fst (map (\<lambda>x. (g x, r)) (filter P xs))) + mset (map g (filter (\<lambda>x. \<not> P x) xs)) = mset (map g xs)"
  by (induction xs) simp_all

lemma expire_all_accounted: "accounted (expire_all p) = accounted p"
proof -
  have pops: "accounted (expire_pending_list_pops q) = accounted q" for q
    unfolding expire_pending_list_pops_def Let_def accounted_tick
    by (rule accounted_part) (rule filter_promises)
  have reads: "accounted (expire_pending_stream_reads q) = accounted q" for q
    unfolding expire_pending_stream_reads_def Let_def accounted_tick
    by (rule accounted_part_reads) (rule filter_promises)
  have waits: "accounted (expire_pending_waits q) = accounted q" for q
  proof -
    obtain p1 rest where r: "expire_waits (steady_clock (current_env q) 0) (pending_waits q) q = (p1, rest)" by fastforce
    from expire_waits_accounted [OF r] accounted_replace(3) [of rest p1] r show ?thesis
      by (simp add: expire_pending_waits_def)
  qed
  show ?thesis by (simp add: expire_all_def pops reads waits)
qed

lemma run_iteration_accounted:
  assumes "run_iteration p = Some p'"
  shows "accounted p' = accounted p"
proof (cases "tasks p")
  case Nil
  with assms have "p' = expire_all p" by (simp add: run_iteration_def)
  then show ?thesis by (simp add: expire_all_accounted)
next
  case (Cons t ts)
  with assms obtain p1 where t: "process t (p\<lparr>tasks := ts\<rparr>) = Some p1" "p' = expire_all (retry_all p1)"
    by (auto simp: run_iteration_def Option.bind_eq_Some_conv)
  have "accounted p' = accounted p1"
    by (simp add: t(2) expire_all_accounted retry_all_def retry_pending_waits_accounted retry_pending_stream_reads_accounted
        retry_pending_list_pops_accounted)
  also have "\<dots> = add_mset (promise_of t) (accounted (p\<lparr>tasks := ts\<rparr>))" by (rule process_accounted [OF t(1)])
  also have "\<dots> = accounted p" by (simp add: Cons accounting)
  finally show ?thesis .
qed

section \<open>Every task is answered exactly once\<close>

lemma submit_task_accounted:
  assumes "submit_task new_task p = (p', q)" "promise_of (new_task (next_promise p)) = next_promise p"
  shows "accounted p' = add_mset (next_promise p) (accounted p) \<and> next_promise p' = Suc (next_promise p)"
  using assms by (auto simp: submit_task_def accounting)

lemma processor_step_accounted:
  assumes "processor_step p p'" "accounted p = mset [0..<next_promise p]"
  shows "accounted p' = mset [0..<next_promise p']"
  using assms(1)
proof cases
  case submission
  then have "accounted p' = add_mset (next_promise p) (accounted p) \<and> next_promise p' = Suc (next_promise p)"
    by cases (auto simp: submit_def enqueue_def apply_replication_def install_replication_state_def replication_offset_def
      acknowledge_replica_def register_replica_def load_rdb_entries_def initialize_aof_def register_client_def
      unregister_client_def dest!: submit_task_accounted)
  with assms(2) show ?thesis by simp
next
  case connection
  then have "accounted p' = accounted p \<and> next_promise p' = next_promise p" by cases simp_all
  with assms(2) show ?thesis by simp
next
  case iteration
  with assms(2) run_iteration_accounted fixed_partD(1) [OF run_iteration_fixed] show ?thesis by simp
next
  case deadline
  with assms(2) run_iteration_accounted fixed_partD(1) [OF run_iteration_fixed] show ?thesis by simp
qed

lemma processor_reachable_accounted:
  assumes "processor_reachable p"
  shows "accounted p = mset [0..<next_promise p]"
  using assms
proof (induction rule: processor_reachable.induct)
  case (start w distribution master rdb aof password_hash)
  show ?case by (simp add: accounting new_processor_def)
next
  case (step p p')
  then show ?case by (blast intro: processor_step_accounted)
qed

lemma count_upt: "count (mset [0..<n]) q = (if q < n then 1 else 0)"
  by (induction n) auto

text \<open>
  C1: Every command and every other task is answered exactly once. In every state that the processor can
  reach, each promise made so far either was fulfilled exactly once, or belongs to exactly one task that
  waits in the queue or is blocked; no promise is fulfilled that was not made. So no caller waits for a
  task that was lost, no promise is set twice (which would throw in the worker), and once the queue is
  empty and nothing is blocked, everyone has an answer.
\<close>

theorem answered_exactly_once:
  assumes "processor_reachable p"
  shows "distinct (map fst (fulfilled p)) \<and>
    (\<forall>q. q \<in> fst ` set (fulfilled p) \<longleftrightarrow> q < next_promise p \<and> q \<notin># outstanding p) \<and>
    (\<forall>q. count (outstanding p) q \<le> 1)"
proof -
  have all: "outstanding p + answered p = mset [0..<next_promise p]"
    using processor_reachable_accounted [OF assms] by (simp add: accounted_def)
  have one: "count (outstanding p) q + count (answered p) q = (if q < next_promise p then 1 else 0)" for q
    using arg_cong [OF all, of "\<lambda>M. count M q"] by (simp add: count_upt)
  have "count (answered p) q \<le> 1" for q using one [of q] by (simp split: if_splits)
  then have "distinct (map fst (fulfilled p))"
    unfolding answered_def by (metis distinct_count_atmost_1 set_mset_mset count_mset_0_iff le_antisym
        not_less_eq_eq One_nat_def le_zero_eq)
  moreover have "q \<in> fst ` set (fulfilled p) \<longleftrightarrow> q < next_promise p \<and> q \<notin># outstanding p" for q
  proof -
    have "q \<in> fst ` set (fulfilled p) \<longleftrightarrow> count (answered p) q \<noteq> 0" by (auto simp: answered_def count_mset_0_iff)
    moreover have "q \<notin># outstanding p \<longleftrightarrow> count (outstanding p) q = 0" by (rule not_in_iff)
    ultimately show ?thesis using one [of q] by (cases "q < next_promise p") presburger+
  qed
  moreover have "count (outstanding p) q \<le> 1" for q using one [of q] by (simp split: if_splits)
  ultimately show ?thesis by blast
qed

text \<open>A concrete processor: the clocks stand still and hash tables are traversed in order.\<close>

definition still_world :: world where
  "still_world =
     \<lparr>envs = (\<lambda>_. still_env), evp_digest = Some, channel_order = sorted_list_of_set,
      subscriber_order = sorted_list_of_set, watch_order = (\<lambda>m. sorted_list_of_set (dom m))\<rparr>"

definition fresh_processor :: processor where
  "fresh_processor =
     new_processor still_world (\<lambda>_. 0) None (config_rdb default_config) (config_aof default_config) None"

lemma fresh_processor_reachable: "processor_reachable fresh_processor"
  unfolding fresh_processor_def by (rule processor_reachable.start)

lemmas worker_simps = run_iteration_def process_def process_task_def retry_all_def retry_pending_list_pops_def
  retry_pending_stream_reads_def retry_pending_waits_def expire_all_def expire_pending_list_pops_def
  expire_pending_stream_reads_def expire_pending_waits_def submit_def enqueue_def submit_task_def

theorem answered_exactly_once_witness:
  "fst ` set (fulfilled (the (run_iteration (fst (submit 7 [''PING''] fresh_processor))))) = {0}"
proof -
  let ?p1 = "fst (submit 7 [''PING''] fresh_processor)"
  have s: "submitted fresh_processor ?p1"
    by (rule submitted.intros(1) [of 7 "[''PING'']" _ _ "snd (submit 7 [''PING''] fresh_processor)"])
      (simp_all add: aof_client_id_def)
  obtain p2 where run: "run_iteration ?p1 = Some p2" and f: "next_promise p2 = 1" "outstanding p2 = {#}"
    by (simp add: worker_simps fresh_processor_def new_processor_def named_def is_authenticated_def outstanding_def Let_def)
  have t: "tasks ?p1 \<noteq> []" by (simp add: submit_def enqueue_def submit_task_def)
  have "processor_reachable p2"
    by (rule processor_reachable.step [OF _ processor_step.iteration [OF t run]],
        rule processor_reachable.step [OF fresh_processor_reachable processor_step.submission [OF s]])
  from answered_exactly_once [OF this] f run show ?thesis by auto
qed

end
