(* ===== verification/Processor_Access.thy ===== *)
theory Processor_Access
  imports Processor_Promises
begin

text \<open>
  Who may do what: clients that have not authenticated, how a client becomes authenticated, and what
  clients of a replica can do to its store.
\<close>

section \<open>Authentication\<close>

text \<open>Apart from \<open>AUTH\<close> and registration, the table of clients only ever loses entries.\<close>

lemma map_le_erase: "m(k := None) \<subseteq>\<^sub>m m"
  by (simp add: map_le_def)

lemma clients_client_part: "client_part p' = client_part p \<Longrightarrow> clients p' = clients p"
  by (simp add: client_part_def)

lemma send_frame_clients: "clients (fst (send_frame r session frame p)) = clients p"
  by (simp add: send_frame_def split: prod.splits)

lemma acknowledge_clients: "clients (fst (acknowledge r session bytes p)) = clients p"
  using send_frame_clients [of r session bytes p] by (auto simp: acknowledge_def split: prod.splits sum.splits)

lemma subscribe_loop_clients: "clients (fst (subscribe_loop client channels p bytes)) = clients p"
  by (induction client channels p bytes rule: subscribe_loop.induct) (simp_all add: Let_def)

lemma remove_subscription_clients: "clients (fst (remove_subscription client channel p)) = clients p"
  by (simp add: remove_subscription_def Let_def split: option.splits)

lemma unsubscribe_loop_clients: "clients (fst (unsubscribe_loop client channels p bytes)) = clients p"
proof (induction client channels p bytes rule: unsubscribe_loop.induct)
  case (2 client channel channels p bytes)
  then show ?case using remove_subscription_clients [of client channel p] by (auto split: prod.splits)
qed simp

lemma drop_subscriber_clients: "clients (drop_subscriber channel client p) = (clients p)(client := None)"
  by (simp add: drop_subscriber_def erase_client_def Let_def split: option.splits)

lemma publish_loop_clients: "clients (fst (publish_loop channel frame subscribers p n)) \<subseteq>\<^sub>m clients p"
proof (induction channel frame subscribers p n rule: publish_loop.induct)
  case (2 channel frame client subscribers p n)
  show ?case
  proof (cases "lock_session client p")
    case None
    from 2(1) [OF None] have "clients (fst (publish_loop channel frame subscribers (drop_subscriber channel client p) n)) \<subseteq>\<^sub>m
        clients (drop_subscriber channel client p)" .
    also have "\<dots> \<subseteq>\<^sub>m clients p" by (simp add: drop_subscriber_clients map_le_erase)
    finally (map_le_trans) show ?thesis using None by simp
  next
    case (Some rs)
    obtain r session where rs: "rs = (r, session)" by fastforce
    obtain p1 result where s: "send_frame r session frame p = (p1, result)" by fastforce
    from 2(2) [OF Some rs [symmetric] s [symmetric]] send_frame_clients [of r session frame p] Some rs s show ?thesis by simp
  qed
qed simp

lemma client_commands_clients:
  "clients (fst (subscribe client command p)) \<subseteq>\<^sub>m clients p"
  "clients (fst (unsubscribe client command p)) \<subseteq>\<^sub>m clients p"
  "clients (fst (publish command p)) \<subseteq>\<^sub>m clients p"
  "clients (fst (process_acl_command client command p)) \<subseteq>\<^sub>m clients p"
  "clients (fst (queue_response client response p)) \<subseteq>\<^sub>m clients p"
proof -
  have loop: "clients q = clients p" if "subscribe_loop client channels p [] = (q, bytes)" for channels q bytes
    using subscribe_loop_clients [of client channels p "[]"] that by simp
  have unloop: "clients q = clients p" if "unsubscribe_loop client channels p [] = (q, bytes)" for channels q bytes
    using unsubscribe_loop_clients [of client channels p "[]"] that by simp
  show "clients (fst (subscribe client command p)) \<subseteq>\<^sub>m clients p"
    by (auto simp: subscribe_def erase_client_def map_le_erase acknowledge_clients split: option.splits prod.splits dest!: loop)
  show "clients (fst (unsubscribe client command p)) \<subseteq>\<^sub>m clients p"
    by (auto simp: unsubscribe_def erase_client_def map_le_erase acknowledge_clients
        split: option.splits prod.splits dest!: unloop)
  show "clients (fst (publish command p)) \<subseteq>\<^sub>m clients p"
  proof -
    have "clients q \<subseteq>\<^sub>m clients p" if "publish_loop channel frame subscribers p 0 = (q, n)" for channel frame subscribers q n
      using publish_loop_clients [of channel frame subscribers p 0] that by simp
    then show ?thesis by (auto simp: publish_def split: option.splits prod.splits)
  qed
  show "clients (fst (process_acl_command client command p)) \<subseteq>\<^sub>m clients p"
    by (simp add: process_acl_command_def acl_setuser_def split: sum.splits)
  show "clients (fst (queue_response client response p)) \<subseteq>\<^sub>m clients p"
    by (auto simp: queue_response_def enqueue_pubsub_response_def send_frame_def erase_client_def map_le_erase
        split: option.splits prod.splits sum.splits)
qed

lemma is_authenticated_le: "clients p' \<subseteq>\<^sub>m clients p \<Longrightarrow> is_authenticated c p' \<Longrightarrow> is_authenticated c p"
  by (auto simp: is_authenticated_def map_le_def dom_def split: option.splits)

text \<open>The credentials that \<open>AUTH\<close> accepts: the default user, without a password or with one of its hashes.\<close>

definition credentials_accepted :: "command \<Rightarrow> processor \<Rightarrow> bool" where
  "credentials_accepted command p \<longleftrightarrow>
     (length command = 2 \<or> length command = 3 \<and> command ! 1 = ''default'') \<and>
     (no_password (default_user p) \<or>
      (\<exists>h \<in> password_hashes (default_user p). sha256 (evp_digest (outside p)) (last command) = Inr h))"

lemma authenticate_grants:
  assumes "authenticate client command p = (p', r)" "is_authenticated c p'" "\<not> is_authenticated c p"
  shows "c = client \<and> credentials_accepted command p"
proof -
  have last: "last command = command ! 1" if "length command = 2" using that by (cases command) (auto simp: last_conv_nth)
  have last3: "last command = command ! 2" if "length command = 3" using that by (cases command) (auto simp: last_conv_nth)
  from assms last last3 show ?thesis
    by (auto simp: authenticate_def credentials_accepted_def Let_def is_authenticated_def split: if_splits option.splits sum.splits)
qed

lemma process_command_grants:
  assumes "process_command client command source p = Some (p', r)" "is_authenticated c p'" "\<not> is_authenticated c p"
  shows "c = client \<and> named ''AUTH'' command \<and> credentials_accepted command p"
proof (cases rule: process_command_cases [of client command source p])
  case auth
  with assms authenticate_grants show ?thesis by auto
next
  case subscribe
  with assms is_authenticated_le [OF client_commands_clients(1) [of client command p]] show ?thesis by simp
next
  case unsubscribe
  with assms is_authenticated_le [OF client_commands_clients(2) [of client command p]] show ?thesis by simp
next
  case publish
  with assms is_authenticated_le [OF client_commands_clients(3) [of command p]] show ?thesis by simp
next
  case acl
  with assms is_authenticated_le [OF client_commands_clients(4) [of client command p]] show ?thesis by simp
next
  case watch
  with assms(1) have "watch client command p = (p', r)" by simp
  from watch_frame [OF this] assms(2,3) show ?thesis by (simp add: is_authenticated_def client_part_def)
next
  case exec
  with assms(1) have "execute_transaction client source p = Some (p', r)" by simp
  from execute_transaction_frame [OF this] assms(2,3) show ?thesis by (simp add: is_authenticated_def client_part_def)
next
  case run
  with assms(1) have "run_dispatch command p = Some (p', r)" by simp
  from run_dispatch_frame(2) [OF this] assms(2,3) show ?thesis by (simp add: is_authenticated_def client_part_def)
qed (use assms in \<open>auto simp: is_authenticated_def forget_transaction_def\<close>)

lemma process_task_grants:
  assumes "process_task t p = Some p'" "is_authenticated c p'" "\<not> is_authenticated c p"
  shows "c = task_client t \<and> named ''AUTH'' (task_command t) \<and> credentials_accepted (task_command t) p"
proof -
  have kept: False if "client_part p' = client_part p"
    using assms(2,3) that by (simp add: is_authenticated_def client_part_def)
  have le: False if "clients q \<subseteq>\<^sub>m clients p" "p' = respond t r q" for q r
    using is_authenticated_le [OF that(1), of c] assms(2,3) that(2) by (simp add: is_authenticated_def)
  from assms(1) show ?thesis
  proof (cases rule: process_task_cases)
    case (refused r p1)
    with le show ?thesis by blast
  next
    case (readonly p1)
    with kept show ?thesis by (simp add: client_part_def split: option.splits)
  next
    case blpop
    from blpop(2) have "quiet_part p' = quiet_part p"
      by (cases rule: process_blpop_cases) (auto dest: pop_for_quiet)
    with kept quiet_partD(3) show ?thesis by blast
  next
    case xread
    then have "quiet_part p' = quiet_part p"
      by (cases rule: process_xread_cases) (auto dest: read_for_quiet)
    with kept quiet_partD(3) show ?thesis by blast
  next
    case wait
    then have "client_part p' = client_part p"
      by (cases rule: process_wait_cases)
        (simp_all add: count_acknowledged_replicas_def append_replication_frame_def Let_def client_part_def)
    with kept show ?thesis by blast
  next
    case execute
    from execute(1) show ?thesis
    proof (cases rule: execute_task_stages)
      case (1 p1 response p2 response2 p3 response3 rep per)
      have same: "clients (advance_offset t response p2) = clients p1"
        using log_direct_write_frame [OF 1(4)] by (simp add: advance_offset_def client_part_def)
      have "clients p3 \<subseteq>\<^sub>m clients p1"
        using 1(5) client_commands_clients(5) [of "task_client t" response2 "advance_offset t response p2"] same
        by (auto simp: deliver_def split: if_splits)
      then have "is_authenticated c p1"
        using is_authenticated_le [of p3 p1 c] assms(2) 1(6) by (simp add: is_authenticated_def)
      from process_command_grants [OF 1(3) this assms(3)] show ?thesis .
    qed
  qed
qed

lemma replay_commands_grants:
  assumes "replay_commands commands p = Some (p', failure)" "is_authenticated c p'" "\<not> is_authenticated c p"
  shows "c = aof_client_id"
  using assms
proof (induction commands p rule: replay_commands.induct)
  case (2 command commands p)
  from "2.prems"(1) obtain p1 r where cmd: "process_command aof_client_id command AOF p = Some (p1, r)"
    by (auto simp: Option.bind_eq_Some_conv)
  show ?case
  proof (cases "is_authenticated c p1")
    case True
    with process_command_grants [OF cmd] "2.prems"(3) show ?thesis by blast
  next
    case False
    with "2.prems" "2.IH" [OF cmd refl] cmd show ?thesis by (cases r) simp_all
  qed
qed simp

lemma process_grants:
  assumes "process t p = Some p'" "is_authenticated c p'" "\<not> is_authenticated c p" "c \<noteq> aof_client_id"
  shows "(\<exists>r q. t = RegisterClientTask c r q) \<and> no_password (default_user p) \<or>
    (\<exists>u. t = CommandTask u \<and> task_client u = c \<and> named ''AUTH'' (task_command u) \<and> credentials_accepted (task_command u) p)"
proof -
  have kept: False if "\<And>x. clients p' c = Some x \<Longrightarrow> clients p c = Some x"
    using assms(2,3) that by (auto simp: is_authenticated_def split: option.splits)
  show ?thesis
  proof (cases t)
    case (CommandTask u)
    with assms process_task_grants [of u p p' c] show ?thesis by (simp add: process_def)
  next
    case (LoadRdbTask es q)
    with assms(1) kept show ?thesis by (auto simp: process_def process_rdb_load_def Option.bind_eq_Some_conv)
  next
    case (InitializeAofTask f commands q)
    with assms(1) obtain p1 failure where c: "replay_commands commands p = Some (p1, failure)" and "clients p' = clients p1"
      by (auto simp: process_def process_aof_initialization_def Option.bind_eq_Some_conv forget_transaction_def
          split: option.splits if_splits)
    with replay_commands_grants [OF c, of "c"] assms(2-4) show ?thesis by (simp add: is_authenticated_def)
  next
    case (RegisterClientTask client r q)
    with assms(1-3) show ?thesis
      by (cases "client = c") (auto simp: process_def process_client_registration_def is_authenticated_def)
  next
    case (UnregisterClientTask client q)
    with assms(1) have "clients p' = (clients p)(client := None)"
      by (auto simp: process_def process_client_unregistration_def cancel_pending_commands_def Let_def split: option.splits)
    then have False by (intro kept) (simp split: if_splits)
    then show ?thesis ..
  qed (use assms(1) kept in \<open>auto simp: process_def process_replica_registration_def
      process_replication_state_installation_def process_replication_offset_request_def process_replica_acknowledgement_def
      Let_def\<close>)
qed

lemma run_iteration_grants:
  assumes "run_iteration p = Some p'" "is_authenticated c p'" "\<not> is_authenticated c p" "c \<noteq> aof_client_id"
  shows "\<exists>t ts. tasks p = t # ts \<and>
    ((\<exists>r q. t = RegisterClientTask c r q) \<and> no_password (default_user p) \<or>
     (\<exists>u. t = CommandTask u \<and> task_client u = c \<and> named ''AUTH'' (task_command u) \<and> credentials_accepted (task_command u) p))"
  using assms(1)
proof (cases rule: run_iteration_cases)
  case idle
  with quiet_partD(3) [OF expire_all_quiet [of p]] assms(2,3) show ?thesis
    by (simp add: is_authenticated_def client_part_def)
next
  case (task t ts p1)
  have "client_part p' = client_part p1" using quiet_partD(3) [of "expire_all (retry_all p1)" p1] task(3) by simp
  then have "is_authenticated c p1" using assms(2) by (simp add: is_authenticated_def client_part_def)
  moreover have "\<not> is_authenticated c (p\<lparr>tasks := ts\<rparr>)" using assms(3) by (simp add: is_authenticated_def)
  ultimately show ?thesis
    using process_grants [OF task(2), of c] task(1) assms(4) by (auto simp: credentials_accepted_def)
qed



text \<open>
  C14: Authentication needs the password. In any step of the processor, a client becomes authenticated only
  in one of two ways: it is registered while the default user has no password, or its own \<open>AUTH\<close> command
  is processed, names the default user (or none), and the user has no password or a hash that the given
  password has. In particular no change of the user's passwords authenticates anyone.
\<close>

theorem authentication_needs_credentials:
  assumes "processor_step p p'" "\<not> is_authenticated c p" "is_authenticated c p'" "c \<noteq> aof_client_id"
  shows "\<exists>t ts. tasks p = t # ts \<and>
    ((\<exists>r q. t = RegisterClientTask c r q) \<and> no_password (default_user p) \<or>
     (\<exists>u. t = CommandTask u \<and> task_client u = c \<and> named ''AUTH'' (task_command u) \<and> credentials_accepted (task_command u) p))"
  using assms(1)
proof cases
  case submission
  then have "clients p' = clients p"
    by cases (auto simp: submit_def enqueue_def apply_replication_def install_replication_state_def replication_offset_def
      acknowledge_replica_def register_replica_def load_rdb_entries_def initialize_aof_def register_client_def
      unregister_client_def submit_task_def)
  with assms(2,3) show ?thesis by (simp add: is_authenticated_def)
next
  case connection
  then have "clients p' = clients p" by cases simp_all
  with assms(2,3) show ?thesis by (simp add: is_authenticated_def)
next
  case iteration
  with run_iteration_grants assms(2-4) show ?thesis by blast
next
  case deadline
  with run_iteration_grants assms(2-4) show ?thesis by blast
qed

definition registering_processor :: processor where
  "registering_processor = fst (register_client 7 0 fresh_processor)"

theorem authentication_needs_credentials_witness:
  "\<exists>t ts. tasks registering_processor = t # ts \<and> (\<exists>r q. t = RegisterClientTask 7 r q)"
proof -
  have run: "run_iteration registering_processor = Some (the (run_iteration registering_processor))"
    and auth: "is_authenticated 7 (the (run_iteration registering_processor))"
    and t: "tasks registering_processor \<noteq> []"
    by (simp_all add: worker_simps registering_processor_def register_client_def process_client_registration_def
        fresh_processor_def new_processor_def make_default_acl_user_def is_authenticated_def Let_def)
  have "\<not> is_authenticated 7 registering_processor" "(7 :: client_id) \<noteq> aof_client_id"
    by (simp_all add: registering_processor_def register_client_def submit_task_def fresh_processor_def new_processor_def
        is_authenticated_def aof_client_id_def)
  from authentication_needs_credentials [OF processor_step.iteration [OF t run] this(1) auth this(2)]
  show ?thesis
    by (auto simp: registering_processor_def register_client_def submit_task_def fresh_processor_def new_processor_def)
qed

end
