(* ===== verification/Processor_Store.thy ===== *)
theory Processor_Store
  imports Processor_Access
begin

text \<open>
  What the steps of the processor do to the store: every step keeps the store's invariant and marks what
  it changes (\<open>tracked\<close>), and the steps that are not writes only remove entries whose time is up
  (\<open>swept\<close>). On a replica, no client can cause any other change.
\<close>

section \<open>Steps that only sweep\<close>

text \<open>The clock readings between two states of a run.\<close>

definition readings :: "processor \<Rightarrow> processor \<Rightarrow> time_point set" where
  "readings p p' = {steady_clock (envs (outside p) n) i |n i. calls p \<le> n \<and> n < calls p'}"

definition swept :: "processor \<Rightarrow> processor \<Rightarrow> bool" where
  "swept p p' \<longleftrightarrow> outside p' = outside p \<and> calls p \<le> calls p' \<and> sweeps (readings p p') (database p) (database p')"

lemma swept_refl [simp]: "swept p p"
  by (simp add: swept_def)

lemma swept_trans [trans]:
  assumes "swept p p1" "swept p1 p2"
  shows "swept p p2"
proof -
  have "readings p p1 \<subseteq> readings p p2" "readings p1 p2 \<subseteq> readings p p2"
    using assms by (auto simp: swept_def readings_def intro: le_trans less_le_trans)
  then have "sweeps (readings p p2) (database p) (database p2)"
    using assms sweeps_trans [OF sweeps_mono sweeps_mono] unfolding swept_def by blast
  with assms show ?thesis by (simp add: swept_def)
qed

lemma swept_same: "outside p' = outside p \<Longrightarrow> database p' = database p \<Longrightarrow> calls p \<le> calls p' \<Longrightarrow> swept p p'"
  by (simp add: swept_def)

lemma swept_cong:
  "swept p p' \<Longrightarrow> outside q = outside p' \<Longrightarrow> database q = database p' \<Longrightarrow> calls p' \<le> calls q \<Longrightarrow> swept p q"
  by (rule swept_trans [OF _ swept_same])

lemma swept_call:
  assumes "sweeps (range (steady_clock (current_env p))) (database p) db"
  shows "swept p (tick (p\<lparr>database := db\<rparr>))"
proof -
  have "range (steady_clock (current_env p)) \<subseteq> readings p (tick (p\<lparr>database := db\<rparr>))"
    by (auto simp: readings_def current_env_def)
  with sweeps_mono [OF assms] show ?thesis by (simp add: swept_def)
qed

lemma swept_contents:
  "swept p p' \<Longrightarrow> \<forall>t \<in> readings p p'. t \<le> now \<Longrightarrow> contents now (database p') = contents now (database p)"
  unfolding swept_def by (blast intro: sweeps_contents)

lemma run_dispatch_swept:
  assumes "run_dispatch command p = Some (p', r)" "\<not> is_write_command command"
  shows "swept p p'"
  using assms by (auto simp: run_dispatch_def Option.bind_eq_Some_conv intro!: swept_call dispatch_read_only_sweeps)

lemma key_revision_swept: "swept p (tick (p\<lparr>database := fst (key_revision (steady_clock (current_env p) 0) k (database p))\<rparr>))"
  by (intro swept_call) simp

lemma watched_key_changed_swept: "swept p (fst (watched_key_changed watched ks p))"
proof (induction watched ks p rule: watched_key_changed.induct)
  case (2 watched k ks p)
  obtain db revision where r: "key_revision (steady_clock (current_env p) 0) k (database p) = (db, revision)" by fastforce
  have "swept p (tick (p\<lparr>database := db\<rparr>))" using key_revision_swept [of p k] r by simp
  moreover from 2 [OF r [symmetric] refl] have "watched k = Some revision \<Longrightarrow>
      swept (tick (p\<lparr>database := db\<rparr>)) (fst (watched_key_changed watched ks (tick (p\<lparr>database := db\<rparr>))))" by simp
  ultimately show ?case using r swept_trans by (auto simp: Let_def)
qed simp

lemma check_watched_swept: "swept p (fst (check_watched client p))"
  by (simp add: check_watched_def watched_key_changed_swept split: option.splits)

lemma watch_loop_swept: "swept p (fst (watch_loop ks watched p))"
proof (induction ks watched p rule: watch_loop.induct)
  case (2 k ks watched p)
  obtain db revision where r: "key_revision (steady_clock (current_env p) 0) k (database p) = (db, revision)" by fastforce
  have "swept p (tick (p\<lparr>database := db\<rparr>))" using key_revision_swept [of p k] r by simp
  moreover from 2(2) [OF _ r [symmetric]] have "watched k = None \<Longrightarrow>
      swept (tick (p\<lparr>database := db\<rparr>)) (fst (watch_loop ks (watched(k \<mapsto> revision)) (tick (p\<lparr>database := db\<rparr>))))"
    by blast
  ultimately show ?case using 2(1) r swept_trans by (auto simp del: fun_upd_apply)
qed simp

lemma watch_swept: "swept p (fst (watch client command p))"
proof -
  obtain q w where "watch_loop (tl command) (case watched_keys p client of None \<Rightarrow> Map.empty | Some m \<Rightarrow> m) p = (q, w)"
    by fastforce
  with watch_loop_swept [of p "tl command" "case watched_keys p client of None \<Rightarrow> Map.empty | Some m \<Rightarrow> m"]
  show ?thesis by (auto simp: watch_def intro: swept_cong)
qed

lemma transaction_loop_swept:
  assumes "transaction_loop record_writes commands p bytes responses = Some (p', bytes', responses')"
    "\<forall>c \<in> set commands. \<not> is_write_command c"
  shows "swept p p' \<and> bytes' = bytes"
  using assms
proof (induction commands arbitrary: p bytes responses)
  case (Cons c commands)
  from Cons.prems obtain p1 r where run: "run_dispatch c p = Some (p1, r)"
    and rest: "transaction_loop record_writes commands p1 bytes (responses @ [r]) = Some (p', bytes', responses')"
    by (auto simp: Option.bind_eq_Some_conv)
  from Cons.IH [OF rest] Cons.prems(2) run_dispatch_swept [OF run] swept_trans show ?case by auto
qed simp

lemma outside_bookkeeping: "bookkeeping p' = bookkeeping p \<Longrightarrow> outside p' = outside p"
  by (simp add: bookkeeping_def)

text \<open>A command that is no write, from a client whose transaction holds no write.\<close>

definition harmless :: "client_id \<Rightarrow> processor \<Rightarrow> bool" where
  "harmless client p \<longleftrightarrow>
     (\<forall>tr. transactions p client = Some tr \<longrightarrow> (\<forall>c \<in> set (transaction_commands tr). \<not> is_write_command c))"

lemma execute_transaction_swept:
  assumes "execute_transaction client source p = Some (p', r)" "harmless client p"
  shows "swept p p' \<and> aof_log p' = aof_log p \<and> replication_part p' = replication_part p"
  using assms(1)
proof (cases rule: execute_transaction_cases)
  case none
  then show ?thesis by simp
next
  case (refused tr p1 changed)
  from check_watched_swept [of p client] refused(2) have "swept p p1" by simp
  then show ?thesis using refused(3) check_watched_frame [OF refused(2)]
    by (auto simp: forget_transaction_def replication_part_def intro: swept_cong)
next
  case (executed tr p1 p3 bytes responses per rep)
  from check_watched_swept [of p client] executed(3) have "swept p p1" by simp
  then have one: "swept p (forget_transaction client p1)"
    by (rule swept_cong) (simp_all add: forget_transaction_def)
  have "\<forall>c \<in> set (transaction_commands tr). \<not> is_write_command c" using assms(2) executed(1) by (simp add: harmless_def)
  from transaction_loop_swept [OF executed(7) this] have two: "swept (forget_transaction client p1) p3" and "bytes = []"
    by simp_all
  then have "p' = p3" using executed(8) by (simp add: log_transaction_def)
  with swept_trans [OF one two] check_watched_frame [OF executed(3)] transaction_loop_frame [OF executed(7)] show ?thesis
    by (simp add: forget_transaction_def replication_part_def)
qed

lemma process_command_swept:
  assumes "process_command client command source p = Some (p', r)" "\<not> is_write_command command" "harmless client p"
  shows "swept p p' \<and> aof_log p' = aof_log p \<and> replication_part p' = replication_part p"
  using assms(1)
proof (cases rule: process_command_effects)
  case clients
  note k = rest_partD [OF this]
  from k outside_bookkeeping [OF k(1)] show ?thesis by (auto simp: store_part_def intro: swept_same)
next
  case watch
  from watch_swept [of p client command] watch watch_frame [OF watch(2)] show ?thesis by simp
next
  case exec
  from execute_transaction_swept [OF exec(2) assms(3)] show ?thesis .
next
  case run
  from run_dispatch_swept [OF run(3) assms(2)] run_dispatch_frame [OF run(3)] show ?thesis by simp
qed (simp_all add: swept_same forget_transaction_def replication_part_def)

section \<open>Clients of a replica\<close>

lemma process_xread_swept:
  assumes "process_xread t p = Some p'"
  shows "swept p p' \<and> aof_log p' = aof_log p \<and> replication_part p' = replication_part p"
proof -
  have read: "swept p p1 \<and> aof_log p1 = aof_log p \<and> replication_part p1 = replication_part p"
    if "read_for rs p = (p1, rs', result)" for rs p1 rs' result
  proof -
    have p1: "p1 = tick (p\<lparr>database := fst (read_streams (steady_clock (current_env p)) rs (database p))\<rparr>)"
      using that by (auto simp: read_for_def split: prod.splits)
    have "swept p p1" unfolding p1 by (intro swept_call) (rule sweeps_read_streams)
    then show ?thesis by (simp add: p1 replication_part_def)
  qed
  have answer: "swept p (respond t r p1)" if "swept p p1" for r p1
    using that by (rule swept_cong) simp_all
  have block: "swept p (tick (p1\<lparr>pending_stream_reads := xs\<rparr>))" if "swept p p1" for xs p1
    using that by (rule swept_cong) simp_all
  from assms show ?thesis
    by (cases rule: process_xread_cases) (auto dest!: read simp: replication_part_def intro!: answer block)
qed

lemma process_task_swept:
  assumes "process_task t p = Some p'" "role (replication p) = ROLE_REPLICA" "task_source t = CLIENT"
    "harmless (task_client t) p"
  shows "swept p p' \<and> aof_log p' = aof_log p \<and> replication_part p' = replication_part p"
  using assms(1)
proof (cases rule: process_task_cases)
  case (refused r p1)
  note k = rest_partD [OF refused(1)]
  from k outside_bookkeeping [OF k(1)] refused(3) show ?thesis
    by (auto simp: store_part_def replication_part_def intro!: swept_same)
next
  case (readonly p1)
  then show ?thesis by (auto simp: replication_part_def split: option.splits intro!: swept_same)
next
  case blpop
  with assms(2,3) show ?thesis by (simp add: is_write_command_iff named_def)
next
  case xread
  then show ?thesis by (rule process_xread_swept)
next
  case wait
  then have "\<exists>e. p' = respond t (SimpleError e) p" using assms(2) by (auto simp: process_wait_def)
  then show ?thesis by (auto simp: replication_part_def intro!: swept_same)
next
  case execute
  have nw: "\<not> is_write_command (task_command t)" using execute(2) assms(2,3) by simp
  from execute(1) show ?thesis
  proof (cases rule: execute_task_stages)
    case (1 p1 response p2 response2 p3 response3 rep per)
    have "p2 = p1" using 1(1,2,4) nw by (simp add: log_direct_write_def)
    moreover have "advance_offset t response p2 = p2" using assms(3) by (simp add: advance_offset_def)
    ultimately have rest: "rest_part p3 = rest_part p1" using deliver_rest [OF 1(5)] by simp
    note k = rest_partD [OF rest]
    from process_command_swept [OF 1(3) nw assms(4)] k outside_bookkeeping [OF k(1)] 1(6) show ?thesis
      by (auto simp: store_part_def replication_part_def intro: swept_cong)
  qed
qed

section \<open>What holds of every change of the store\<close>

lemma answer_pop_database [simp]: "database (answer_pop t k v p) = database p"
  by (auto simp: answer_pop_def split: prod.splits sum.splits dest: persist_blocking_pop_frame(4))

lemma retry_waits_database: "database (fst (retry_waits xs p)) = database p"
  by (induction xs p rule: retry_waits.induct) (auto simp: count_acknowledged_replicas_def Let_def split: prod.splits)

lemma expire_waits_database: "database (fst (expire_waits now xs p)) = database p"
  by (induction now xs p rule: expire_waits.induct) (auto simp: count_acknowledged_replicas_def Let_def split: prod.splits)

lemma expire_all_database [simp]: "database (expire_all p) = database p"
proof -
  have "database (expire_pending_waits q) = database q" for q
    using expire_waits_database [of "steady_clock (current_env q) 0" "pending_waits q" q]
    by (auto simp: expire_pending_waits_def split: prod.splits)
  then show ?thesis by (simp add: expire_all_def expire_pending_stream_reads_def expire_pending_list_pops_def Let_def)
qed

lemma submitted_database: "submitted p p' \<Longrightarrow> database p' = database p"
  by (induction rule: submitted.induct)
    (auto simp: submit_def enqueue_def apply_replication_def install_replication_state_def replication_offset_def
      acknowledge_replica_def register_replica_def load_rdb_entries_def initialize_aof_def register_client_def
      unregister_client_def submit_task_def)

text \<open>
  The processor changes the store only through the dispatcher, the pops of \<open>BLPOP\<close>, the reads of \<open>XREAD\<close>,
  revision lookups and the insertion of snapshot entries. A relation that these satisfy and that is
  reflexive and transitive holds of the store before and after any step of the worker.
\<close>

locale store_relation =
  fixes R :: "database \<Rightarrow> database \<Rightarrow> bool"
  assumes R_refl: "R db db"
    and R_trans: "R db db1 \<Longrightarrow> R db1 db2 \<Longrightarrow> R db db2"
    and R_dispatch: "dispatch e db command = Some (db', r) \<Longrightarrow> R db db'"
    and R_revision: "R db (fst (key_revision now k db))"
    and R_pop: "R db (fst (pop_list_element now k db))"
    and R_read: "R db (fst (read_streams clk requests db))"
    and R_set: "db_set now k v expiry db = Some db' \<Longrightarrow> R db db'"
begin

abbreviation related :: "processor \<Rightarrow> processor \<Rightarrow> bool" where
  "related p p' \<equiv> R (database p) (database p')"

lemma related_same: "database p' = database p \<Longrightarrow> related p p'"
  by (simp add: R_refl)

lemma R_fst: "R db (fst x) \<Longrightarrow> x = (db', y) \<Longrightarrow> R db db'"
  by simp

lemma related_fst: "related p (fst x) \<Longrightarrow> x = (p', y) \<Longrightarrow> related p p'"
  by simp

lemma related_run_dispatch: "run_dispatch command p = Some (p', r) \<Longrightarrow> related p p'"
  by (drule run_dispatch_frame(7)) (rule R_dispatch)

lemma related_watched_key_changed: "related p (fst (watched_key_changed watched ks p))"
proof (induction watched ks p rule: watched_key_changed.induct)
  case (2 watched k ks p)
  obtain db revision where r: "key_revision (steady_clock (current_env p) 0) k (database p) = (db, revision)" by fastforce
  have one: "R (database p) db" using R_revision [of "database p" "steady_clock (current_env p) 0" k] r by simp
  from 2 [OF r [symmetric] refl] r one show ?case by (auto simp: Let_def intro: R_trans)
qed (simp add: R_refl)

lemma related_check_watched: "check_watched client p = (p1, changed) \<Longrightarrow> related p p1"
  by (auto simp: check_watched_def R_refl split: option.splits dest: related_fst [OF related_watched_key_changed])

lemma related_watch_loop: "watch_loop ks watched p = (p', watched') \<Longrightarrow> related p p'"
proof (induction ks watched p rule: watch_loop.induct)
  case (2 k ks watched p)
  obtain db revision where r: "key_revision (steady_clock (current_env p) 0) k (database p) = (db, revision)" by fastforce
  have one: "R (database p) db" using R_revision [of "database p" "steady_clock (current_env p) 0" k] r by simp
  show ?case
  proof (cases "watched k = None")
    case True
    with 2(3) r have "watch_loop ks (watched(k \<mapsto> revision)) (tick (p\<lparr>database := db\<rparr>)) = (p', watched')"
      by (simp del: fun_upd_apply)
    with 2(2) [OF _ r [symmetric]] True have "related (tick (p\<lparr>database := db\<rparr>)) p'" by blast
    then have "R db (database p')" by simp
    with one show ?thesis by (rule R_trans)
  qed (use 2(1,3) in simp)
qed (simp add: R_refl)

lemma related_watch: "watch client command p = (p', r) \<Longrightarrow> related p p'"
  by (auto simp: watch_def R_refl split: if_splits prod.splits dest: related_watch_loop)

lemma related_transaction_loop:
  "transaction_loop record_writes commands p bytes responses = Some (p', bytes', responses') \<Longrightarrow> related p p'"
proof (induction commands arbitrary: p bytes responses)
  case (Cons c commands)
  from Cons.prems obtain p1 r b where run: "run_dispatch c p = Some (p1, r)"
    and rest: "transaction_loop record_writes commands p1 b (responses @ [r]) = Some (p', bytes', responses')"
    by (auto simp: Option.bind_eq_Some_conv Let_def)
  from related_run_dispatch [OF run] Cons.IH [OF rest] show ?case by (rule R_trans)
qed (simp add: R_refl)

lemma related_execute_transaction:
  assumes "execute_transaction client source p = Some (p', r)"
  shows "related p p'"
  using assms
proof (cases rule: execute_transaction_cases)
  case (refused tr p1 changed)
  with related_check_watched [OF refused(2)] show ?thesis by (simp add: forget_transaction_def)
next
  case (executed tr p1 p3 bytes responses per rep)
  have "R (database p1) (database p3)" using related_transaction_loop [OF executed(7)] by (simp add: forget_transaction_def)
  moreover have "database p' = database p3" using log_transaction_frame [OF executed(8)] by blast
  ultimately show ?thesis using related_check_watched [OF executed(3)] R_trans by auto
qed (simp add: R_refl)

lemma related_process_command:
  assumes "process_command client command source p = Some (p', r)"
  shows "related p p'"
  using assms
proof (cases rule: process_command_effects)
  case clients
  from rest_partD(2) [OF this] show ?thesis by (simp add: store_part_def R_refl)
qed (auto simp: R_refl forget_transaction_def related_watch related_execute_transaction related_run_dispatch)

lemma related_pop_for: "pop_for k p = (p', r) \<Longrightarrow> related p p'"
  by (auto simp: pop_for_def split: prod.splits dest: R_fst [OF R_pop])

lemma related_read_for: "read_for requests p = (p', requests', r) \<Longrightarrow> related p p'"
  by (auto simp: read_for_def split: prod.splits dest: R_fst [OF R_read])

lemma related_process_task:
  assumes "process_task t p = Some p'"
  shows "related p p'"
  using assms
proof (cases rule: process_task_cases)
  case (refused r p1)
  from rest_partD(2) [OF refused(1)] refused(3) show ?thesis by (simp add: store_part_def R_refl)
next
  case (readonly p1)
  then show ?thesis by (auto simp: R_refl split: option.splits)
next
  case blpop
  from blpop(2) show ?thesis
    by (cases rule: process_blpop_cases) (auto simp: R_refl dest: related_pop_for)
next
  case xread
  then show ?thesis by (cases rule: process_xread_cases) (auto simp: R_refl dest: related_read_for)
next
  case wait
  have "database (append_replication_frame bytes q) = database q" for bytes q
    by (rule store_part_eqs [THEN conjunct1]) simp
  with wait show ?thesis by (cases rule: process_wait_cases) (auto simp: R_refl count_acknowledged_replicas_state)
next
  case execute
  from execute(1) show ?thesis
  proof (cases rule: execute_task_stages)
    case (1 p1 response p2 response2 p3 response3 rep per)
    have "database p2 = database p1" using log_direct_write_frame [OF 1(4)] by blast
    moreover have "database (advance_offset t response p2) = database p2" by (simp add: advance_offset_def)
    moreover from deliver_rest [OF 1(5)] have "database p3 = database (advance_offset t response p2)"
      by (drule_tac rest_partD(2)) (simp add: store_part_def)
    ultimately show ?thesis using related_process_command [OF 1(3)] 1(6) by simp
  qed
qed

lemma related_load_entries: "load_entries e i es db = Some db' \<Longrightarrow> R db db'"
proof (induction es arbitrary: i db)
  case (Cons entry es)
  have step: "R db db'" if "db_set now k v expiry db = Some db1" "load_entries e j es db1 = Some db'" for now k v expiry db1 j
    using R_set [OF that(1)] Cons.IH [OF that(2)] by (rule R_trans)
  from Cons show ?case by (auto simp: Option.bind_eq_Some_conv split: option.splits intro: step)
qed (simp add: R_refl)

lemma related_replay_commands: "replay_commands commands p = Some (p', failure) \<Longrightarrow> related p p'"
proof (induction commands arbitrary: p)
  case (Cons command commands)
  then obtain p1 r where c: "process_command aof_client_id command AOF p = Some (p1, r)"
    by (auto simp: Option.bind_eq_Some_conv)
  have "p' = p1 \<or> replay_commands commands p1 = Some (p', failure)" using Cons.prems c by (cases r) auto
  with related_process_command [OF c] Cons.IH R_trans show ?case by blast
qed (simp add: R_refl)

lemma related_process:
  assumes "process t p = Some p'"
  shows "related p p'"
proof (cases t)
  case (InitializeAofTask f commands q)
  with assms obtain p1 failure where c: "replay_commands commands p = Some (p1, failure)"
    by (auto simp: process_def process_aof_initialization_def Option.bind_eq_Some_conv)
  then have "database p' = database p1" using assms InitializeAofTask
    by (auto simp: process_def process_aof_initialization_def forget_transaction_def split: option.splits if_splits)
  with related_replay_commands [OF c] show ?thesis by simp
next
  case (UnregisterClientTask client q)
  with assms have "database p' = database p"
    by (auto simp: process_def process_client_unregistration_def cancel_pending_commands_def Let_def split: option.splits)
  then show ?thesis by (simp add: R_refl)
qed (use assms in \<open>auto simp: process_def related_process_task R_refl process_replica_registration_def
    process_replication_state_installation_def process_replication_offset_request_def process_replica_acknowledgement_def
    process_client_registration_def process_rdb_load_def Let_def Option.bind_eq_Some_conv related_load_entries\<close>)

lemma related_retry_list_pops: "related p (fst (retry_list_pops xs p))"
proof (induction xs p rule: retry_list_pops.induct)
  case (2 x xs p)
  obtain p1 r where pop: "pop_for (pending_key x) p = (p1, r)" by fastforce
  from related_pop_for [OF pop] 2 pop show ?case by (auto split: sum.splits prod.splits intro: R_trans)
qed (simp add: R_refl)

lemma related_retry_stream_reads: "related p (fst (retry_stream_reads xs p))"
proof (induction xs p rule: retry_stream_reads.induct)
  case (2 x xs p)
  obtain p1 requests r where read: "read_for (pending_requests x) p = (p1, requests, r)" by (metis prod_cases3)
  from related_read_for [OF read] 2 read show ?case by (auto split: sum.splits prod.splits intro: R_trans)
qed (simp add: R_refl)

lemma related_retry_all: "related p (retry_all p)"
proof -
  have "related q (retry_pending_list_pops q)" for q
    using related_retry_list_pops [of q "pending_list_pops q"] by (auto simp: retry_pending_list_pops_def split: prod.splits)
  moreover have "related q (retry_pending_stream_reads q)" for q
    using related_retry_stream_reads [of q "pending_stream_reads q"] by (auto simp: retry_pending_stream_reads_def split: prod.splits)
  moreover have "database (retry_pending_waits q) = database q" for q
    using retry_waits_database [of "pending_waits q" q] by (auto simp: retry_pending_waits_def split: prod.splits)
  ultimately show ?thesis unfolding retry_all_def using R_trans by metis
qed

lemma related_run_iteration:
  assumes "run_iteration p = Some p'"
  shows "related p p'"
  using assms
proof (cases rule: run_iteration_cases)
  case (task t ts p1)
  from related_process [OF task(2)] related_retry_all [of p1] task(3) show ?thesis by (auto intro: R_trans)
qed (simp add: R_refl)

lemma related_step: "processor_step p p' \<Longrightarrow> related p p'"
  by (induction rule: processor_step.induct)
    (auto simp: submitted_database related_run_iteration R_refl elim: connection_step.cases)

end

interpretation tracking: store_relation "tracked UNIV"
proof
  show "tracked UNIV db (fst (key_revision now k db))" for now k db
    by (rule tracked_mono [OF op_trackeds(9)]) simp
qed (auto intro: tracked_trans dispatch_tracked tracked_mono [OF read_streams_tracked] tracked_mono [OF op_trackeds(1)]
    tracked_mono [OF op_trackeds(6)])

lemma processor_reachable_wf: "processor_reachable p \<Longrightarrow> db_wf (database p)"
proof (induction rule: processor_reachable.induct)
  case (step p p')
  from tracked_wf [OF tracking.related_step [OF step(2)] step(3)] show ?case .
qed (simp add: new_processor_def db_wf_empty)

end
