(* ===== verification/Processor_Blocking.thy ===== *)
theory Processor_Blocking
  imports Processor_Store
begin

text \<open>
  Blocked commands: a command stays blocked only while it cannot be served, blocked pops of a key are served
  in the order in which they came, and no client of a replica changes its store.
\<close>

section \<open>Blocked pops\<close>

lemma pop_keeps_absent: "entries db j = None \<Longrightarrow> entries (fst (pop_list_element now k db)) j = None"
  by (cases rule: find_active_entry_cases [of db k now])
    (auto simp: pop_list_element_def store_popped_def split: db_value.splits list.splits)

lemma pop_finds_nothing:
  assumes "db_wf db" "pop_list_element now k db = (db', Inl e)" "e \<noteq> WRONG_TYPE"
  shows "entries db' k = None"
proof (cases rule: find_active_entry_cases [of db k now])
  case (active e)
  with assms(1) have "entry_wf e" by (auto simp: db_wf_def)
  with active assms(2,3) show ?thesis
    by (auto simp: pop_list_element_def entry_wf_def split: db_value.splits list.splits)
qed (use assms(2) in \<open>auto simp: pop_list_element_def\<close>)

lemma pop_for_store:
  assumes "pop_for k p = (p', r)"
  shows "pop_list_element (steady_clock (current_env p) 0) k (database p) = (database p', r)"
    and "aof_log p' = aof_log p" "fulfilled p' = fulfilled p"
  using assms by (auto simp: pop_for_def split: prod.splits)

lemma pop_for_wf: "pop_for k p = (p', r) \<Longrightarrow> db_wf (database p) \<Longrightarrow> db_wf (database p')"
  by (rule tracked_wf [OF tracking.related_pop_for])

lemma retry_list_pops_starved:
  assumes "retry_list_pops xs p = (p', rest)" "db_wf (database p)"
  shows "(\<forall>x \<in> set rest. entries (database p') (pending_key x) = None) \<and>
    (\<forall>k. entries (database p) k = None \<longrightarrow> entries (database p') k = None)"
  using assms
proof (induction xs arbitrary: p p' rest)
  case (Cons x xs)
  obtain p1 r where pop: "pop_for (pending_key x) p = (p1, r)" by fastforce
  note d = pop_for_store(1) [OF pop]
  have absent: "entries (database p) k = None \<Longrightarrow> entries (database p1) k = None" for k
    using pop_keeps_absent [of "database p" k "steady_clock (current_env p) 0" "pending_key x"] d by simp
  note wf = pop_for_wf [OF pop Cons.prems(2)]
  show ?case
  proof (cases "\<exists>e. r = Inl e \<and> e \<noteq> WRONG_TYPE")
    case True
    then obtain e where e: "r = Inl e" "e \<noteq> WRONG_TYPE" by blast
    obtain p2 rest2 where r2: "retry_list_pops xs p1 = (p2, rest2)" by fastforce
    have "entries (database p1) (pending_key x) = None"
      using pop_finds_nothing [OF Cons.prems(2), of "steady_clock (current_env p) 0" "pending_key x" "database p1" e] d e by simp
    with Cons.IH [OF r2 wf] absent Cons.prems(1) pop e r2 show ?thesis by auto
  next
    case False
    then have "\<exists>q. retry_list_pops xs q = (p', rest) \<and> database q = database p1"
      using Cons.prems(1) pop by (cases r) auto
    with Cons.IH wf absent show ?thesis by (metis (no_types, lifting))
  qed
qed simp

section \<open>Blocked reads\<close>

text \<open>A request for which the store holds no entry to return.\<close>

definition exhausted :: "database \<Rightarrow> read_request \<Rightarrow> bool" where
  "exhausted db r \<longleftrightarrow> start_mode r = AFTER_ID \<and>
     (case entries db (read_key r) of
        None \<Rightarrow> True
      | Some e \<Rightarrow> \<exists>es. entry_value e = StreamValue es \<and> (\<forall>x \<in> set es. entry_id x \<le> after_id r))"

lemma sweeps_entries: "sweeps T db db' \<Longrightarrow> entries db' k = entries db k \<or> entries db' k = None"
  unfolding sweeps_def by (drule spec [of _ k]) auto

lemma sweeps_absent: "sweeps T db db' \<Longrightarrow> entries db k = None \<Longrightarrow> entries db' k = None"
  using sweeps_entries [of T db db' k] by auto

lemma exhausted_sweeps: "sweeps T db db' \<Longrightarrow> exhausted db r \<Longrightarrow> exhausted db' r"
  using sweeps_entries [of T db db' "read_key r"] by (auto simp: exhausted_def)

lemma find_sweeps: "sweeps UNIV db (fst (find_active_entry now k db))"
  by simp

lemma resolved_modes: "resolve_requests clk i rs db = (db', rs', True) \<Longrightarrow> \<forall>r \<in> set rs'. start_mode r = AFTER_ID"
proof (induction rs arbitrary: i db rs')
  case (Cons r rs)
  have mode: "start_mode (if start_mode r = LATEST then r\<lparr>after_id := x, start_mode := AFTER_ID\<rparr> else r) = AFTER_ID" for x
    by (cases "start_mode r") auto
  obtain db1 found where f: "find_active_entry (clk i) (read_key r) db = (db1, found)" by fastforce
  obtain db2 rs2 ok where rest: "resolve_requests clk (Suc i) rs db1 = (db2, rs2, ok)" by (metis prod_cases3)
  show ?case
  proof (cases found)
    case None
    with Cons.prems f rest have "rs' = (if start_mode r = LATEST then r\<lparr>after_id := stream_id_zero, start_mode := AFTER_ID\<rparr> else r) # rs2"
      "ok" "db2 = db'" by (simp_all add: Let_def)
    with mode Cons.IH rest show ?thesis by simp
  next
    case (Some e)
    with Cons.prems f rest obtain es where es: "entry_value e = StreamValue es" by (simp split: db_value.splits)
    let ?x = "if es = [] then stream_id_zero else entry_id (last es)"
    from es Some Cons.prems f rest have "rs' = (if start_mode r = LATEST then r\<lparr>after_id := ?x, start_mode := AFTER_ID\<rparr> else r) # rs2"
      "ok" "db2 = db'" by (simp_all add: Let_def)
    with mode Cons.IH rest show ?thesis by simp
  qed
qed simp

lemma collect_results_grow:
  "collect_results clk i rs db results = (db', Inr results') \<Longrightarrow> length results \<le> length results'"
proof (induction rs arbitrary: i db results)
  case (Cons r rs)
  from Cons.prems show ?case
    by (auto simp: Let_def split: prod.splits option.splits db_value.splits if_splits dest!: Cons.IH)
qed simp

lemma collect_results_exhausted:
  assumes "collect_results clk i rs db results = (db', Inr results)" "db_wf db" "\<forall>r \<in> set rs. start_mode r = AFTER_ID"
  shows "\<forall>r \<in> set rs. exhausted db' r"
  using assms
proof (induction rs arbitrary: i db)
  case (Cons r rs)
  obtain db1 found where f: "find_active_entry (clk i) (read_key r) db = (db1, found)" by fastforce
  have wf: "db_wf db1" using wf_intros(5) [OF Cons.prems(2), of "clk i" "read_key r"] f by simp
  have rest: "collect_results clk (Suc i) rs db1 results = (db', Inr results)" and here: "exhausted db1 r"
  proof -
    show "collect_results clk (Suc i) rs db1 results = (db', Inr results)"
      using Cons.prems(1) f collect_results_grow [of clk "Suc i" rs db1 "results @ _" db' results]
      by (fastforce simp: Let_def split: option.splits db_value.splits if_splits)
    show "exhausted db1 r"
    proof (cases rule: find_active_entry_cases [of db "read_key r" "clk i"])
      case (active e)
      with Cons.prems(1) f collect_results_grow [of clk "Suc i" rs db1 "results @ _" db' results]
      obtain es where es: "entry_value e = StreamValue es" "upper_bound es (after_id r) = length es"
        by (fastforce simp: Let_def split: option.splits db_value.splits if_splits)
      have "entry_wf e" using active Cons.prems(2) by (auto simp: db_wf_def)
      then have "ordered es" using es(1) by (simp add: entry_wf_def)
      then have "drop (upper_bound es (after_id r)) es = filter (\<lambda>x. after_id r < entry_id x) es" by (rule drop_upper_bound)
      then have "filter (\<lambda>x. after_id r < entry_id x) es = []" using es(2) by simp
      then have "\<forall>x \<in> set es. entry_id x \<le> after_id r" by (simp add: filter_empty_conv not_less)
      with active f es(1) Cons.prems(3) show ?thesis by (auto simp: exhausted_def)
    qed (use f Cons.prems(3) in \<open>auto simp: exhausted_def\<close>)
  qed
  have "sweeps UNIV db1 db'"
    using sweeps_collect_results [of clk UNIV db1 "Suc i" rs results] rest by simp
  with here exhausted_sweeps Cons.IH [OF rest wf] Cons.prems(3) show ?case by auto
qed simp

lemma read_streams_exhausted:
  assumes "read_streams clk requests db = (db', requests', Inr [])" "db_wf db"
  shows "\<forall>r \<in> set requests'. exhausted db' r"
proof -
  obtain db1 rs1 ok where r: "resolve_requests clk 0 requests db = (db1, rs1, ok)" by (metis prod_cases3)
  with assms(1) have ok: "ok" by (auto simp: read_streams_def split: if_splits prod.splits)
  with assms(1) r have c: "collect_results clk (length requests) rs1 db1 [] = (db', Inr [])" "requests' = rs1"
    by (auto simp: read_streams_def split: prod.splits)
  have "db_wf db1"
    using tracked_wf [OF resolve_requests_tracked assms(2), of clk 0 requests] r by simp
  moreover have "\<forall>r \<in> set rs1. start_mode r = AFTER_ID" using resolved_modes [of clk 0 requests db db1 rs1] r ok by simp
  ultimately show ?thesis using collect_results_exhausted [OF c(1)] c(2) by blast
qed

lemma read_for_store:
  assumes "read_for rs p = (p', rs', r)"
  shows "read_streams (steady_clock (current_env p)) rs (database p) = (database p', rs', r)"
    and "sweeps UNIV (database p) (database p')" "pending_list_pops p' = pending_list_pops p"
proof -
  show r: "read_streams (steady_clock (current_env p)) rs (database p) = (database p', rs', r)"
    using assms by (auto simp: read_for_def split: prod.splits)
  show "sweeps UNIV (database p) (database p')"
    using sweeps_mono [OF sweeps_read_streams [of "steady_clock (current_env p)" "database p" rs]] r by simp
  show "pending_list_pops p' = pending_list_pops p"
    using bookkeeping_eqs(2) [OF read_for_bookkeeping [OF assms]] .
qed

lemma retry_stream_reads_exhausted:
  assumes "retry_stream_reads xs p = (p', rest)" "db_wf (database p)"
  shows "(\<forall>x \<in> set rest. \<forall>r \<in> set (pending_requests x). exhausted (database p') r) \<and> sweeps UNIV (database p) (database p')"
  using assms
proof (induction xs arbitrary: p p' rest)
  case (Cons x xs)
  obtain p1 requests r where read: "read_for (pending_requests x) p = (p1, requests, r)" by (metis prod_cases3)
  note s = read_for_store [OF read]
  have wf: "db_wf (database p1)" by (rule tracked_wf [OF tracking.related_read_for [OF read] Cons.prems(2)])
  show ?case
  proof (cases "r = Inr []")
    case True
    obtain p2 rest2 where r2: "retry_stream_reads xs p1 = (p2, rest2)" by fastforce
    have p': "p' = p2" "rest = x\<lparr>pending_requests := requests\<rparr> # rest2" using Cons.prems(1) read True r2 by auto
    note ih = Cons.IH [OF r2 wf]
    from read_streams_exhausted [of _ _ _ "database p1" requests, OF _ Cons.prems(2)] s(1) True
    have "\<forall>r \<in> set requests. exhausted (database p1) r" by blast
    with ih p' exhausted_sweeps sweeps_trans [OF s(2)] show ?thesis by auto
  next
    case False
    then obtain q where "retry_stream_reads xs q = (p', rest)" "database q = database p1"
      using Cons.prems(1) read by (cases r) (auto split: if_splits)
    with Cons.IH [of q p' rest] wf sweeps_trans [OF s(2)] show ?thesis by auto
  qed
qed simp

section \<open>Blocked waits\<close>

definition acknowledged_replicas :: "u64 \<Rightarrow> processor \<Rightarrow> nat" where
  "acknowledged_replicas target p = snd (count_acknowledged_replicas target p)"

definition wait_part :: "processor \<Rightarrow> _" where
  "wait_part p =
     (filter (\<lambda>r. replica_heap p r \<noteq> None) (replica_sessions p), replica_heap p, replica_acknowledged_offsets p)"

lemma wait_part_fulfil [simp]: "wait_part (fulfil q r p) = wait_part p"
  by (simp add: wait_part_def)

lemma wait_part_updates [simp]:
  "wait_part (tick p) = wait_part p" "wait_part (p\<lparr>pending_waits := zs\<rparr>) = wait_part p"
  by (simp_all add: wait_part_def)

lemma acknowledged_replicas_cong:
  assumes "wait_part p' = wait_part p"
  shows "acknowledged_replicas target p' = acknowledged_replicas target p"
proof -
  have "filter (\<lambda>r. replica_heap p' r \<noteq> None) (replica_sessions p') =
      filter (\<lambda>r. replica_heap p r \<noteq> None) (replica_sessions p)"
    and "replica_heap p' = replica_heap p" "replica_acknowledged_offsets p' = replica_acknowledged_offsets p"
    using assms unfolding wait_part_def by blast+
  then show ?thesis
    by (simp add: acknowledged_replicas_def count_acknowledged_replicas_def is_acknowledged_def Let_def del: filter_filter)
qed

lemma count_wait_part: "count_acknowledged_replicas target p = (p', n) \<Longrightarrow> wait_part p' = wait_part p"
  by (auto simp: count_acknowledged_replicas_def wait_part_def Let_def)

lemma retry_waits_short:
  assumes "retry_waits xs p = (p', rest)"
  shows "(\<forall>x \<in> set rest. acknowledged_replicas (target_offset x) p' < pending_replicas x) \<and> wait_part p' = wait_part p"
  using assms
proof (induction xs arbitrary: p p' rest)
  case (Cons x xs)
  obtain p1 n where c: "count_acknowledged_replicas (target_offset x) p = (p1, n)" by fastforce
  have n: "n = acknowledged_replicas (target_offset x) p" using c by (simp add: acknowledged_replicas_def)
  show ?case
  proof (cases "n < pending_replicas x")
    case True
    obtain p2 rest2 where r2: "retry_waits xs p1 = (p2, rest2)" by fastforce
    have "p' = p2" "rest = x # rest2" using Cons.prems c True r2 by simp_all
    with Cons.IH [OF r2] count_wait_part [OF c] n True acknowledged_replicas_cong [of p2 p "target_offset x"] show ?thesis
      by simp
  next
    case False
    then have "retry_waits xs (respond (wait_task x) (Integer (int n)) p1) = (p', rest)" using Cons.prems c by simp
    from Cons.IH [OF this] count_wait_part [OF c] show ?thesis by simp
  qed
qed simp

lemma expire_waits_wait_part:
  "expire_waits now xs p = (p', rest) \<Longrightarrow> wait_part p' = wait_part p \<and> set rest \<subseteq> set xs"
proof (induction xs arbitrary: p p' rest)
  case (Cons x xs)
  obtain p1 n where c: "count_acknowledged_replicas (target_offset x) p = (p1, n)" by fastforce
  obtain p2 rest2 where r2: "expire_waits now xs p = (p2, rest2)" by fastforce
  from Cons.prems c r2 Cons.IH [OF r2] Cons.IH [of "respond (wait_task x) (Integer (int n)) p1" p' rest]
    count_wait_part [OF c] show ?case by (auto split: if_splits)
qed simp

lemma expire_waits_lists:
  "expire_waits now xs p = (p', rest) \<Longrightarrow>
   pending_list_pops p' = pending_list_pops p \<and> pending_stream_reads p' = pending_stream_reads p"
proof (induction xs arbitrary: p p' rest)
  case (Cons x xs)
  obtain p1 n where c: "count_acknowledged_replicas (target_offset x) p = (p1, n)" by fastforce
  have k: "pending_list_pops p1 = pending_list_pops p" "pending_stream_reads p1 = pending_stream_reads p"
    using c by (auto simp: count_acknowledged_replicas_def Let_def)
  obtain p2 rest2 where r2: "expire_waits now xs p = (p2, rest2)" by fastforce
  from Cons.prems c r2 Cons.IH [OF r2] Cons.IH [of "respond (wait_task x) _ p1"] k show ?case by (auto split: if_splits)
qed simp

lemma retry_stream_reads_pops: "retry_stream_reads xs p = (p', rest) \<Longrightarrow> pending_list_pops p' = pending_list_pops p"
proof (induction xs arbitrary: p p' rest)
  case (Cons x xs)
  obtain p1 requests r where read: "read_for (pending_requests x) p = (p1, requests, r)" by (metis prod_cases3)
  obtain p2 rest2 where r2: "retry_stream_reads xs p1 = (p2, rest2)" by fastforce
  from Cons.prems read r2 Cons.IH [OF r2] Cons.IH [of "respond (read_task x) _ p1"] read_for_store(3) [OF read] show ?case
    by (auto split: sum.splits if_splits)
qed simp

lemma retry_waits_lists:
  "retry_waits xs p = (p', rest) \<Longrightarrow>
   pending_list_pops p' = pending_list_pops p \<and> pending_stream_reads p' = pending_stream_reads p"
proof (induction xs arbitrary: p p' rest)
  case (Cons x xs)
  obtain p1 n where c: "count_acknowledged_replicas (target_offset x) p = (p1, n)" by fastforce
  have k: "pending_list_pops p1 = pending_list_pops p" "pending_stream_reads p1 = pending_stream_reads p"
    using c by (auto simp: count_acknowledged_replicas_def Let_def)
  obtain p2 rest2 where r2: "retry_waits xs p1 = (p2, rest2)" by fastforce
  from Cons.prems c r2 Cons.IH [OF r2] Cons.IH [of "respond (wait_task x) _ p1"] k show ?case by (auto split: if_splits)
qed simp

section \<open>No command is blocked that could be served\<close>

definition rightly_blocked :: "processor \<Rightarrow> bool" where
  "rightly_blocked p \<longleftrightarrow>
     (\<forall>x \<in> set (pending_list_pops p). entries (database p) (pending_key x) = None) \<and>
     (\<forall>x \<in> set (pending_stream_reads p). \<forall>r \<in> set (pending_requests x). exhausted (database p) r) \<and>
     (\<forall>x \<in> set (pending_waits p). acknowledged_replicas (target_offset x) p < pending_replicas x)"

lemma retry_all_blocked:
  assumes "db_wf (database p)"
  shows "rightly_blocked (retry_all p)"
proof -
  obtain p1 pops where 1: "retry_list_pops (pending_list_pops p) p = (p1, pops)" by fastforce
  let ?q1 = "p1\<lparr>pending_list_pops := pops\<rparr>"
  obtain p2 reads where 2: "retry_stream_reads (pending_stream_reads ?q1) ?q1 = (p2, reads)" by fastforce
  let ?q2 = "p2\<lparr>pending_stream_reads := reads\<rparr>"
  obtain p3 waits where 3: "retry_waits (pending_waits ?q2) ?q2 = (p3, waits)" by fastforce
  have all: "retry_all p = p3\<lparr>pending_waits := waits\<rparr>"
    using 1 2 3 by (simp add: retry_all_def retry_pending_list_pops_def retry_pending_stream_reads_def retry_pending_waits_def)
  have wf1: "db_wf (database p1)"
    using tracked_wf [OF tracking.related_retry_list_pops assms, of "pending_list_pops p"] 1 by simp
  note pops = retry_list_pops_starved [OF 1 assms]
  note reads = retry_stream_reads_exhausted [OF 2] 
  note waits = retry_waits_short [OF 3]
  have db: "database p3 = database p2" using retry_waits_database [of "pending_waits ?q2" ?q2] 3 by simp
  have lists: "pending_list_pops p3 = pops" "pending_stream_reads p3 = reads"
    using retry_stream_reads_pops [OF 2] retry_waits_lists [OF 3] by simp_all
  have sweep: "sweeps UNIV (database p1) (database p2)" using reads wf1 by simp
  have "\<forall>x \<in> set pops. entries (database p2) (pending_key x) = None"
    using pops sweeps_absent [OF sweep] by blast
  then show ?thesis
    using reads wf1 waits unfolding rightly_blocked_def all
    by (simp add: db lists acknowledged_replicas_def count_acknowledged_replicas_def Let_def is_acknowledged_def)
qed

lemma rightly_blocked_fewer:
  assumes "rightly_blocked p" "database p' = database p"
    "set (pending_list_pops p') \<subseteq> set (pending_list_pops p)" "set (pending_stream_reads p') \<subseteq> set (pending_stream_reads p)"
    "set (pending_waits p') \<subseteq> set (pending_waits p)"
    "\<And>target. acknowledged_replicas target p' \<le> acknowledged_replicas target p"
  shows "rightly_blocked p'"
  using assms unfolding rightly_blocked_def by (metis (no_types, lifting) le_less_trans subsetD)

lemma expire_all_blocked:
  assumes "rightly_blocked p"
  shows "rightly_blocked (expire_all p)"
proof -
  let ?q = "expire_pending_stream_reads (expire_pending_list_pops p)"
  obtain p1 waits where e: "expire_waits (steady_clock (current_env ?q) 0) (pending_waits ?q) ?q = (p1, waits)" by fastforce
  have all: "expire_all p = tick (p1\<lparr>pending_waits := waits\<rparr>)"
    using e by (simp add: expire_all_def expire_pending_waits_def)
  have q: "set (pending_list_pops ?q) \<subseteq> set (pending_list_pops p)" "set (pending_stream_reads ?q) \<subseteq> set (pending_stream_reads p)"
    "pending_waits ?q = pending_waits p" "wait_part ?q = wait_part p"
    by (auto simp: expire_pending_stream_reads_def expire_pending_list_pops_def Let_def wait_part_def)
  note w = expire_waits_wait_part [OF e]
  have "acknowledged_replicas target (expire_all p) = acknowledged_replicas target p" for target
    by (rule acknowledged_replicas_cong) (use w q(4) in \<open>simp add: all\<close>)
  moreover have "pending_list_pops p1 = pending_list_pops ?q \<and> pending_stream_reads p1 = pending_stream_reads ?q"
    by (rule expire_waits_lists [OF e])
  moreover have "database p1 = database p" using expire_all_database [of p] by (simp add: all)
  ultimately show ?thesis
    using w q by (intro rightly_blocked_fewer [OF assms]) (auto simp: all)
qed

lemma acknowledged_replicas_filter:
  "acknowledged_replicas target p =
   length (filter (\<lambda>r. \<exists>s. replica_heap p r = Some s \<and> is_acknowledged target p s) (replica_sessions p))"
  unfolding acknowledged_replicas_def count_acknowledged_replicas_def Let_def
  by (simp, rule arg_cong [of _ _ length], rule filter_cong) auto

lemma length_filter_mono: "(\<And>x. P x \<Longrightarrow> Q x) \<Longrightarrow> length (filter P xs) \<le> length (filter Q xs)"
  by (induction xs) (simp_all add: le_SucI)

lemma connection_step_blocked:
  assumes "connection_step p p'" "rightly_blocked p"
  shows "rightly_blocked p'"
proof (rule rightly_blocked_fewer [OF assms(2)])
  show "acknowledged_replicas target p' \<le> acknowledged_replicas target p" for target
    using assms(1)
  proof cases
    case (take_replica_frame r s stop_requested s' f)
    have "replica_client s' = replica_client s"
      using take_replica_frame(3) by (auto simp: wait_for_frame_def split: if_splits list.splits)
    with take_replica_frame(1,2) show ?thesis
      by (auto simp: acknowledged_replicas_filter is_acknowledged_def intro!: length_filter_mono split: if_splits)
  qed (auto simp: acknowledged_replicas_filter is_acknowledged_def close_session_def intro!: length_filter_mono split: if_splits)
qed (use assms(1) in \<open>cases; simp\<close>)+

lemma submitted_blocked:
  assumes "submitted p p'" "rightly_blocked p"
  shows "rightly_blocked p'"
proof -
  have "bookkeeping (p'\<lparr>tasks := tasks p, next_promise := next_promise p\<rparr>) = bookkeeping p \<and> database p' = database p \<and>
      replica_heap p' = replica_heap p \<and> replica_sessions p' = replica_sessions p \<and>
      replica_acknowledged_offsets p' = replica_acknowledged_offsets p"
    using assms(1)
    by cases (auto simp: submit_def enqueue_def apply_replication_def install_replication_state_def replication_offset_def
      acknowledge_replica_def register_replica_def load_rdb_entries_def initialize_aof_def register_client_def
      unregister_client_def submit_task_def)
  then show ?thesis
    by (intro rightly_blocked_fewer [OF assms(2)])
      (auto simp: bookkeeping_def acknowledged_replicas_filter is_acknowledged_def)
qed

lemma run_iteration_blocked:
  assumes "run_iteration p = Some p'" "db_wf (database p)" "rightly_blocked p"
  shows "rightly_blocked p'"
  using assms(1)
proof (cases rule: run_iteration_cases)
  case idle
  with assms(3) expire_all_blocked show ?thesis by simp
next
  case (task t ts p1)
  have "db_wf (database p1)"
    using tracked_wf [OF tracking.related_process [OF task(2)]] assms(2) by simp
  with task(3) retry_all_blocked expire_all_blocked show ?thesis by simp
qed

lemma processor_reachable_blocked: "processor_reachable p \<Longrightarrow> rightly_blocked p"
proof (induction rule: processor_reachable.induct)
  case (step p p')
  from step(2) show ?case
    by cases (use step connection_step_blocked submitted_blocked run_iteration_blocked processor_reachable_wf in blast)+
qed (simp add: new_processor_def rightly_blocked_def)

text \<open>
  C5: No wake-up is lost. In every state that the processor can reach, a command is blocked only while it
  cannot be served: the key of every blocked pop is absent, every blocked read has seen all entries of its
  streams, and every blocked wait misses acknowledgements. So a command never waits (possibly for ever) for
  data that is already there.
\<close>

theorem blocked_commands_cannot_proceed:
  assumes "processor_reachable p"
  shows "(\<forall>x \<in> set (pending_list_pops p). entries (database p) (pending_key x) = None) \<and>
    (\<forall>x \<in> set (pending_stream_reads p). \<forall>r \<in> set (pending_requests x). exhausted (database p) r) \<and>
    (\<forall>x \<in> set (pending_waits p). snd (count_acknowledged_replicas (target_offset x) p) < pending_replicas x)"
  using processor_reachable_blocked [OF assms] unfolding rightly_blocked_def acknowledged_replicas_def .

definition blocked_pop :: processor where
  "blocked_pop = the (run_iteration (fst (apply_replication [''BLPOP'', ''k'', dec_of_nat 0] 0 fresh_processor)))"

theorem blocked_commands_cannot_proceed_witness:
  "map pending_key (pending_list_pops blocked_pop) = [''k''] \<and> entries (database blocked_pop) ''k'' = None"
proof -
  let ?p1 = "fst (apply_replication [''BLPOP'', ''k'', dec_of_nat 0] 0 fresh_processor)"
  have s: "submitted fresh_processor ?p1"
    by (rule submitted.intros(2) [of "[''BLPOP'', ''k'', dec_of_nat 0]" 0 _ _ "snd (apply_replication [''BLPOP'', ''k'', dec_of_nat 0] 0 fresh_processor)"])
      simp
  have "\<exists>p2. run_iteration ?p1 = Some p2 \<and> map pending_key (pending_list_pops p2) = [''k'']"
    by (simp add: worker_simps apply_replication_def process_blpop_def parse_blpop_def parse_blocking_timeout_dec pop_for_def
        pop_list_element_def find_active_entry_def fresh_processor_def new_processor_def empty_database_def named_def
        deadline_of_def overdue_def Let_def)
  then have run: "run_iteration ?p1 = Some blocked_pop" and b: "map pending_key (pending_list_pops blocked_pop) = [''k'']"
    by (auto simp: blocked_pop_def)
  have t: "tasks ?p1 \<noteq> []" by (simp add: apply_replication_def enqueue_def submit_task_def)
  have "processor_reachable blocked_pop"
    by (rule processor_reachable.step [OF _ processor_step.iteration [OF t run]],
        rule processor_reachable.step [OF fresh_processor_reachable processor_step.submission [OF s]])
  from blocked_commands_cannot_proceed [OF this] b show ?thesis by auto
qed

section \<open>Blocked pops are served in order\<close>

text \<open>The elements that a key holds; a key that is absent holds none.\<close>

definition elements_at :: "database \<Rightarrow> key \<Rightarrow> string list" where
  "elements_at db k = (case map_option entry_value (entries db k) of Some (ListValue xs) \<Rightarrow> xs | _ \<Rightarrow> [])"

definition poppable :: "database \<Rightarrow> key \<Rightarrow> bool" where
  "poppable db k \<longleftrightarrow> (\<forall>e. entries db k = Some e \<longrightarrow> (\<exists>xs. entry_value e = ListValue xs))"

lemma elements_at_Some: "entries db k = Some e \<Longrightarrow> entry_value e = ListValue xs \<Longrightarrow> elements_at db k = xs"
  by (simp add: elements_at_def)

lemma pop_elements:
  assumes "db_wf db" "poppable db k" "pop_list_element now k db = (db', r)"
  shows "r = (case elements_at db k of [] \<Rightarrow> Inl KEY_NOT_FOUND | x # xs \<Rightarrow> Inr x)"
    and "elements_at db' k = tl (elements_at db k)" "poppable db' k"
proof -
  have "r = (case elements_at db k of [] \<Rightarrow> Inl KEY_NOT_FOUND | x # xs \<Rightarrow> Inr x) \<and>
    elements_at db' k = tl (elements_at db k) \<and> poppable db' k"
  proof (cases "entries db k")
    case None
    with assms(3) have "db' = db" "r = Inl KEY_NOT_FOUND" by (auto simp: pop_list_element_def find_active_entry_def)
    with None show ?thesis by (simp add: elements_at_def poppable_def)
  next
    case (Some e)
    obtain xs where xs: "entry_value e = ListValue xs" using assms(2) Some by (auto simp: poppable_def)
    have wf: "entry_wf e" using assms(1) Some by (auto simp: db_wf_def)
    with xs have "\<not> is_expired now e" by (simp add: entry_wf_def is_expired_def)
    with Some have f: "find_active_entry now k db = (db, Some e)" by (simp add: find_active_entry_def)
    obtain y ys where "xs = y # ys" using wf xs by (cases xs) (auto simp: entry_wf_def)
    with assms(3) f xs have r: "r = Inr y" "db' = store_popped k e ys db" by (simp_all add: pop_list_element_def)
    have "elements_at db' k = ys" "poppable db' k"
      unfolding r by (auto simp: store_popped_def elements_at_def poppable_def)
    with r(1) elements_at_Some [OF Some xs] \<open>xs = y # ys\<close> show ?thesis by simp
  qed
  then show "r = (case elements_at db k of [] \<Rightarrow> Inl KEY_NOT_FOUND | x # xs \<Rightarrow> Inr x)"
    "elements_at db' k = tl (elements_at db k)" "poppable db' k" by simp_all
qed

lemma pop_other: "pop_list_element now j db = (db', r) \<Longrightarrow> k \<noteq> j \<Longrightarrow> entries db' k = entries db k"
  using tracked_other [OF op_trackeds(6) [of j db now], of k] by simp

lemma answer_pop_answer:
  "\<exists>r. fulfilled (answer_pop t k v p) = fulfilled p @ [(task_promise t, Responded r)] \<and>
     (r = Array [k, v] \<or> aof_log p \<noteq> None \<and> (\<exists>e. r = misconf e))"
proof -
  obtain p1 r where b: "persist_blocking_pop t k p = (p1, r)" by fastforce
  have "fulfilled p1 = fulfilled p" by (rule bookkeeping_eqs(5) [OF persist_blocking_pop_frame(1) [OF b]])
  moreover have "aof_log p = None \<Longrightarrow> r = Inr ()"
    using b by (auto simp: persist_blocking_pop_def Let_def split: if_splits)
  ultimately show ?thesis using b by (cases r) (auto simp: answer_pop_def)
qed

lemma answer_pop_log: "aof_log (answer_pop t k v p) = None \<longleftrightarrow> aof_log p = None"
proof -
  obtain p1 r where b: "persist_blocking_pop t k p = (p1, r)" by fastforce
  have l: "aof_log q = None \<longleftrightarrow> aof_log p = None" if "append_log bytes p = (q, x)" for bytes q x
    using append_log_frame(7) [OF that] .
  have "aof_log p1 = None \<longleftrightarrow> aof_log p = None"
    using b l store_part_eqs [OF append_client_replication_frame_frame(3)]
    by (auto simp: persist_blocking_pop_def Let_def split: if_splits prod.splits sum.splits)
  then show ?thesis using b by (cases r) (auto simp: answer_pop_def)
qed

abbreviation for_key :: "key \<Rightarrow> pending_list_pop list \<Rightarrow> pending_list_pop list" where
  "for_key k xs \<equiv> filter (\<lambda>x. pending_key x = k) xs"

definition served :: "key \<Rightarrow> pending_list_pop list \<Rightarrow> string list \<Rightarrow> bool \<Rightarrow> (promise \<times> result) list \<Rightarrow> bool" where
  "served k xs vs logging answers \<longleftrightarrow>
     (\<forall>i < min (length xs) (length vs). \<exists>r. (task_promise (pop_task (xs ! i)), Responded r) \<in> set answers \<and>
        (r = Array [k, vs ! i] \<or> logging \<and> (\<exists>e. r = misconf e)))"

lemma served_more: "served k xs vs logging answers \<Longrightarrow> served k xs vs logging (a # answers)"
  unfolding served_def by fastforce

lemma served_Cons:
  assumes "served k xs vs logging answers" "r = Array [k, v] \<or> logging \<and> (\<exists>e. r = misconf e)"
  shows "served k (x # xs) (v # vs) logging ((task_promise (pop_task x), Responded r) # answers)"
  unfolding served_def
proof (intro allI impI)
  fix i assume "i < min (length (x # xs)) (length (v # vs))"
  then show "\<exists>r'. (task_promise (pop_task ((x # xs) ! i)), Responded r') \<in> set ((task_promise (pop_task x), Responded r) # answers) \<and>
      (r' = Array [k, (v # vs) ! i] \<or> logging \<and> (\<exists>e. r' = misconf e))"
    using assms by (cases i) (auto simp: served_def)
qed

lemma served_Nil [simp]: "served k [] vs logging answers" "served k xs [] logging answers"
  by (simp_all add: served_def)

lemma retry_list_pops_served:
  assumes "retry_list_pops xs p = (p', rest)" "db_wf (database p)" "poppable (database p) k"
  shows "for_key k rest = drop (length (elements_at (database p) k)) (for_key k xs) \<and>
    elements_at (database p') k = drop (length (for_key k xs)) (elements_at (database p) k) \<and>
    (\<exists>answers. fulfilled p' = fulfilled p @ answers \<and>
      served k (for_key k xs) (elements_at (database p) k) (aof_log p \<noteq> None) answers)"
  using assms
proof (induction xs arbitrary: p p' rest)
  case (Cons x xs)
  obtain p1 r where pop: "pop_for (pending_key x) p = (p1, r)" by fastforce
  note d = pop_for_store [OF pop]
  note wf = pop_for_wf [OF pop Cons.prems(2)]
  show ?case
  proof (cases "pending_key x = k")
    case False
    then have k: "entries (database p1) k = entries (database p) k" using pop_other [OF d(1)] by metis
    then have at: "elements_at (database p1) k = elements_at (database p) k" "poppable (database p1) k"
      using Cons.prems(3) by (simp_all add: elements_at_def poppable_def)
    show ?thesis
    proof (cases "\<exists>e. r = Inl e \<and> e \<noteq> WRONG_TYPE")
      case True
      then obtain e where e: "r = Inl e" "e \<noteq> WRONG_TYPE" by blast
      obtain p2 rest2 where r2: "retry_list_pops xs p1 = (p2, rest2)" by fastforce
      have "p' = p2" "rest = x # rest2" using Cons.prems(1) pop e r2 by simp_all
      with Cons.IH [OF r2 wf at(2)] at(1) False d(2,3) show ?thesis by simp
    next
      case answered: False
      obtain q a where q: "retry_list_pops xs q = (p', rest)" "database q = database p1" "fulfilled q = fulfilled p1 @ [a]"
        "aof_log q = None \<longleftrightarrow> aof_log p1 = None"
      proof (cases r)
        case (Inr v)
        obtain a where "fulfilled (answer_pop (pop_task x) (pending_key x) v p1) = fulfilled p1 @ [a]"
          using answer_pop_answer by metis
        with Inr Cons.prems(1) pop answer_pop_log show ?thesis by (intro that [OF _ _ _ answer_pop_log]) auto
      next
        case (Inl e)
        with answered Cons.prems(1) pop show ?thesis
          by (intro that [of "respond (pop_task x) wrong_type_error p1"]) auto
      qed
      from Cons.IH [OF q(1)] q wf at d obtain answers where
        "for_key k rest = drop (length (elements_at (database p) k)) (for_key k xs)"
        "elements_at (database p') k = drop (length (for_key k xs)) (elements_at (database p) k)"
        "fulfilled p' = fulfilled p @ [a] @ answers"
        "served k (for_key k xs) (elements_at (database p) k) (aof_log p \<noteq> None) answers"
        by auto
      with False served_more show ?thesis by auto
    qed
  next
    case True
    note pe = pop_elements [OF Cons.prems(2,3) d(1) [unfolded True]]
    show ?thesis
    proof (cases "elements_at (database p) k")
      case Nil
      obtain p2 rest2 where r2: "retry_list_pops xs p1 = (p2, rest2)" by fastforce
      have "p' = p2" "rest = x # rest2" using Cons.prems(1) pop pe(1) Nil r2 by simp_all
      with Cons.IH [OF r2 wf pe(3)] pe(2) Nil True d(3) show ?thesis by auto
    next
      case els: (Cons v vs)
      let ?q = "answer_pop (pop_task x) (pending_key x) v p1"
      have r2: "retry_list_pops xs ?q = (p', rest)" using Cons.prems(1) pop pe(1) els by simp
      obtain a where a: "fulfilled ?q = fulfilled p1 @ [(task_promise (pop_task x), Responded a)]"
        "a = Array [k, v] \<or> aof_log p1 \<noteq> None \<and> (\<exists>e. a = misconf e)"
        using answer_pop_answer [of "pop_task x" "pending_key x" v p1] True by auto
      have at: "db_wf (database ?q)" "poppable (database ?q) k" "elements_at (database ?q) k = vs"
        using wf pe(2,3) els by simp_all
      from Cons.IH [OF r2 at(1,2)] at(3) a(1) d answer_pop_log obtain answers where
        "for_key k rest = drop (length vs) (for_key k xs)" "elements_at (database p') k = drop (length (for_key k xs)) vs"
        "fulfilled p' = fulfilled p @ (task_promise (pop_task x), Responded a) # answers"
        and "served k (for_key k xs) vs (aof_log p \<noteq> None) answers" by auto
      with served_Cons [OF this(4), of a v x] True els a(2) d(2) show ?thesis by auto
    qed
  qed
qed simp

text \<open>
  C6: First come, first served. When the blocked pops are retried in any reachable state or after any task
  (the store is well-formed), and a key holds the elements \<open>vs\<close>, the pops that wait for this key get these
  elements in the order in which they were blocked: the \<open>i\<close>-th of them is answered with the \<open>i\<close>-th element
  (or with the error of a failed log append, when there is a log). The pops that are left keep their order,
  and the elements that are left stay in the store.
\<close>

theorem blocked_pops_first_come_first_served:
  assumes "db_wf (database p)" "poppable (database p) k"
  shows "for_key k (pending_list_pops (retry_pending_list_pops p)) =
      drop (length (elements_at (database p) k)) (for_key k (pending_list_pops p)) \<and>
    elements_at (database (retry_pending_list_pops p)) k =
      drop (length (for_key k (pending_list_pops p))) (elements_at (database p) k) \<and>
    (\<exists>answers. fulfilled (retry_pending_list_pops p) = fulfilled p @ answers \<and>
      served k (for_key k (pending_list_pops p)) (elements_at (database p) k) (aof_log p \<noteq> None) answers)"
proof -
  obtain p' rest where r: "retry_list_pops (pending_list_pops p) p = (p', rest)" by fastforce
  from retry_list_pops_served [OF r assms] r show ?thesis by (simp add: retry_pending_list_pops_def)
qed

definition two_waiting :: processor where
  "two_waiting =
     fresh_processor
       \<lparr>database := fst (add_list_elements 0 ''k'' [''a''] APPEND empty_database),
        pending_list_pops :=
          map (\<lambda>q. \<lparr>pop_task = \<lparr>task_client = 0, task_command = [], task_source = MASTER, replication_bytes = 0,
              task_promise = q\<rparr>, pending_key = ''k'', pop_deadline = None\<rparr>) [4, 5]\<rparr>"

theorem blocked_pops_first_come_first_served_witness:
  "map (\<lambda>x. task_promise (pop_task x)) (for_key ''k'' (pending_list_pops (retry_pending_list_pops two_waiting))) = [5]"
proof -
  have e: "entries (database two_waiting) = [''k'' \<mapsto> \<lparr>entry_value = ListValue [''a''], expires_at = None\<rparr>]"
    by (simp add: two_waiting_def add_list_elements_def find_active_entry_def empty_database_def Let_def)
  then have "db_wf (database two_waiting)" "poppable (database two_waiting) ''k''"
    "elements_at (database two_waiting) ''k'' = [''a'']"
    by (simp_all add: db_wf_def entry_wf_def poppable_def elements_at_def)
  with blocked_pops_first_come_first_served [of two_waiting "''k''"] show ?thesis by (simp add: two_waiting_def)
qed

section \<open>Clients of a replica\<close>

text \<open>Commands of clients carry the client's number, commands of the master carry zero.\<close>

definition honest_task :: "processor_task \<Rightarrow> bool" where
  "honest_task t \<longleftrightarrow>
     (\<forall>c. t = CommandTask c \<longrightarrow>
        (task_source c = CLIENT \<and> task_client c \<noteq> 0 \<and> task_client c \<noteq> aof_client_id \<or>
         task_source c = MASTER \<and> task_client c = 0))"

text \<open>The commands that a client has queued in a transaction.\<close>

definition queued :: "client_id \<Rightarrow> processor \<Rightarrow> command set" where
  "queued client p = (case transactions p client of None \<Rightarrow> {} | Some tr \<Rightarrow> set (transaction_commands tr))"

lemma queued_cong: "transactions p' = transactions p \<Longrightarrow> queued c p' = queued c p"
  by (simp add: queued_def)

lemma queued_simps [simp]:
  "queued c (p\<lparr>tasks := ts\<rparr>) = queued c p" "queued c (fulfil q r p) = queued c p"
  "queued c (forget_transaction client p) = (if c = client then {} else queued c p)"
  by (simp_all add: queued_def forget_transaction_def)

lemma harmless_queued: "harmless client p \<longleftrightarrow> (\<forall>x \<in> queued client p. \<not> is_write_command x)"
  by (auto simp: harmless_def queued_def split: option.splits)

lemma process_command_queued:
  assumes "process_command client command source p = Some (p', r)"
  shows "queued c p' \<subseteq> queued c p \<union> {x. c = client \<and> x = command}"
  using assms
proof (cases rule: process_command_effects)
  case clients
  from rest_partD(4) [OF this] show ?thesis by (simp add: transaction_part_def queued_def)
next
  case watch
  from watch_frame [OF watch(2)] show ?thesis by (simp add: queued_def)
next
  case exec
  from execute_transaction_frame [OF exec(2)] have "transactions p' = (if transactions p client = None then transactions p
      else (transactions p)(client := None))"
    by (auto simp: transaction_part_def forget_transaction_def split: if_splits)
  then show ?thesis by (simp add: queued_def)
next
  case run
  from run_dispatch_frame(4) [OF run(3)] show ?thesis by (simp add: transaction_part_def queued_def)
qed (auto simp: queued_def forget_transaction_def)

lemma answer_pop_transactions: "transactions (answer_pop t k v p) = transactions p"
  using quiet_partD(4) [OF answer_pop_quiet, of t k v p] by (simp add: transaction_part_def)

abbreviation refused_write :: "task \<Rightarrow> processor \<Rightarrow> bool" where
  "refused_write t p \<equiv> role (replication p) = ROLE_REPLICA \<and> task_source t = CLIENT \<and> is_write_command (task_command t)"

lemma process_task_queued:
  assumes "process_task t p = Some p'"
  shows "queued c p' \<subseteq> queued c p \<union> {x. c = task_client t \<and> x = task_command t \<and> \<not> refused_write t p}"
  using assms
proof (cases rule: process_task_cases)
  case (refused r p1)
  from rest_partD(4) [OF refused(1)] refused(3) show ?thesis by (simp add: transaction_part_def queued_def)
next
  case (readonly p1)
  then show ?thesis by (auto simp: queued_def split: option.splits)
next
  case blpop
  have "transactions p' = transactions p"
    using blpop(2) by (cases rule: process_blpop_cases)
      (auto dest!: pop_for_quiet quiet_partD(4) simp: transaction_part_def answer_pop_transactions)
  from queued_cong [OF this] show ?thesis by simp
next
  case xread
  have "transactions p' = transactions p"
    using xread by (cases rule: process_xread_cases) (auto dest!: read_for_quiet quiet_partD(4) simp: transaction_part_def)
  from queued_cong [OF this] show ?thesis by simp
next
  case wait
  have "transactions (append_replication_frame bytes q) = transactions q" for bytes q
    by (simp add: append_replication_frame_def Let_def)
  with wait have "transactions p' = transactions p"
    by (cases rule: process_wait_cases) (auto simp: count_acknowledged_replicas_state)
  from queued_cong [OF this] show ?thesis by simp
next
  case execute
  from execute(1) show ?thesis
  proof (cases rule: execute_task_stages)
    case (1 p1 response p2 response2 p3 response3 rep per)
    have "transactions p' = transactions p1"
      using log_direct_write_frame [OF 1(4)] rest_partD(4) [OF deliver_rest [OF 1(5)]] 1(6)
      by (simp add: transaction_part_def advance_offset_def)
    from queued_cong [OF this] process_command_queued [OF 1(3), of c] execute(2) show ?thesis by auto
  qed
qed

lemma replay_commands_queued:
  "replay_commands commands p = Some (p', failure) \<Longrightarrow> c \<noteq> aof_client_id \<Longrightarrow> queued c p' \<subseteq> queued c p"
proof (induction commands arbitrary: p)
  case (Cons command commands)
  then obtain p1 r where c: "process_command aof_client_id command AOF p = Some (p1, r)"
    by (auto simp: Option.bind_eq_Some_conv)
  have "p' = p1 \<or> replay_commands commands p1 = Some (p', failure)" using Cons.prems c by (cases r) auto
  with process_command_queued [OF c] Cons.IH Cons.prems(2) show ?case by blast
qed simp

text \<open>A task queues at most its own command, for its own client, and no write of a replica's client.\<close>

lemma process_queued:
  assumes "process u p = Some p'"
  shows "queued c p' \<subseteq> queued c p \<union>
    {x. \<exists>t. u = CommandTask t \<and> c = task_client t \<and> x = task_command t \<and> \<not> refused_write t p}"
proof (cases u)
  case (CommandTask t)
  with assms process_task_queued [of t p p' c] show ?thesis by (auto simp: process_def)
next
  case (InitializeAofTask f commands q)
  with assms obtain p1 failure where r: "replay_commands commands p = Some (p1, failure)"
    by (auto simp: process_def process_aof_initialization_def Option.bind_eq_Some_conv)
  then have "transactions p' = (transactions p1)(aof_client_id := None)" using assms InitializeAofTask
    by (auto simp: process_def process_aof_initialization_def forget_transaction_def split: option.splits if_splits)
  with replay_commands_queued [OF r, of c] show ?thesis by (auto simp: queued_def split: if_splits option.splits)
next
  case (UnregisterClientTask client q)
  with assms have "transactions p' = (transactions p)(client := None)"
    by (auto simp: process_def process_client_unregistration_def cancel_pending_commands_def Let_def split: option.splits)
  then show ?thesis by (simp add: queued_def)
next
  case (LoadRdbTask es q)
  with assms show ?thesis by (auto simp: process_def process_rdb_load_def Option.bind_eq_Some_conv queued_def)
qed (use assms in \<open>auto simp: process_def process_replica_registration_def process_replication_state_installation_def
    process_replication_offset_request_def process_replica_acknowledgement_def process_client_registration_def Let_def
    queued_def\<close>)

lemma run_iteration_task:
  assumes "run_iteration p = Some p'" "tasks p = u # ts"
  obtains p1 where "process u (p\<lparr>tasks := ts\<rparr>) = Some p1" "p' = expire_all (retry_all p1)" "tasks p' = ts"
    "transactions p' = transactions p1"
proof -
  from assms obtain p1 where p1: "process u (p\<lparr>tasks := ts\<rparr>) = Some p1" "p' = expire_all (retry_all p1)"
    by (auto elim: run_iteration_cases)
  have "transactions p' = transactions p1" "tasks p' = tasks p1"
    using quiet_partD(2,4) [OF expire_all_quiet, of "retry_all p1"] quiet_partD(2,4) [OF retry_all_quiet, of p1] p1(2)
    by (simp_all add: transaction_part_def)
  with p1 process_fixed [OF p1(1)] show thesis by (intro that [OF p1]) simp_all
qed

definition clients_harmless :: "processor \<Rightarrow> bool" where
  "clients_harmless p \<longleftrightarrow> (\<forall>c. c \<noteq> 0 \<longrightarrow> c \<noteq> aof_client_id \<longrightarrow> (\<forall>x \<in> queued c p. \<not> is_write_command x))"

lemma clients_harmless_cong: "transactions p' = transactions p \<Longrightarrow> clients_harmless p' = clients_harmless p"
  by (simp add: clients_harmless_def queued_def)

lemma process_harmless:
  assumes "process u p = Some p'" "clients_harmless p" "role (replication p) = ROLE_REPLICA" "honest_task u"
  shows "clients_harmless p'"
  unfolding clients_harmless_def
proof (intro allI impI ballI)
  fix c x assume c: "c \<noteq> 0" "c \<noteq> aof_client_id" "x \<in> queued c p'"
  from process_queued [OF assms(1), of c] c(3) consider "x \<in> queued c p"
    | t where "u = CommandTask t" "c = task_client t" "x = task_command t" "\<not> refused_write t p" by blast
  then show "\<not> is_write_command x"
  proof cases
    case 1
    with assms(2) c show ?thesis by (simp add: clients_harmless_def)
  next
    case 2
    with assms(3,4) c show ?thesis by (auto simp: honest_task_def)
  qed
qed

lemma processor_step_harmless:
  assumes "processor_step p p'" "role (replication p) = ROLE_REPLICA \<longrightarrow> clients_harmless p" "list_all honest_task (tasks p)"
  shows "(role (replication p') = ROLE_REPLICA \<longrightarrow> clients_harmless p') \<and> list_all honest_task (tasks p')"
  using assms(1)
proof cases
  case submission
  then have k: "transactions p' = transactions p \<and> replication p' = replication p \<and>
      (\<exists>t. tasks p' = tasks p @ [t] \<and> honest_task t)"
    by cases (auto simp: submit_def enqueue_def apply_replication_def install_replication_state_def replication_offset_def
      acknowledge_replica_def register_replica_def load_rdb_entries_def initialize_aof_def register_client_def
      unregister_client_def submit_task_def honest_task_def)
  from k clients_harmless_cong [of p' p] assms(2,3) show ?thesis by auto
next
  case connection
  then have k: "transactions p' = transactions p \<and> replication p' = replication p \<and> tasks p' = tasks p" by cases simp_all
  from k clients_harmless_cong [of p' p] assms(2,3) show ?thesis by auto
next
  case iteration
  then obtain t ts where ts: "tasks p = t # ts" by (cases "tasks p") auto
  from run_iteration_task [OF iteration(2) ts] obtain p1 where
    t: "process t (p\<lparr>tasks := ts\<rparr>) = Some p1" "tasks p' = ts" "transactions p' = transactions p1" by metis
  have "role (replication p') = role (replication p)" using fixed_partD(3) [OF run_iteration_fixed [OF iteration(2)]] .
  moreover have "clients_harmless p'" if "role (replication p) = ROLE_REPLICA"
    using process_harmless [OF t(1)] assms(2,3) that ts clients_harmless_cong [OF t(3)]
      clients_harmless_cong [of "p\<lparr>tasks := ts\<rparr>" p] by simp
  ultimately show ?thesis using t(2) assms(3) ts by simp
next
  case deadline
  then have "p' = expire_all p" by (auto elim: run_iteration_cases)
  then have q: "transactions p' = transactions p" "tasks p' = tasks p"
    using quiet_partD(2,4) [OF expire_all_quiet, of p] by (simp_all add: transaction_part_def)
  have "role (replication p') = role (replication p)" using fixed_partD(3) [OF run_iteration_fixed [OF deadline(3)]] .
  with q(2) assms(2,3) clients_harmless_cong [OF q(1)] show ?thesis by simp
qed

lemma processor_reachable_harmless:
  "processor_reachable p \<Longrightarrow> (role (replication p) = ROLE_REPLICA \<longrightarrow> clients_harmless p) \<and> list_all honest_task (tasks p)"
proof (induction rule: processor_reachable.induct)
  case (step p p')
  then show ?case using processor_step_harmless by blast
qed (simp add: new_processor_def clients_harmless_def queued_def)

lemma retry_absent_pops:
  assumes "\<forall>x \<in> set xs. entries (database p) (pending_key x) = None"
  shows "retry_list_pops xs p = (p\<lparr>calls := calls p + length xs\<rparr>, xs)"
  using assms
proof (induction xs arbitrary: p)
  case (Cons x xs)
  have "pop_for (pending_key x) p = (tick p, Inl KEY_NOT_FOUND)"
    using Cons.prems by (simp add: pop_for_def pop_list_element_def find_active_entry_def)
  with Cons show ?case by (simp add: tick_def)
qed simp

text \<open>The part of the state that reads leave alone.\<close>

definition unwritten :: "processor \<Rightarrow> processor \<Rightarrow> bool" where
  "unwritten p p' \<longleftrightarrow> swept p p' \<and> aof_log p' = aof_log p \<and> replication p' = replication p \<and>
     replication_backlog p' = replication_backlog p"

lemma unwritten_trans: "unwritten p p1 \<Longrightarrow> unwritten p1 p2 \<Longrightarrow> unwritten p p2"
  using swept_trans by (auto simp: unwritten_def)

lemma retry_stream_reads_unwritten: "unwritten p (fst (retry_stream_reads xs p))"
proof (induction xs arbitrary: p)
  case (Cons x xs)
  obtain p1 requests r where read: "read_for (pending_requests x) p = (p1, requests, r)" by (metis prod_cases3)
  have p1: "p1 = tick (p\<lparr>database := fst (read_streams (steady_clock (current_env p)) (pending_requests x) (database p))\<rparr>)"
    using read by (auto simp: read_for_def split: prod.splits)
  have one: "unwritten p p1" unfolding p1 unwritten_def by (auto intro: swept_call sweeps_read_streams)
  then have "unwritten p (respond t v p1)" for t v unfolding unwritten_def by (auto intro: swept_cong)
  with one have "\<exists>q. unwritten p q \<and> fst (retry_stream_reads (x # xs) p) = fst (retry_stream_reads xs q)"
    using read by (cases r; cases "r = Inr []") (auto split: prod.splits)
  then obtain q where q: "unwritten p q" "fst (retry_stream_reads (x # xs) p) = fst (retry_stream_reads xs q)" by blast
  from unwritten_trans [OF q(1) Cons.IH] q(2) show ?case by simp
qed (simp add: unwritten_def)

lemma count_unwritten: "count_acknowledged_replicas target p = (p1, n) \<Longrightarrow> unwritten p (respond t v p1) \<and> unwritten p p1"
  by (auto simp: count_acknowledged_replicas_def Let_def unwritten_def intro!: swept_same)

lemma retry_waits_unwritten: "unwritten p (fst (retry_waits xs p))"
proof (induction xs arbitrary: p)
  case (Cons x xs)
  obtain p1 n where c: "count_acknowledged_replicas (target_offset x) p = (p1, n)" by fastforce
  have "\<exists>q. unwritten p q \<and> fst (retry_waits (x # xs) p) = fst (retry_waits xs q)"
    using c count_unwritten [OF c]
    by (cases "n < pending_replicas x", intro exI [of _ p1], simp split: prod.splits,
        intro exI [of _ "respond (wait_task x) (Integer (int n)) p1"], simp)
  then obtain q where q: "unwritten p q" "fst (retry_waits (x # xs) p) = fst (retry_waits xs q)" by blast
  from unwritten_trans [OF q(1) Cons.IH] q(2) show ?case by simp
qed (simp add: unwritten_def)

lemma expire_waits_unwritten: "unwritten p (fst (expire_waits now xs p))"
proof (induction xs arbitrary: p)
  case (Cons x xs)
  obtain p1 n where c: "count_acknowledged_replicas (target_offset x) p = (p1, n)" by fastforce
  have "unwritten p p" by (simp add: unwritten_def)
  then have "\<exists>q. unwritten p q \<and> fst (expire_waits now (x # xs) p) = fst (expire_waits now xs q)"
    using c count_unwritten [OF c] by (cases "overdue now (wait_deadline x)") (auto split: prod.splits)
  then obtain q where q: "unwritten p q" "fst (expire_waits now (x # xs) p) = fst (expire_waits now xs q)" by blast
  from unwritten_trans [OF q(1) Cons.IH] q(2) show ?case by simp
qed (simp add: unwritten_def)

lemma process_task_pops:
  assumes "process_task t p = Some p'" "role (replication p) = ROLE_REPLICA" "task_source t = CLIENT"
  shows "pending_list_pops p' = pending_list_pops p"
  using assms(1)
proof (cases rule: process_task_cases)
  case (refused r p1)
  with bookkeeping_eqs(2) [OF rest_partD(1) [OF refused(1)]] show ?thesis by simp
next
  case (readonly p1)
  then show ?thesis by (simp split: option.splits)
next
  case blpop
  with assms(2,3) show ?thesis by (simp add: is_write_command_iff named_def)
next
  case xread
  then show ?thesis by (cases rule: process_xread_cases) (auto dest!: read_for_store(3))
next
  case wait
  then have "\<exists>e. p' = respond t (SimpleError e) p" using assms(2) by (auto simp: process_wait_def)
  then show ?thesis by auto
next
  case execute
  from execute(1) show ?thesis
  proof (cases rule: execute_task_stages)
    case (1 p1 response p2 response2 p3 response3 rep per)
    have "bookkeeping p3 = bookkeeping p"
      using process_command_bookkeeping [OF 1(3)] log_direct_write_frame [OF 1(4)] rest_partD(1) [OF deliver_rest [OF 1(5)]]
      by simp
    from bookkeeping_eqs(2) [OF this] 1(6) show ?thesis by simp
  qed
qed

lemma unwritten_pending:
  "unwritten p q \<Longrightarrow> unwritten p (q\<lparr>pending_list_pops := xs\<rparr>)" "unwritten p q \<Longrightarrow> unwritten p (q\<lparr>pending_stream_reads := ys\<rparr>)"
  "unwritten p q \<Longrightarrow> unwritten p (q\<lparr>pending_waits := zs\<rparr>)" "unwritten p q \<Longrightarrow> unwritten p (q\<lparr>fulfilled := fs\<rparr>)"
  "unwritten p q \<Longrightarrow> unwritten p (tick q)" "unwritten p q \<Longrightarrow> unwritten p (q\<lparr>calls := calls q + n\<rparr>)"
  by (auto simp: unwritten_def intro: swept_cong)

lemma unwritten_refl [simp]: "unwritten p p"
  by (simp add: unwritten_def)

lemma unwritten_step: "unwritten q (fst x) \<Longrightarrow> x = (p', y) \<Longrightarrow> unwritten p q \<Longrightarrow> unwritten p p'"
  by (auto intro: unwritten_trans)

lemma expire_all_unwritten: "unwritten p (expire_all p)"
proof -
  have 1: "unwritten p q \<Longrightarrow> unwritten p (expire_pending_waits q)" for q
    by (auto simp: expire_pending_waits_def split: prod.splits
        intro!: unwritten_pending intro: unwritten_step [OF expire_waits_unwritten])
  have 2: "unwritten p q \<Longrightarrow> unwritten p (expire_pending_list_pops q)" "unwritten p q \<Longrightarrow> unwritten p (expire_pending_stream_reads q)" for q
    by (simp_all add: expire_pending_list_pops_def expire_pending_stream_reads_def Let_def unwritten_pending)
  show ?thesis unfolding expire_all_def by (intro 1 2) simp
qed

lemma late_unwritten: "unwritten p (expire_all (retry_pending_waits (retry_pending_stream_reads p)))"
proof -
  have 1: "unwritten p q \<Longrightarrow> unwritten p (retry_pending_stream_reads q)" for q
    by (auto simp: retry_pending_stream_reads_def split: prod.splits
        intro: unwritten_pending unwritten_step [OF retry_stream_reads_unwritten])
  have 2: "unwritten p q \<Longrightarrow> unwritten p (retry_pending_waits q)" for q
    by (auto simp: retry_pending_waits_def split: prod.splits intro: unwritten_pending unwritten_step [OF retry_waits_unwritten])
  show ?thesis by (rule unwritten_trans [OF _ expire_all_unwritten]) (intro 1 2, simp)
qed

lemma retry_all_unwritten:
  assumes "\<forall>x \<in> set (pending_list_pops p). entries (database p) (pending_key x) = None"
  shows "unwritten p (expire_all (retry_all p))"
proof -
  have "unwritten p (retry_pending_list_pops p)"
    using retry_absent_pops [OF assms] by (simp add: retry_pending_list_pops_def unwritten_pending)
  from unwritten_trans [OF this late_unwritten] show ?thesis by (simp add: retry_all_def)
qed

lemma unwritten_contents:
  "unwritten p p' \<Longrightarrow> \<forall>t \<in> readings p p'. t \<le> now \<Longrightarrow> contents now (database p') = contents now (database p)"
  unfolding unwritten_def by (blast intro: swept_contents)

text \<open>
  C4: A replica is read-only for its clients. In any reachable state of a replica, processing a command of a
  client, with everything that follows from it (queued transactions, retries of blocked commands, deadlines),
  leaves the contents of the store as they are at every later moment, and does not touch the log, the
  replication offset or the backlog. So only the master's stream changes a replica, and the two cannot
  diverge by a client's doing, not even through \<open>MULTI\<close> and \<open>EXEC\<close>.
\<close>

theorem replica_clients_do_not_write:
  assumes "processor_reachable p" "role (replication p) = ROLE_REPLICA" "tasks p = CommandTask t # ts"
    and "task_source t = CLIENT" "run_iteration p = Some p'" "\<forall>s \<in> readings p p'. s \<le> now"
  shows "contents now (database p') = contents now (database p) \<and> aof_log p' = aof_log p \<and>
    replication p' = replication p \<and> replication_backlog p' = replication_backlog p"
proof -
  let ?q = "p\<lparr>tasks := ts\<rparr>"
  obtain p1 where p1: "process_task t ?q = Some p1" and p': "p' = expire_all (retry_all p1)"
    using assms(5) by (rule run_iteration_cases) (use assms(3) in \<open>auto simp: process_def\<close>)
  note h = processor_reachable_harmless [OF assms(1)]
  have "harmless (task_client t) ?q"
    using h assms(2,3,4) by (auto simp: clients_harmless_def honest_task_def harmless_queued)
  from process_task_swept [OF p1 _ assms(4) this] assms(2) have "unwritten ?q p1"
    by (simp add: unwritten_def replication_part_def)
  moreover have "unwritten p ?q" unfolding unwritten_def by (auto intro: swept_same)
  ultimately have one: "unwritten p p1" using unwritten_trans by blast
  have "pending_list_pops p1 = pending_list_pops p" using process_task_pops [OF p1] assms(2,4) by simp
  moreover have "\<forall>x \<in> set (pending_list_pops p). entries (database p) (pending_key x) = None"
    using processor_reachable_blocked [OF assms(1)] by (simp add: rightly_blocked_def)
  moreover have sweep: "sweeps (readings p p1) (database p) (database p1)" using one by (simp add: unwritten_def swept_def)
  ultimately have "\<forall>x \<in> set (pending_list_pops p1). entries (database p1) (pending_key x) = None"
    using sweeps_absent [OF sweep] by simp
  from unwritten_trans [OF one retry_all_unwritten [OF this]] have "unwritten p p'" by (simp add: p')
  with unwritten_contents [OF this assms(6)] show ?thesis by (simp add: unwritten_def)
qed

text \<open>A replica with a client whose write is refused.\<close>

definition fresh_replica :: processor where
  "fresh_replica =
     new_processor still_world (\<lambda>_. 0) (Some \<lparr>host = ''master'', replica_port = 6379\<rparr>) (config_rdb default_config)
       (config_aof default_config) None"

theorem replica_clients_do_not_write_witness:
  "contents 0 (database (the (run_iteration (fst (submit 7 [''SET'', ''k'', ''v''] fresh_replica))))) = Map.empty"
proof -
  let ?c = "[''SET'', ''k'', ''v'']"
  let ?p1 = "fst (submit 7 ?c fresh_replica)"
  let ?t = "\<lparr>task_client = 7, task_command = ?c, task_source = CLIENT, replication_bytes = 0, task_promise = 0\<rparr>"
  have s: "submitted fresh_replica ?p1"
    by (rule submitted.intros(1) [of 7 ?c _ _ "snd (submit 7 ?c fresh_replica)"]) (simp_all add: aof_client_id_def)
  have t: "tasks ?p1 = [CommandTask ?t]" "role (replication ?p1) = ROLE_REPLICA" "database ?p1 = empty_database"
    "outside ?p1 = still_world"
    by (simp_all add: submit_def enqueue_def submit_task_def fresh_replica_def new_processor_def)
  have reach: "processor_reachable ?p1"
    by (rule processor_reachable.step [OF _ processor_step.submission [OF s]])
      (simp add: fresh_replica_def processor_reachable.start)
  obtain p2 where run: "run_iteration ?p1 = Some p2"
    by (simp add: worker_simps fresh_replica_def new_processor_def named_def is_authenticated_def Let_def)
  have "\<forall>x \<in> readings ?p1 p2. x \<le> 0" by (auto simp: readings_def t still_world_def still_env_def)
  from replica_clients_do_not_write [OF reach t(2,1) _ run this] run show ?thesis
    by (simp add: t contents_def live_def empty_database_def fun_eq_iff)
qed

end
