(* ===== verification/Journal.thy ===== *)
theory Journal
  imports Replay Aof
begin

text \<open>
  Journals: what the append-only file and the replication stream have in common. A journal is a sequence of
  entries, each the logged form of one write, a block of writes that a transaction made, or a request for
  an acknowledgement, and it stands for a change of the store's contents. Whoever executes the commands of
  a journal in order (\<open>journal_consumer\<close>) makes the same change.

  The entries of the store are assumed to have no expiration time here (\<open>persistent\<close>): a journal records
  remaining times and not moments, so the replay of an entry that expires lives longer than the original.
\<close>

section \<open>Stores without expiration times\<close>

definition persistent :: "database \<Rightarrow> bool" where
  "persistent db \<longleftrightarrow> (\<forall>k e. entries db k = Some e \<longrightarrow> expires_at e = None)"

definition stored :: "database \<Rightarrow> store" where
  "stored db k = map_option entry_value (entries db k)"

lemma contents_persistent: "persistent db \<Longrightarrow> contents now db = stored db"
  by (auto simp: persistent_def contents_def stored_def live_def is_expired_def fun_eq_iff split: option.splits)

lemma persistent_empty [simp]: "persistent empty_database" "stored empty_database = Map.empty"
  by (auto simp: persistent_def empty_database_def stored_def)

lemma sweeps_persistent:
  assumes "sweeps T db db'" "persistent db"
  shows "entries db' = entries db" "persistent db'" "stored db' = stored db"
proof -
  have "entries db' k = entries db k" for k
    using assms unfolding sweeps_def persistent_def is_expired_def by (metis option.simps(4))
  then show e: "entries db' = entries db" by blast
  with assms(2) show "persistent db'" "stored db' = stored db" by (simp_all add: persistent_def stored_def fun_eq_iff)
qed

lemma persistent_find: "persistent db \<Longrightarrow> find_active_entry now k db = (db, entries db k)"
  by (auto simp: find_active_entry_def persistent_def is_expired_def split: option.splits)

lemma persistent_updates:
  "persistent db \<Longrightarrow> persistent (mark_key_modified k db)"
  "persistent db \<Longrightarrow> expires_at e = None \<Longrightarrow> persistent (put_entry k e db)"
  "persistent db \<Longrightarrow> persistent (erase_entry k db)"
  by (auto simp: persistent_def)

lemma persistent_operations:
  assumes "persistent db"
  shows "persistent (fst (add_list_elements now k vs mode db))" "persistent (fst (pop_list_element now k db))"
    "persistent (fst (pop_list_elements now k n db))" "persistent (fst (add_stream now u k req fvs db))"
    "increment_key now k db = Some (db', r) \<Longrightarrow> persistent db'" "db_set now k v None db = Some db' \<Longrightarrow> persistent db'"
proof -
  have e: "entries db k = Some e \<Longrightarrow> expires_at e = None" for e using assms by (simp add: persistent_def)
  note s = persistent_find [OF assms] persistent_updates assms
  show "persistent (fst (add_list_elements now k vs mode db))"
    using e by (auto simp: add_list_elements_def Let_def s split: option.splits db_value.splits)
  show "persistent (fst (pop_list_element now k db))"
    using e by (auto simp: pop_list_element_def store_popped_def s split: option.splits db_value.splits list.splits)
  show "persistent (fst (pop_list_elements now k n db))"
    using e by (auto simp: pop_list_elements_def store_popped_def s split: option.splits db_value.splits prod.splits)
  show "persistent (fst (add_stream now u k req fvs db))"
    using e by (auto simp: add_stream_def Let_def s split: option.splits db_value.splits)
  show "increment_key now k db = Some (db', r) \<Longrightarrow> persistent db'"
    using e s(2-4) assms by (auto simp: increment_key_def s(1) split: option.splits db_value.splits bind_splits)
  show "db_set now k v None db = Some db' \<Longrightarrow> persistent db'"
    by (auto simp: db_set_def s)
qed

lemma persistent_results:
  assumes "persistent db"
  shows "add_list_elements now k vs mode db = (db', x) \<Longrightarrow> persistent db'"
    "pop_list_element now k db = (db', y) \<Longrightarrow> persistent db'"
    "pop_list_elements now k n db = (db', z) \<Longrightarrow> persistent db'"
    "add_stream now u k req fvs db = (db', i) \<Longrightarrow> persistent db'"
  using persistent_operations(1-4) [OF assms] by (metis fst_conv)+

text \<open>A command that sets no expiration time.\<close>

definition no_expiry :: "command \<Rightarrow> bool" where
  "no_expiry c \<longleftrightarrow> c \<noteq> [] \<longrightarrow> hd c = ''SET'' \<longrightarrow> length c \<noteq> 5"

lemma set_command_no_expiry:
  "set_command env db c = Some (db', r) \<Longrightarrow> length c \<noteq> 5 \<Longrightarrow> persistent db \<Longrightarrow> persistent db'"
  by (auto simp: set_command_def split: if_splits option.splits bind_splits intro: persistent_operations(6))

lemma dispatch_persistent:
  assumes "dispatch env db c = Some (db', r)" "persistent db" "no_expiry c"
  shows "persistent db'"
proof (cases "is_write_command c")
  case False
  with sweeps_persistent(2) [OF dispatch_read_only_sweeps [OF assms(1)] assms(2)] show ?thesis by blast
next
  case True
  note p = persistent_results [OF assms(2)] persistent_operations(5) [OF assms(2)]
  show ?thesis
  proof (cases rule: dispatch_cases [where env = env and db = db and c = c])
    case set
    then have "set_command env db c = Some (db', r)" "length c \<noteq> 5" using assms(1,3) by (simp_all add: no_expiry_def)
    then show ?thesis using set_command_no_expiry assms(2) by blast
  next
    case incr
    then have "incr env db c = Some (db', r)" using assms(1) by simp
    then show ?thesis by (cases rule: incr_cases) (auto intro: p simp: assms(2))
  next
    case rpush
    then have "rpush env db c = Some (db', r) \<and> APPEND = APPEND \<or> lpush env db c = Some (db', r) \<and> APPEND = PREPEND"
      using assms(1) by simp
    then show ?thesis by (cases rule: push_cases) (auto intro: p simp: assms(2))
  next
    case lpush
    then have "rpush env db c = Some (db', r) \<and> PREPEND = APPEND \<or> lpush env db c = Some (db', r) \<and> PREPEND = PREPEND"
      using assms(1) by simp
    then show ?thesis by (cases rule: push_cases) (auto intro: p simp: assms(2))
  next
    case lpop
    then have "lpop env db c = Some (db', r)" using assms(1) by simp
    then show ?thesis by (cases rule: lpop_cases) (auto intro: p simp: assms(2))
  next
    case blpop
    then have "blpop env db c = Some (db', r)" using assms(1) by simp
    then show ?thesis by (cases rule: blpop_cases) (auto intro: p simp: assms(2))
  next
    case xadd
    then have "xadd env db c = Some (db', r)" using assms(1) by simp
    then show ?thesis by (cases rule: xadd_cases) (auto intro: p simp: assms(2))
  qed (use True in \<open>auto simp: is_write_command_iff\<close>)
qed

section \<open>Journals\<close>

text \<open>
  The effect of a logged write: whenever and wherever it is executed on a store with the contents \<open>s\<close>, it
  succeeds and leaves the contents \<open>s'\<close>.
\<close>

definition effect :: "command \<Rightarrow> store \<Rightarrow> store \<Rightarrow> bool" where
  "effect w s s' \<longleftrightarrow> is_write_command w \<and> hd w \<noteq> ''BLPOP'' \<and> sized w \<and> no_expiry w \<and>
     (\<forall>e db. persistent db \<longrightarrow> stored db = s \<longrightarrow>
       (\<exists>db' r. dispatch e db w = Some (db', r) \<and> \<not> response_is_error r \<and> persistent db' \<and> stored db' = s'))"

fun effects :: "command list \<Rightarrow> store \<Rightarrow> store \<Rightarrow> bool" where
  "effects [] s s' \<longleftrightarrow> s' = s"
| "effects (w # ws) s s' \<longleftrightarrow> (\<exists>s1. effect w s s1 \<and> effects ws s1 s')"

lemma effects_append: "effects (ws @ vs) s s' \<longleftrightarrow> (\<exists>s1. effects ws s s1 \<and> effects vs s1 s')"
  by (induction ws arbitrary: s) auto

datatype journal_entry = Direct command | Block "command list" | GetAck

fun entry_commands :: "journal_entry \<Rightarrow> command list" where
  "entry_commands (Direct w) = [w]"
| "entry_commands (Block ws) = [''MULTI''] # ws @ [[''EXEC'']]"
| "entry_commands GetAck = [[''REPLCONF'', ''GETACK'', ''*'']]"

definition entry_bytes :: "journal_entry \<Rightarrow> string" where
  "entry_bytes e = concat (map serialize_command (entry_commands e))"

fun entry_effect :: "journal_entry \<Rightarrow> store \<Rightarrow> store \<Rightarrow> bool" where
  "entry_effect (Direct w) s s' \<longleftrightarrow> effect w s s'"
| "entry_effect (Block ws) s s' \<longleftrightarrow> ws \<noteq> [] \<and> effects ws s s'"
| "entry_effect GetAck s s' \<longleftrightarrow> s' = s"

fun journal_effect :: "journal_entry list \<Rightarrow> store \<Rightarrow> store \<Rightarrow> bool" where
  "journal_effect [] s s' \<longleftrightarrow> s' = s"
| "journal_effect (e # es) s s' \<longleftrightarrow> (\<exists>s1. entry_effect e s s1 \<and> journal_effect es s1 s')"

lemma journal_effect_append:
  "journal_effect (es @ fs) s s' \<longleftrightarrow> (\<exists>s1. journal_effect es s s1 \<and> journal_effect fs s1 s')"
  by (induction es arbitrary: s) auto

abbreviation journal_commands :: "journal_entry list \<Rightarrow> command list" where
  "journal_commands es \<equiv> concat (map entry_commands es)"

abbreviation journal_bytes :: "journal_entry list \<Rightarrow> string" where
  "journal_bytes es \<equiv> concat (map entry_bytes es)"

text \<open>What goes into the file: all entries but the requests for an acknowledgement.\<close>

definition durable :: "journal_entry list \<Rightarrow> journal_entry list" where
  "durable es = filter (\<lambda>e. e \<noteq> GetAck) es"

lemma durable_simps [simp]: "durable [] = []" "durable (Direct w # es) = Direct w # durable es"
  "durable (Block ws # es) = Block ws # durable es" "durable (GetAck # es) = durable es"
  "durable (es @ fs) = durable es @ durable fs"
  by (simp_all add: durable_def)

lemma durable_effect: "journal_effect es s s' \<Longrightarrow> journal_effect (durable es) s s'"
proof (induction es arbitrary: s)
  case (Cons e es)
  then show ?case by (cases e) auto
qed simp

lemma journal_bytes_commands: "journal_bytes es = concat (map serialize_command (journal_commands es))"
  by (induction es) (simp_all add: entry_bytes_def)

lemma effects_sized: "effects ws s s' \<Longrightarrow> list_all sized ws"
  by (induction ws arbitrary: s) (auto simp: effect_def)

lemma effects_writes: "effects ws s s' \<Longrightarrow> list_all is_write_command ws"
  by (induction ws arbitrary: s) (auto simp: effect_def)

lemma journal_sized: "journal_effect es s s' \<Longrightarrow> list_all sized (journal_commands es)"
proof (induction es arbitrary: s)
  case (Cons e es)
  then obtain s1 where e: "entry_effect e s s1" and es: "list_all sized (journal_commands es)" by auto
  have "sized [''MULTI'']" "sized [''EXEC'']" "sized [''REPLCONF'', ''GETACK'', ''*'']" by (simp_all add: sized_def)
  with e effects_sized have "list_all sized (entry_commands e)" by (cases e) (auto simp: effect_def)
  with es show ?case by simp
qed simp

section \<open>Writes and their logged form\<close>

lemma length_dec_of_nat: "n < 10 ^ Suc k \<Longrightarrow> length (dec_of_nat n) \<le> Suc k"
proof (induction k arbitrary: n)
  case 0
  then show ?case by (subst dec_of_nat.simps) simp
next
  case (Suc k)
  show ?case
  proof (cases "n < 10")
    case True
    then show ?thesis by (subst dec_of_nat.simps) simp
  next
    case False
    have "n div 10 < 10 ^ Suc k" using Suc.prems by (simp add: less_mult_imp_div_less mult.commute)
    from Suc.IH [OF this] False show ?thesis by (subst dec_of_nat.simps) simp
  qed
qed

lemma stream_id_to_string_length: "length (stream_id_to_string i) \<le> 41"
proof -
  have "length (dec_of_nat (unat (w :: u64))) \<le> 20" for w
  proof -
    have "unat w < 2 ^ 64" using unsigned_less [of w] by simp
    also have "(2 :: nat) ^ 64 \<le> 10 ^ Suc 19" by simp
    finally show ?thesis using length_dec_of_nat by fastforce
  qed
  from this [of "milliseconds i"] this [of "sequence i"] show ?thesis by (simp add: stream_id_to_string_def)
qed

lemma sized_update: "sized c \<Longrightarrow> length a < 2 ^ 64 \<Longrightarrow> sized (c[i := a])"
  unfolding sized_def using set_update_subset_insert [of c i a] by auto

lemma normalize_command:
  assumes "dispatch env db c = Some (db', r)" "is_write_command c" "sized c" "no_expiry c"
    and "write_modified_database c r"
  shows "is_write_command (normalize_replication_command c r)" "sized (normalize_replication_command c r)"
    "no_expiry (normalize_replication_command c r)" "hd (normalize_replication_command c r) \<noteq> ''BLPOP''"
proof -
  have "is_write_command (normalize_replication_command c r) \<and> sized (normalize_replication_command c r) \<and>
    no_expiry (normalize_replication_command c r) \<and> hd (normalize_replication_command c r) \<noteq> ''BLPOP''"
  proof (cases "hd c = ''XADD''")
    case True
    have c: "c \<noteq> []" using assms(2) by (simp add: is_write_command_iff)
    then have "xadd env db c = Some (db', r)" using assms(1) True by (simp add: dispatch_table)
    then obtain i where r: "r = BulkString (stream_id_to_string i)"
      by (cases rule: xadd_cases) (use assms(5) in \<open>auto simp: write_modified_database_def response_is_error_def\<close>)
    have "hd (c[2 := stream_id_to_string i]) = ''XADD''" "c[2 := stream_id_to_string i] \<noteq> []"
      using c True by (cases c; simp)+
    moreover have "length (stream_id_to_string i) < 2 ^ 64"
      using stream_id_to_string_length [of i] by (rule le_less_trans) simp
    ultimately show ?thesis
      using r True sized_update [OF assms(3)]
      by (simp add: normalize_replication_command_def Let_def is_write_command_iff no_expiry_def)
  next
    case False
    show ?thesis
    proof (cases "hd c = ''BLPOP''")
      case True
      have "c ! 1 \<in> set c"
      proof -
        have "c \<noteq> []" using assms(2) by (simp add: is_write_command_iff)
        then have "blpop env db c = Some (db', r)" using assms(1) True by (simp add: dispatch_table)
        then have "length c = 3"
          by (cases rule: blpop_cases) (use assms(5) True in \<open>auto simp: write_modified_database_def response_is_error_def\<close>)
        then show ?thesis by simp
      qed
      with assms(3) have "sized [''LPOP'', c ! 1]" by (auto simp: sized_def)
      with True show ?thesis by (simp add: normalize_replication_command_def is_write_command_iff no_expiry_def)
    next
      case False
      with \<open>hd c \<noteq> ''XADD''\<close> assms show ?thesis by (simp add: normalize_plain)
    qed
  qed
  then show "is_write_command (normalize_replication_command c r)" "sized (normalize_replication_command c r)"
    "no_expiry (normalize_replication_command c r)" "hd (normalize_replication_command c r) \<noteq> ''BLPOP''" by simp_all
qed

lemma no_expiry_safe: "no_expiry c \<Longrightarrow> c \<noteq> [] \<Longrightarrow> \<not> set_overflows t c"
  by (auto simp: no_expiry_def set_overflows_def)

lemma write_effect:
  assumes "dispatch env db c = Some (db', r)" "is_write_command c" "write_modified_database c r"
    and "persistent db" "sized c" "no_expiry c" "word_of_int (system_clock env) \<noteq> (0 :: u64)"
  shows "effect (normalize_replication_command c r) (stored db) (stored db')"
  unfolding effect_def
proof (intro conjI allI impI)
  fix e :: env and db2 assume d: "persistent db2" "stored db2 = stored db"
  have c: "c \<noteq> []" using assms(2) by (simp add: is_write_command_iff)
  have "contents (steady_clock env 0) db = contents (steady_clock e 0) db2"
    using d assms(4) by (simp add: contents_persistent)
  from replay_step [OF assms(1-3) this assms(7) no_expiry_safe [OF assms(6) c]] obtain db2' r2 where
    2: "dispatch e db2 (normalize_replication_command c r) = Some (db2', r2)" "\<not> response_is_error r2"
      "contents (steady_clock env 0) db' = contents (steady_clock e 0) db2'" by blast
  have "persistent db2'" using dispatch_persistent [OF 2(1) d(1)] normalize_command(3) assms by blast
  with 2 dispatch_persistent [OF assms(1,4,6)] contents_persistent
  show "\<exists>db2' r2. dispatch e db2 (normalize_replication_command c r) = Some (db2', r2) \<and> \<not> response_is_error r2 \<and>
      persistent db2' \<and> stored db2' = stored db'" by (metis (no_types, lifting))
qed (use normalize_command [OF assms(1,2,5,6,3)] in blast)+

lemma unmodified_stored:
  assumes "dispatch env db c = Some (db', r)" "persistent db" "\<not> (is_write_command c \<and> write_modified_database c r)"
  shows "stored db' = stored db"
proof (cases "is_write_command c")
  case True
  with write_modified_exact [OF assms(1) True] assms(2,3) sweeps_persistent(3) show ?thesis by auto
next
  case False
  from sweeps_persistent(3) [OF dispatch_read_only_sweeps [OF assms(1) False] assms(2)] show ?thesis .
qed

lemma pop_effect:
  assumes "pop_list_element now k db = (db', Inr v)" "persistent db" "sized [''LPOP'', k]"
  shows "effect [''LPOP'', k] (stored db) (stored db')"
  unfolding effect_def
proof (intro conjI allI impI)
  fix e :: env and db2 assume d: "persistent db2" "stored db2 = stored db"
  let ?e1 = "e\<lparr>steady_clock := \<lambda>_. now\<rparr>"
  have "contents (steady_clock ?e1 0) db = contents (steady_clock e 0) db2"
    using d assms(2) by (simp add: contents_persistent)
  from pop_replay [OF _ this, of k db' "Inr v"] assms(1) obtain db2' where
    2: "pop_list_element (steady_clock e 0) k db2 = (db2', Inr v)" "contents now db' = contents (steady_clock e 0) db2'"
    by auto
  have "dispatch e db2 [''LPOP'', k] = Some (db2', BulkString v)" using 2(1) by (simp add: dispatch_table lpop_def)
  moreover have "persistent db2'" "persistent db'"
    using persistent_results(2) [OF d(1) 2(1)] persistent_results(2) [OF assms(2,1)] by simp_all
  ultimately show "\<exists>db2' r. dispatch e db2 [''LPOP'', k] = Some (db2', r) \<and> \<not> response_is_error r \<and>
      persistent db2' \<and> stored db2' = stored db'"
    using 2(2) by (auto simp: contents_persistent response_is_error_def)
qed (use assms(3) in \<open>simp_all add: is_write_command_iff no_expiry_def\<close>)

section \<open>Consumers\<close>

text \<open>
  Whoever executes a journal: \<open>step\<close> takes one command, \<open>ready p s\<close> says that \<open>p\<close> is between entries and its
  store holds \<open>s\<close>. The file's replay and the replica's stream are the two consumers.
\<close>

locale journal_consumer =
  fixes step :: "command \<Rightarrow> 'p \<Rightarrow> 'p option"
    and ready :: "'p \<Rightarrow> store \<Rightarrow> bool"
    and inside :: "'p \<Rightarrow> command list \<Rightarrow> store \<Rightarrow> bool"
  assumes direct: "ready p s \<Longrightarrow> effect w s s' \<Longrightarrow> \<exists>p'. step w p = Some p' \<and> ready p' s'"
    and multi: "ready p s \<Longrightarrow> \<exists>p'. step [''MULTI''] p = Some p' \<and> inside p' [] s"
    and queued: "inside p ws s \<Longrightarrow> is_write_command w \<Longrightarrow> \<exists>p'. step w p = Some p' \<and> inside p' (ws @ [w]) s"
    and exec: "inside p ws s \<Longrightarrow> ws \<noteq> [] \<Longrightarrow> effects ws s s' \<Longrightarrow> \<exists>p'. step [''EXEC''] p = Some p' \<and> ready p' s'"
    and getack: "ready p s \<Longrightarrow> \<exists>p'. step [''REPLCONF'', ''GETACK'', ''*''] p = Some p' \<and> ready p' s"
begin

fun consume :: "command list \<Rightarrow> 'p \<Rightarrow> 'p option" where
  "consume [] p = Some p"
| "consume (c # cs) p = Option.bind (step c p) (consume cs)"

lemma consume_append: "consume (cs @ ds) p = Option.bind (consume cs p) (consume ds)"
proof (induction cs arbitrary: p)
  case (Cons c cs)
  then show ?case by (cases "step c p") simp_all
qed simp

lemma consume_queued:
  "inside p vs s \<Longrightarrow> list_all is_write_command ws \<Longrightarrow> \<exists>p'. consume ws p = Some p' \<and> inside p' (vs @ ws) s"
proof (induction ws arbitrary: p vs)
  case (Cons w ws)
  from queued [OF Cons.prems(1)] Cons.prems(2) obtain p1 where "step w p = Some p1" "inside p1 (vs @ [w]) s" by auto
  with Cons.IH [of p1 "vs @ [w]"] Cons.prems(2) show ?case by simp
qed simp

lemma consume_entry:
  assumes "ready p s" "entry_effect e s s'"
  shows "\<exists>p'. consume (entry_commands e) p = Some p' \<and> ready p' s'"
proof (cases e)
  case (Direct w)
  with direct [of p s w s'] assms show ?thesis by auto
next
  case (Block ws)
  with assms(2) have ws: "ws \<noteq> []" "effects ws s s'" by simp_all
  then have w: "list_all is_write_command ws" using effects_writes by blast
  obtain p1 where 1: "step [''MULTI''] p = Some p1" "inside p1 [] s" using multi [OF assms(1)] by blast
  obtain p2 where 2: "consume ws p1 = Some p2" "inside p2 ws s" using consume_queued [OF 1(2) w] by auto
  obtain p3 where "step [''EXEC''] p2 = Some p3" "ready p3 s'" using exec [OF 2(2) ws] by blast
  with 1 2 Block show ?thesis by (simp add: consume_append)
next
  case GetAck
  with getack [OF assms(1)] assms(2) show ?thesis by auto
qed

lemma consume_journal:
  "ready p s \<Longrightarrow> journal_effect es s s' \<Longrightarrow> \<exists>p'. consume (journal_commands es) p = Some p' \<and> ready p' s'"
proof (induction es arbitrary: p s)
  case (Cons e es)
  then obtain s1 where e: "entry_effect e s s1" "journal_effect es s1 s'" by auto
  obtain p1 where "consume (entry_commands e) p = Some p1" "ready p1 s1" using consume_entry [OF Cons.prems(1) e(1)] by blast
  with Cons.IH [OF _ e(2), of p1] show ?case by (simp add: consume_append)
qed simp

end

end
