(* ===== verification/Processor_Journal.thy ===== *)
theory Processor_Journal
  imports Processor_Blocking Journal
begin

text \<open>
  The journal of the processor: every change that the worker makes to the store is appended, as one journal
  entry, to the append-only file and on a master to the replication backlog, before the answer is given.
  Replaying the file after a crash restores the store, and a replica that executes the stream reaches the
  contents of its master.
\<close>

section \<open>Reliable files\<close>

text \<open>A disk that takes every write, in pieces of any size, and every sync.\<close>

definition reliable :: "aof_file \<Rightarrow> bool" where
  "reliable f \<longleftrightarrow> (\<forall>i. \<exists>n. write_io f i = Wrote n \<and> 0 < n) \<and> (\<forall>i. sync_io f i = None)"

lemma write_all_reliable:
  "reliable f \<Longrightarrow> \<exists>f'. write_all bytes f = (f', Inr ()) \<and> file_bytes f' = file_bytes f @ bytes \<and> reliable f'"
proof (induction bytes f rule: write_all.induct)
  case (1 payload f)
  show ?case
  proof (cases "payload = []")
    case True
    with 1(2) show ?thesis by (simp add: write_all.simps)
  next
    case False
    obtain n where n: "write_io f (write_calls f) = Wrote n" "0 < n" using 1(2) unfolding reliable_def by blast
    let ?f1 = "f\<lparr>write_calls := Suc (write_calls f), file_bytes := file_bytes f @ take n payload\<rparr>"
    have "reliable ?f1" using 1(2) by (simp add: reliable_def)
    with 1(1) [OF False refl n(1)] n(2) obtain f' where "write_all (drop n payload) ?f1 = (f', Inr ())"
      "file_bytes f' = file_bytes f @ take n payload @ drop n payload" "reliable f'" by auto
    with n False show ?thesis by (subst write_all.simps) (simp add: Let_def)
  qed
qed

lemma append_aof_reliable:
  assumes "reliable f"
  shows "\<exists>f'. append_aof now synced bytes f = (f', Inr ()) \<and> file_bytes f' = file_bytes f @ bytes \<and> reliable f'"
proof -
  obtain f1 where "write_all bytes f = (f1, Inr ())" "file_bytes f1 = file_bytes f @ bytes" "reliable f1"
    using write_all_reliable [OF assms] by blast
  then show ?thesis by (auto simp: append_aof_def sync_def reliable_def Let_def)
qed

section \<open>Journaled changes\<close>

definition clock_running :: "world \<Rightarrow> bool" where
  "clock_running w \<longleftrightarrow> (\<forall>n. word_of_int (system_clock (envs w n)) \<noteq> (0 :: u64))"

definition good :: "processor \<Rightarrow> bool" where
  "good p \<longleftrightarrow> persistent (database p) \<and> (\<forall>f. aof_log p = Some f \<longrightarrow> reliable f) \<and> clock_running (outside p)"

abbreviation is_master :: "processor \<Rightarrow> bool" where
  "is_master p \<equiv> role (replication p) = ROLE_MASTER"

definition file_grows :: "string \<Rightarrow> aof_file option \<Rightarrow> aof_file option \<Rightarrow> bool" where
  "file_grows bytes l l' \<longleftrightarrow>
     (case l of
        None \<Rightarrow> l' = None
      | Some f \<Rightarrow> \<exists>f'. l' = Some f' \<and> reliable f' \<and> file_bytes f' = file_bytes f @ bytes)"

definition journaled :: "journal_entry list \<Rightarrow> processor \<Rightarrow> processor \<Rightarrow> bool" where
  "journaled es p p' \<longleftrightarrow>
     journal_effect es (stored (database p)) (stored (database p')) \<and> good p' \<and>
     role (replication p') = role (replication p) \<and>
     file_grows (journal_bytes (durable es)) (aof_log p) (aof_log p') \<and>
     (is_master p \<longrightarrow>
        map payload (replication_backlog p') = map payload (replication_backlog p) @ map entry_bytes es \<and>
        offset (replication p') = offset (replication p) + of_nat (length (journal_bytes es)))"

lemma file_grows_trans: "file_grows a l l1 \<Longrightarrow> file_grows b l1 l2 \<Longrightarrow> file_grows (a @ b) l l2"
  by (auto simp: file_grows_def split: option.splits)

lemma file_grows_refl: "(\<And>f. l = Some f \<Longrightarrow> reliable f) \<Longrightarrow> file_grows [] l l"
  by (auto simp: file_grows_def split: option.splits)

lemma journaled_trans: "journaled es p p1 \<Longrightarrow> journaled fs p1 p2 \<Longrightarrow> journaled (es @ fs) p p2"
  unfolding journaled_def by (auto simp: journal_effect_append intro: file_grows_trans)

text \<open>Changes that the journal need not know.\<close>

definition calm :: "processor \<Rightarrow> processor \<Rightarrow> bool" where
  "calm p p' \<longleftrightarrow> stored (database p') = stored (database p) \<and> persistent (database p') \<and> outside p' = outside p \<and>
     role (replication p') = role (replication p) \<and> aof_log p' = aof_log p \<and> replication_backlog p' = replication_backlog p \<and>
     (is_master p \<longrightarrow> offset (replication p') = offset (replication p))"

lemma calm_journaled: "calm p p' \<Longrightarrow> good p \<Longrightarrow> journaled [] p p'"
  by (auto simp: calm_def journaled_def good_def file_grows_refl)

lemma calm_trans: "calm p p1 \<Longrightarrow> calm p1 p2 \<Longrightarrow> calm p p2"
  by (simp add: calm_def)

lemma calm_good: "calm p p' \<Longrightarrow> good p \<Longrightarrow> good p'"
  by (simp add: calm_def good_def)

lemma calm_refl: "good p \<Longrightarrow> calm p p"
  by (simp add: calm_def good_def)

lemma journaled_good: "journaled es p p' \<Longrightarrow> good p'"
  by (simp add: journaled_def)

lemma calm_swept:
  assumes "swept p p'" "good p" "aof_log p' = aof_log p" "replication_part p' = replication_part p"
  shows "calm p p'"
  using assms sweeps_persistent(2,3) [of "readings p p'" "database p" "database p'"]
  by (auto simp: calm_def good_def swept_def replication_part_def)

lemma calm_same:
  "database p' = database p \<Longrightarrow> outside p' = outside p \<Longrightarrow> role (replication p') = role (replication p) \<Longrightarrow>
   aof_log p' = aof_log p \<Longrightarrow> replication_backlog p' = replication_backlog p \<Longrightarrow> good p \<Longrightarrow>
   (is_master p \<Longrightarrow> offset (replication p') = offset (replication p)) \<Longrightarrow> calm p p'"
  by (simp add: calm_def good_def)

lemma calm_rest:
  assumes "rest_part p' = rest_part p" "good p"
  shows "calm p p'"
  using rest_partD [OF assms(1)] assms(2)
  by (intro calm_same) (auto simp: bookkeeping_def store_part_def replication_part_def)

lemma calm_unwritten: "unwritten p p' \<Longrightarrow> good p \<Longrightarrow> calm p p'"
  using sweeps_persistent(2,3) [of "readings p p'" "database p" "database p'"]
  by (auto simp: calm_def good_def unwritten_def swept_def)

text \<open>Appending an entry to the file and to the backlog after the store was changed.\<close>

definition append_entry :: "bool \<Rightarrow> bool \<Rightarrow> client_id \<Rightarrow> string \<Rightarrow> processor \<Rightarrow> processor" where
  "append_entry rep per client bytes p =
     (let p1 = (if per then fst (append_log bytes p) else p)
      in if rep then append_client_replication_frame client bytes p1 else p1)"

lemma append_log_good:
  assumes "append_log bytes p = (p1, r)" "good p"
  shows "r = Inr () \<and> file_grows bytes (aof_log p) (aof_log p1) \<and> database p1 = database p \<and> outside p1 = outside p \<and>
    replication p1 = replication p \<and> replication_backlog p1 = replication_backlog p"
proof (cases "aof_log p")
  case None
  with assms show ?thesis by (auto simp: append_log_def file_grows_def)
next
  case (Some f)
  with assms(2) have "reliable f" by (simp add: good_def)
  from append_aof_reliable [OF this] Some assms(1) show ?thesis
    by (auto simp: append_log_def file_grows_def split: prod.splits) (metis Pair_inject)+
qed

lemma append_client_replication_frame_fields:
  "database (append_client_replication_frame client bytes p) = database p"
  "aof_log (append_client_replication_frame client bytes p) = aof_log p"
  "outside (append_client_replication_frame client bytes p) = outside p"
  "role (replication (append_client_replication_frame client bytes p)) = role (replication p)"
  "map payload (replication_backlog (append_client_replication_frame client bytes p)) =
     map payload (replication_backlog p) @ [bytes]"
  "offset (replication (append_client_replication_frame client bytes p)) = offset (replication p) + of_nat (length bytes)"
  by (simp_all add: append_client_replication_frame_def append_replication_frame_def Let_def)

lemma append_entry_journaled:
  assumes "good p" "entry_effect e (stored (database p)) (stored (database p1))" "persistent (database p1)" "e \<noteq> GetAck"
    and "aof_log p1 = aof_log p" "replication p1 = replication p" "replication_backlog p1 = replication_backlog p"
    and "outside p1 = outside p" "per \<longleftrightarrow> aof_log p \<noteq> None" "rep \<longleftrightarrow> is_master p"
  shows "journaled [e] p (append_entry rep per client (entry_bytes e) p1)"
proof -
  have g1: "good p1" using assms by (simp add: good_def)
  have d: "durable [e] = [e]" using assms(4) by (cases e) simp_all
  obtain p2 r where p2: "append_log (entry_bytes e) p1 = (p2, r)" by fastforce
  define q where "q = (if per then p2 else p1)"
  have q: "file_grows (entry_bytes e) (aof_log p) (aof_log q)" "database q = database p1" "outside q = outside p"
    "replication q = replication p" "replication_backlog q = replication_backlog p"
    using append_log_good [OF p2 g1] assms by (auto simp: q_def file_grows_def)
  have "append_entry rep per client (entry_bytes e) p1 =
      (if rep then append_client_replication_frame client (entry_bytes e) q else q)"
    using p2 by (simp add: append_entry_def q_def)
  moreover have "reliable f" if "aof_log q = Some f" for f
    using q(1) that by (auto simp: file_grows_def split: option.splits)
  ultimately show ?thesis
    using q assms d by (auto simp: journaled_def good_def append_client_replication_frame_fields)
qed

section \<open>Direct writes\<close>

definition plain :: "command \<Rightarrow> bool" where
  "plain c \<longleftrightarrow> sized c \<and> no_expiry c"

definition admissible :: "processor \<Rightarrow> task \<Rightarrow> bool" where
  "admissible p t \<longleftrightarrow> task_source t \<noteq> AOF \<and> (is_master p \<longrightarrow> task_source t = CLIENT) \<and> plain (task_command t)"

lemma process_command_write:
  assumes "is_write_command w"
  shows "process_command client w source p =
     (case transactions p client of
        Some t \<Rightarrow>
          Some (p\<lparr>transactions := (transactions p)(client \<mapsto> t\<lparr>transaction_commands := transaction_commands t @ [w]\<rparr>)\<rparr>,
                SimpleString ''QUEUED'')
      | None \<Rightarrow> run_dispatch w p)"
  using assms unfolding is_write_command_iff
  by (elim conjE insertE emptyE) (simp_all add: process_command_def Let_def)

lemma log_direct_write_entry:
  assumes "write_modified_database (task_command t) r" "good p"
  shows "log_direct_write t rep per r p =
    (append_entry rep per (task_client t) (entry_bytes (Direct (normalize_replication_command (task_command t) r))) p, r)"
proof -
  let ?bytes = "serialize_command (normalize_replication_command (task_command t) r)"
  have ok: "\<not> response_is_error r" using assms(1) by (auto simp: write_modified_database_def)
  obtain p1 x where l: "append_log ?bytes p = (p1, x)" by fastforce
  with append_log_good [OF l assms(2)] have "append_log ?bytes p = (p1, Inr ())" by simp
  with assms ok show ?thesis by (auto simp: log_direct_write_def append_entry_def entry_bytes_def Let_def)
qed

lemma direct_write_journaled:
  assumes "run_dispatch c p = Some (p1, r)" "is_write_command c" "good p" "admissible p t" "task_command t = c"
    and "rep = (is_master p \<and> task_source t = CLIENT)" "per = (aof_log p \<noteq> None \<and> task_source t \<noteq> AOF)"
    and "log_direct_write t rep per r p1 = (p2, r2)"
  shows "\<exists>es. journaled es p p2"
proof -
  note f = run_dispatch_frame [OF assms(1)]
  have same: "aof_log p1 = aof_log p" "replication p1 = replication p" "replication_backlog p1 = replication_backlog p"
    "outside p1 = outside p"
    using f by (simp_all add: bookkeeping_def replication_part_def)
  have d: "persistent (database p)" and plain: "sized c" "no_expiry c"
    using assms(3,4,5) by (simp_all add: good_def admissible_def plain_def)
  have pp: "persistent (database p1)" using dispatch_persistent [OF f(7) d plain(2)] .
  have g1: "good p1" using assms(3) same pp by (simp add: good_def)
  show ?thesis
  proof (cases "write_modified_database c r")
    case True
    let ?e = "Direct (normalize_replication_command c r)"
    have "word_of_int (system_clock (current_env p)) \<noteq> (0 :: u64)"
      using assms(3) by (simp add: good_def clock_running_def current_env_def)
    then have "entry_effect ?e (stored (database p)) (stored (database p1))"
      using write_effect [OF f(7) assms(2) True d plain] by simp
    from append_entry_journaled [OF assms(3) this pp _ same, of per rep] assms(4,6,7)
    have "journaled [?e] p (append_entry rep per (task_client t) (entry_bytes ?e) p1)"
      by (auto simp: admissible_def)
    with log_direct_write_entry [of t r p1 rep per] True g1 assms(5,8) show ?thesis by auto
  next
    case False
    then have "p2 = p1" using assms(5,8) by (auto simp: log_direct_write_def)
    moreover have "stored (database p1) = stored (database p)" using unmodified_stored [OF f(7) d] False by blast
    ultimately have "calm p p2" using same pp by (simp add: calm_def)
    with calm_journaled [OF _ assms(3)] show ?thesis by blast
  qed
qed

section \<open>Transactions\<close>

text \<open>The bytes that the transaction loop has collected: nothing before the first write.\<close>

definition collected :: "bool \<Rightarrow> command list \<Rightarrow> string" where
  "collected record_writes ws =
     (if record_writes \<and> ws \<noteq> [] then concat (map serialize_command ([''MULTI''] # ws)) else [])"

lemma serialize_nonempty: "sized c \<Longrightarrow> serialize_command c \<noteq> []"
  using resp_stream.decode_encode [of c "[]"] resp_stream.decode_progress [of "serialize_command c" c] by fastforce

lemma collected_empty: "collected record_writes ws = [] \<longleftrightarrow> \<not> (record_writes \<and> ws \<noteq> [])"
proof -
  have "serialize_command [''MULTI''] \<noteq> []" by (rule serialize_nonempty) (simp add: sized_def)
  then show ?thesis by (simp add: collected_def)
qed

lemma transaction_loop_collects:
  assumes "transaction_loop record_writes commands p (collected record_writes ws0) responses = Some (p', bytes, responses')"
    and "good p" "\<forall>c \<in> set commands. plain c"
  shows "\<exists>ws. effects ws (stored (database p)) (stored (database p')) \<and> bytes = collected record_writes (ws0 @ ws) \<and>
    persistent (database p')"
  using assms
proof (induction commands arbitrary: p ws0 responses)
  case Nil
  then show ?case by (intro exI [of _ "[]"]) (simp add: good_def)
next
  case (Cons c commands)
  from Cons.prems(1) obtain p1 r where run: "run_dispatch c p = Some (p1, r)"
    by (auto simp: Option.bind_eq_Some_conv)
  note f = run_dispatch_frame [OF run]
  have d: "persistent (database p)" and plain: "sized c" "no_expiry c"
    using Cons.prems(2,3) by (simp_all add: good_def plain_def)
  have g1: "good p1"
    using Cons.prems(2) dispatch_persistent [OF f(7) d plain(2)] f by (simp add: good_def bookkeeping_def)
  have rest: "\<forall>c \<in> set commands. plain c" using Cons.prems(3) by simp
  show ?case
  proof (cases "is_write_command c \<and> write_modified_database c r")
    case True
    let ?w = "normalize_replication_command c r"
    have "word_of_int (system_clock (current_env p)) \<noteq> (0 :: u64)"
      using Cons.prems(2) by (simp add: good_def clock_running_def current_env_def)
    then have w: "effect ?w (stored (database p)) (stored (database p1))"
      using write_effect [OF f(7) _ _ d plain] True by simp
    have "transaction_loop record_writes commands p1 (collected record_writes (ws0 @ [?w])) (responses @ [r]) =
        Some (p', bytes, responses')"
      using Cons.prems(1) run True collected_empty [of record_writes ws0] by (auto simp: collected_def split: if_splits)
    from Cons.IH [OF this g1 rest] obtain ws where "effects ws (stored (database p1)) (stored (database p'))"
      "bytes = collected record_writes (ws0 @ ?w # ws)" "persistent (database p')" by auto
    with w show ?thesis by (intro exI [of _ "?w # ws"]) auto
  next
    case False
    then have "transaction_loop record_writes commands p1 (collected record_writes ws0) (responses @ [r]) =
        Some (p', bytes, responses')"
      using Cons.prems(1) run by (auto simp: Let_def)
    from Cons.IH [OF this g1 rest] unmodified_stored [OF f(7) d False] show ?thesis by simp
  qed
qed

definition transactions_plain :: "processor \<Rightarrow> bool" where
  "transactions_plain p \<longleftrightarrow> (\<forall>c. \<forall>x \<in> queued c p. plain x)"

lemma log_transaction_entry:
  assumes "ws \<noteq> []" "good p"
  shows "fst (log_transaction client rep per (collected (rep \<or> per) ws) responses p) =
    append_entry rep per client (entry_bytes (Block ws)) p"
proof (cases "rep \<or> per")
  case True
  have b: "collected (rep \<or> per) ws @ serialize_command [''EXEC''] = entry_bytes (Block ws)"
    using True assms(1) by (simp add: collected_def entry_bytes_def)
  obtain p1 x where l: "append_log (entry_bytes (Block ws)) p = (p1, x)" by fastforce
  with append_log_good [OF l assms(2)] have "append_log (entry_bytes (Block ws)) p = (p1, Inr ())" by simp
  with True collected_empty [of "rep \<or> per" ws] assms(1) b show ?thesis
    by (auto simp: log_transaction_def append_entry_def Let_def)
next
  case False
  then show ?thesis by (simp add: log_transaction_def collected_def append_entry_def)
qed

lemma execute_transaction_journaled:
  assumes "execute_transaction client source p = Some (p', r)" "good p" "transactions_plain p"
    and "source \<noteq> AOF" "is_master p \<Longrightarrow> source = CLIENT"
  shows "\<exists>es. journaled es p p'"
  using assms(1)
proof (cases rule: execute_transaction_cases)
  case none
  with calm_journaled [OF calm_refl] assms(2) show ?thesis by blast
next
  case (refused tr p1 changed)
  have "calm p p1"
    using check_watched_swept [of p client] check_watched_frame [OF refused(2)] refused(2) by (intro calm_swept [OF _ assms(2)]) auto
  then have "calm p p'" using refused(3) by (simp add: calm_def forget_transaction_def)
  with calm_journaled assms(2) show ?thesis by blast
next
  case (executed tr p1 p3 bytes responses per rep)
  let ?q = "forget_transaction client p1"
  have "calm p p1"
    using check_watched_swept [of p client] check_watched_frame [OF executed(3)] executed(3)
    by (intro calm_swept [OF _ assms(2)]) auto
  then have q: "calm p ?q" by (simp add: calm_def forget_transaction_def)
  have gq: "good ?q" using calm_good [OF q assms(2)] .
  have plain: "\<forall>c \<in> set (transaction_commands tr). plain c"
    using assms(3) executed(1) unfolding transactions_plain_def by (auto dest!: spec [of _ client] simp: queued_def)
  have "transaction_loop (rep \<or> per) (transaction_commands tr) ?q (collected (rep \<or> per) []) [] = Some (p3, bytes, responses)"
    using executed(7) by (simp add: collected_def)
  from transaction_loop_collects [OF this gq plain] obtain ws where
    ws: "effects ws (stored (database ?q)) (stored (database p3))" "bytes = collected (rep \<or> per) ws" "persistent (database p3)"
    by auto
  have same: "aof_log p3 = aof_log ?q" "replication p3 = replication ?q" "replication_backlog p3 = replication_backlog ?q"
    "outside p3 = outside ?q"
    using transaction_loop_frame [OF executed(7)] by (simp_all add: bookkeeping_def replication_part_def)
  have g3: "good p3" using gq ws(3) same by (simp add: good_def)
  have "\<exists>es. journaled es ?q p'"
  proof (cases "ws = []")
    case True
    then have "p' = p3" using executed(8) ws(2) by (simp add: log_transaction_def collected_def)
    with True ws same have "calm ?q p'" by (simp add: calm_def)
    with calm_journaled [OF _ gq] show ?thesis by blast
  next
    case False
    have "p' = append_entry rep per client (entry_bytes (Block ws)) p3"
      using log_transaction_entry [OF False g3, of client rep per responses] executed(8) ws(2) by (metis fst_conv)
    moreover have "journaled [Block ws] ?q (append_entry rep per client (entry_bytes (Block ws)) p3)"
      using ws False executed(5,6) assms(4,5) q
      by (intro append_entry_journaled [OF gq _ ws(3) _ same]) (auto simp: forget_transaction_def calm_def)
    ultimately show ?thesis by blast
  qed
  with journaled_trans [OF calm_journaled [OF q assms(2)]] show ?thesis by blast
qed

lemma process_command_journaled:
  assumes "process_command client command source p = Some (p', r)" "good p" "transactions_plain p"
    and "source \<noteq> AOF" "is_master p \<Longrightarrow> source = CLIENT" "\<not> (is_write_command command \<and> transactions p client = None)"
  shows "\<exists>es. journaled es p p'"
  using assms(1)
proof (cases rule: process_command_effects)
  case clients
  from calm_journaled [OF calm_rest [OF this assms(2)] assms(2)] show ?thesis by blast
next
  case watch
  have "calm p p'"
    using watch_swept [of p client command] watch_frame [OF watch(2)] watch(2) by (intro calm_swept [OF _ assms(2)]) auto
  with calm_journaled assms(2) show ?thesis by blast
next
  case exec
  from execute_transaction_journaled [OF exec(2) assms(2-5)] show ?thesis by blast
next
  case run
  then have "\<not> is_write_command command" using assms(6) by simp
  from run_dispatch_swept [OF run(3) this] run_dispatch_frame [OF run(3)] have "calm p p'"
    by (intro calm_swept [OF _ assms(2)])
  with calm_journaled assms(2) show ?thesis by blast
next
  case unwatch
  then have "calm p p'" using assms(2) by (intro calm_same) simp_all
  with calm_journaled assms(2) show ?thesis by blast
next
  case multi
  then have "calm p p'" using assms(2) by (intro calm_same) simp_all
  with calm_journaled assms(2) show ?thesis by blast
next
  case discard
  then have "calm p p'" using assms(2) by (intro calm_same) (simp_all add: forget_transaction_def)
  with calm_journaled assms(2) show ?thesis by blast
next
  case (queue t)
  then have "calm p p'" using assms(2) by (intro calm_same) simp_all
  with calm_journaled assms(2) show ?thesis by blast
qed

section \<open>Tasks\<close>

lemma journaled_calm: "journaled es p p1 \<Longrightarrow> calm p1 p2 \<Longrightarrow> journaled es p p2"
  using journaled_trans [of es p p1 "[]" p2] calm_journaled [of p1 p2] journaled_good by auto

lemma calm_fulfil: "good p \<Longrightarrow> calm p (fulfil q r p)"
  by (rule calm_same) simp_all

lemma execute_task_journaled:
  assumes "execute_task t p = Some p'" "good p" "transactions_plain p" "admissible p t"
  shows "\<exists>es. journaled es p p'"
  using assms(1)
proof (cases rule: execute_task_stages)
  case (1 p1 response p2 response2 p3 response3 rep per)
  have a: "task_source t \<noteq> AOF" "is_master p \<Longrightarrow> task_source t = CLIENT" using assms(4) by (simp_all add: admissible_def)
  obtain es where es: "journaled es p p2"
  proof (cases "is_write_command (task_command t) \<and> transactions p (task_client t) = None")
    case True
    then have run: "run_dispatch (task_command t) p = Some (p1, response)" using 1(3) by (simp add: process_command_write)
    have "rep = (is_master p \<and> task_source t = CLIENT)" "per = (aof_log p \<noteq> None \<and> task_source t \<noteq> AOF)"
      using 1(1,2) True by simp_all
    from direct_write_journaled [OF run _ assms(2,4) refl this 1(4)] True that show ?thesis by blast
  next
    case False
    then have "p2 = p1" using 1(1,2,4) by (auto simp: log_direct_write_def)
    with process_command_journaled [OF 1(3) assms(2,3) a] False that show ?thesis by blast
  qed
  have g2: "good p2" using journaled_good [OF es] .
  have "calm p2 (advance_offset t response p2)" by (rule calm_same [OF _ _ _ _ _ g2]) (use a es in \<open>auto simp: advance_offset_def journaled_def\<close>)
  moreover from this have "calm (advance_offset t response p2) p3"
    by (intro calm_rest [OF deliver_rest [OF 1(5)]] calm_good [OF _ g2])
  ultimately have c3: "calm p2 p3" by (rule calm_trans)
  with calm_fulfil [OF calm_good [OF c3 g2]] 1(6) have "calm p2 p'" by (auto intro: calm_trans)
  with journaled_calm [OF es] show ?thesis by blast
qed

lemma pop_for_fields:
  assumes "pop_for k p = (p1, r)"
  shows "aof_log p1 = aof_log p" "replication p1 = replication p" "replication_backlog p1 = replication_backlog p"
    "outside p1 = outside p" "pop_list_element (steady_clock (current_env p) 0) k (database p) = (database p1, r)"
  using assms by (auto simp: pop_for_def split: prod.splits)

lemma pop_for_calm:
  assumes "pop_for k p = (p1, Inl e)" "good p"
  shows "calm p p1"
proof -
  note f = pop_for_fields [OF assms(1)]
  have "persistent (database p)" using assms(2) by (simp add: good_def)
  from sweeps_persistent [OF write_error_sweeps(1) [OF f(5)] this] f show ?thesis by (simp add: calm_def)
qed

lemma pop_answer_journaled:
  assumes "pop_for k p = (p1, Inr v)" "good p" "admissible p t" "sized [''LPOP'', k]"
  shows "journaled [Direct [''LPOP'', k]] p (answer_pop t k v p1)"
proof -
  note f = pop_for_fields [OF assms(1)]
  let ?e = "Direct [''LPOP'', k]"
  let ?rep = "is_master p \<and> task_source t = CLIENT" and ?per = "aof_log p \<noteq> None \<and> task_source t \<noteq> AOF"
  have d: "persistent (database p)" using assms(2) by (simp add: good_def)
  have pp: "persistent (database p1)" using persistent_results(2) [OF d f(5)] .
  have g1: "good p1" using assms(2) f pp by (simp add: good_def)
  obtain p2 x where l: "append_log (entry_bytes ?e) p1 = (p2, x)" by fastforce
  note a = append_log_good [OF l g1]
  have "persist_blocking_pop t k p1 = (append_entry ?rep ?per (task_client t) (entry_bytes ?e) p1, Inr ())"
    using l a f by (auto simp: persist_blocking_pop_def append_entry_def entry_bytes_def Let_def)
  then have ans: "answer_pop t k v p1 = respond t (Array [k, v]) (append_entry ?rep ?per (task_client t) (entry_bytes ?e) p1)"
    by (simp add: answer_pop_def)
  have "entry_effect ?e (stored (database p)) (stored (database p1))" using pop_effect [OF f(5) d assms(4)] by simp
  then have "journaled [?e] p (append_entry ?rep ?per (task_client t) (entry_bytes ?e) p1)"
    using assms(3) by (intro append_entry_journaled [OF assms(2) _ pp _ f(1-4)]) (auto simp: admissible_def)
  from journaled_calm [OF this calm_fulfil [OF journaled_good [OF this]]] ans show ?thesis by simp
qed

lemma parse_blpop_sized: "parse_blpop c = Some (Inr r) \<Longrightarrow> sized c \<Longrightarrow> sized [''LPOP'', pop_key r]"
  by (auto simp: parse_blpop_def sized_def split: if_splits option.splits)

lemma process_blpop_journaled:
  assumes "process_blpop t p = Some p'" "good p" "admissible p t"
  shows "\<exists>es. journaled es p p'"
  using assms(1)
proof (cases rule: process_blpop_cases)
  case (invalid e)
  with calm_journaled [OF calm_fulfil [OF assms(2)] assms(2)] show ?thesis by auto
next
  case (popped r p1 v)
  have "sized [''LPOP'', pop_key r]" using parse_blpop_sized [OF popped(1)] assms(3) by (simp add: admissible_def plain_def)
  from pop_answer_journaled [OF popped(2) assms(2,3) this] popped(3) show ?thesis by blast
next
  case (wrong_type r p1)
  have c: "calm p p1" using pop_for_calm [OF wrong_type(2) assms(2)] .
  from calm_trans [OF c calm_fulfil [OF calm_good [OF c assms(2)]]] wrong_type(3) calm_journaled [OF _ assms(2)]
  show ?thesis by blast
next
  case (blocked r p1 e d)
  have c: "calm p p1" using pop_for_calm [OF blocked(2) assms(2)] .
  have "calm p p'" using c by (simp add: blocked(5) calm_def)
  with calm_journaled [OF _ assms(2)] show ?thesis by blast
qed

lemma process_wait_journaled:
  assumes "process_wait t p = Some p'" "good p"
  shows "\<exists>es. journaled es p p'"
  using assms(1)
proof (cases rule: process_wait_cases)
  case (invalid e)
  with calm_journaled [OF calm_fulfil [OF assms(2)] assms(2)] show ?thesis by auto
next
  case (answered target n)
  have "calm p p'" using assms(2) by (intro calm_same) (simp_all add: answered(3) count_acknowledged_replicas_state)
  with calm_journaled [OF _ assms(2)] show ?thesis by blast
next
  case (blocked request target p2 d)
  have "journaled [GetAck] p p'"
    using assms(2) blocked(1)
    by (auto simp: journaled_def blocked(6,7) append_replication_frame_def Let_def count_acknowledged_replicas_state good_def
        entry_bytes_def intro: file_grows_refl)
  then show ?thesis by blast
qed

lemma process_task_journaled:
  assumes "process_task t p = Some p'" "good p" "transactions_plain p" "admissible p t"
  shows "\<exists>es. journaled es p p'"
  using assms(1)
proof (cases rule: process_task_cases)
  case (refused r p1)
  have c: "calm p p1" by (rule calm_rest [OF refused(1) assms(2)])
  from calm_trans [OF c calm_fulfil [OF calm_good [OF c assms(2)]]] refused(3) calm_journaled [OF _ assms(2)]
  show ?thesis by blast
next
  case (readonly p1)
  have "calm p p'" using assms(2) by (intro calm_same) (simp_all add: readonly(4,5) split: option.splits)
  with calm_journaled [OF _ assms(2)] show ?thesis by blast
next
  case blpop
  from process_blpop_journaled [OF blpop(2) assms(2,4)] show ?thesis .
next
  case xread
  have "calm p p'" using process_xread_swept [OF xread] by (intro calm_swept [OF _ assms(2)]) simp_all
  with calm_journaled [OF _ assms(2)] show ?thesis by blast
next
  case wait
  from process_wait_journaled [OF wait assms(2)] show ?thesis .
next
  case execute
  from execute_task_journaled [OF execute(1) assms(2-4)] show ?thesis .
qed

section \<open>The worker\<close>

definition pops_plain :: "processor \<Rightarrow> bool" where
  "pops_plain p \<longleftrightarrow> (\<forall>x \<in> set (pending_list_pops p). admissible p (pop_task x) \<and> sized [''LPOP'', pending_key x])"

lemma admissible_cong: "role (replication p') = role (replication p) \<Longrightarrow> admissible p' t = admissible p t"
  by (simp add: admissible_def)

lemma retry_list_pops_journaled:
  assumes "good p" "\<forall>x \<in> set xs. admissible p (pop_task x) \<and> sized [''LPOP'', pending_key x]"
  shows "\<exists>es. journaled es p (fst (retry_list_pops xs p))"
  using assms
proof (induction xs arbitrary: p)
  case Nil
  then show ?case using calm_journaled [OF calm_refl] by fastforce
next
  case (Cons x xs)
  obtain p1 r where pop: "pop_for (pending_key x) p = (p1, r)" by fastforce
  have "\<exists>es q. journaled es p q \<and> fst (retry_list_pops (x # xs) p) = fst (retry_list_pops xs q)"
  proof (cases r)
    case (Inr v)
    from pop_answer_journaled [of "pending_key x" p p1 v "pop_task x"] Cons.prems pop Inr show ?thesis
      by (intro exI [of _ "[Direct [''LPOP'', pending_key x]]"] exI [of _ "answer_pop (pop_task x) (pending_key x) v p1"]) simp
  next
    case (Inl e)
    have c: "calm p p1" using pop_for_calm pop Inl Cons.prems(1) by blast
    then have c2: "calm p (respond (pop_task x) wrong_type_error p1)"
      using calm_fulfil [OF calm_good [OF c Cons.prems(1)]] calm_trans by blast
    show ?thesis
      using calm_journaled [OF c Cons.prems(1)] calm_journaled [OF c2 Cons.prems(1)] pop Inl
      by (cases "e = WRONG_TYPE", force) (intro exI [of _ "[]"] exI [of _ p1], simp split: prod.splits)
  qed
  then obtain es q where q: "journaled es p q" "fst (retry_list_pops (x # xs) p) = fst (retry_list_pops xs q)" by blast
  have "\<forall>x \<in> set xs. admissible q (pop_task x) \<and> sized [''LPOP'', pending_key x]"
    using Cons.prems(2) q(1) admissible_cong [of q p] by (simp add: journaled_def)
  from Cons.IH [OF journaled_good [OF q(1)] this] journaled_trans [OF q(1)] q(2) show ?case by auto
qed

lemma retry_all_journaled:
  assumes "good p" "pops_plain p"
  shows "\<exists>es. journaled es p (expire_all (retry_all p))"
proof -
  obtain p1 rest where r: "retry_list_pops (pending_list_pops p) p = (p1, rest)" by fastforce
  from retry_list_pops_journaled [OF assms(1), of "pending_list_pops p"] assms(2) r obtain es where es: "journaled es p p1"
    by (auto simp: pops_plain_def)
  let ?q = "p1\<lparr>pending_list_pops := rest\<rparr>"
  have 1: "retry_pending_list_pops p = ?q" using r by (simp add: retry_pending_list_pops_def)
  have q: "calm p1 ?q" "good p1" using journaled_good [OF es] by (auto intro: calm_same)
  have "unwritten ?q (expire_all (retry_pending_waits (retry_pending_stream_reads ?q)))"
    by (rule late_unwritten)
  then have "calm ?q (expire_all (retry_all p))"
    using calm_unwritten calm_good [OF q] by (simp add: retry_all_def 1)
  with journaled_calm [OF es] calm_trans [OF q(1)] show ?thesis by blast
qed

text \<open>Tasks that the journal covers: no snapshot is loaded, no second log is opened, and a master keeps its offset.\<close>

definition admissible_task :: "processor \<Rightarrow> processor_task \<Rightarrow> bool" where
  "admissible_task p u \<longleftrightarrow>
     (case u of
        CommandTask t \<Rightarrow> admissible p t
      | LoadRdbTask es q \<Rightarrow> False
      | InitializeAofTask f commands q \<Rightarrow> False
      | InstallReplicationStateTask new_id new_offset q \<Rightarrow> \<not> is_master p
      | _ \<Rightarrow> True)"

definition journal_inv :: "processor \<Rightarrow> bool" where
  "journal_inv p \<longleftrightarrow> good p \<and> transactions_plain p \<and> pops_plain p \<and> list_all (admissible_task p) (tasks p)"

lemma process_calm:
  assumes "process u p = Some p'" "good p" "admissible_task p u" "\<And>t. u \<noteq> CommandTask t"
  shows "calm p p'"
proof (cases u)
  case (CommandTask t)
  with assms(4) show ?thesis by blast
next
  case (UnregisterClientTask client q)
  with assms(1) show ?thesis
    by (intro calm_same [OF _ _ _ _ _ assms(2)])
      (auto simp: process_def process_client_unregistration_def cancel_pending_commands_def Let_def split: option.splits)
qed (use assms(1,3) in \<open>auto intro!: calm_same [OF _ _ _ _ _ assms(2)] simp: admissible_task_def process_def process_replica_registration_def process_replication_state_installation_def
      process_replication_offset_request_def process_replica_acknowledgement_def process_client_registration_def Let_def\<close>)

lemma process_journaled:
  assumes "process u p = Some p'" "good p" "transactions_plain p" "admissible_task p u"
  shows "\<exists>es. journaled es p p'"
proof (cases "\<exists>t. u = CommandTask t")
  case True
  with assms process_task_journaled show ?thesis by (auto simp: process_def admissible_task_def)
next
  case False
  with calm_journaled [OF process_calm [OF assms(1,2,4)] assms(2)] show ?thesis by blast
qed

lemma process_task_pending:
  assumes "process_task t p = Some p'" "x \<in> set (pending_list_pops p')" "x \<notin> set (pending_list_pops p)"
  shows "pop_task x = t \<and> (\<exists>r. parse_blpop (task_command t) = Some (Inr r) \<and> pending_key x = pop_key r)"
  using assms(1)
proof (cases rule: process_task_cases)
  case (refused r p1)
  with bookkeeping_eqs(2) [OF rest_partD(1) [OF refused(1)]] assms(2,3) show ?thesis by simp
next
  case (readonly p1)
  with assms(2,3) show ?thesis by (simp split: option.splits)
next
  case blpop
  have "pending_list_pops (answer_pop t k v q) = pending_list_pops q" for k v q
    using bookkeeping_eqs(2) [OF persist_blocking_pop_frame(1)] by (auto simp: answer_pop_def split: prod.splits sum.splits)
  then have f: "\<And>k v q. pending_list_pops (answer_pop t k v q) = pending_list_pops q" .
  from blpop(2) show ?thesis
    by (cases rule: process_blpop_cases) (use assms(2,3) f in \<open>auto dest!: pop_for_bookkeeping bookkeeping_eqs(2)\<close>)
next
  case xread
  then show ?thesis by (cases rule: process_xread_cases) (use assms(2,3) in \<open>auto dest!: read_for_store(3)\<close>)
next
  case wait
  have "pending_list_pops (append_replication_frame bytes q) = pending_list_pops q" for bytes q
    by (simp add: append_replication_frame_def Let_def)
  then have f: "\<And>bytes q. pending_list_pops (append_replication_frame bytes q) = pending_list_pops q" .
  from wait show ?thesis
    by (cases rule: process_wait_cases) (use assms(2,3) f in \<open>auto simp: count_acknowledged_replicas_state\<close>)
next
  case execute
  from execute(1) show ?thesis
  proof (cases rule: execute_task_stages)
    case (1 p1 response p2 response2 p3 response3 rep per)
    have "bookkeeping p3 = bookkeeping p"
      using process_command_bookkeeping [OF 1(3)] log_direct_write_frame [OF 1(4)] rest_partD(1) [OF deliver_rest [OF 1(5)]]
      by simp
    from bookkeeping_eqs(2) [OF this] 1(6) assms(2,3) show ?thesis by simp
  qed
qed

lemma process_pops_plain:
  assumes "process u p = Some p'" "pops_plain p" "admissible_task p u"
  shows "pops_plain p'"
  unfolding pops_plain_def
proof
  fix x assume x: "x \<in> set (pending_list_pops p')"
  have role: "role (replication p') = role (replication p)" using fixed_partD(3) process_fixed [OF assms(1)] by blast
  have "x \<in> set (pending_list_pops p) \<or> (\<exists>t r. u = CommandTask t \<and> pop_task x = t \<and>
      parse_blpop (task_command t) = Some (Inr r) \<and> pending_key x = pop_key r)"
  proof (cases u)
    case (CommandTask t)
    with process_task_pending [of t p p' x] assms(1) x show ?thesis by (auto simp: process_def)
  next
    case (UnregisterClientTask client q)
    with assms(1) x show ?thesis
      by (auto simp: process_def process_client_unregistration_def cancel_pending_commands_def Let_def split: option.splits)
  qed (use assms(1,3) x in \<open>auto simp: admissible_task_def process_def process_replica_registration_def
      process_replication_state_installation_def process_replication_offset_request_def process_replica_acknowledgement_def
      process_client_registration_def Let_def\<close>)
  then show "admissible p' (pop_task x) \<and> sized [''LPOP'', pending_key x]"
    using assms(2,3) parse_blpop_sized admissible_cong [OF role]
    by (auto simp: pops_plain_def admissible_task_def admissible_def plain_def)
qed

lemma retry_list_pops_subset: "set (snd (retry_list_pops xs p)) \<subseteq> set xs"
proof (induction xs arbitrary: p)
  case (Cons x xs)
  obtain p1 r where pop: "pop_for (pending_key x) p = (p1, r)" by fastforce
  from Cons.IH [of p1] Cons.IH [of "answer_pop (pop_task x) (pending_key x) _ p1"]
    Cons.IH [of "respond (pop_task x) wrong_type_error p1"] pop
  show ?case by (cases r) (auto split: prod.splits)
qed simp

lemma expire_all_pops: "set (pending_list_pops (expire_all p)) \<subseteq> set (pending_list_pops p)"
proof -
  let ?q = "expire_pending_stream_reads (expire_pending_list_pops p)"
  obtain p1 waits where e: "expire_waits (steady_clock (current_env ?q) 0) (pending_waits ?q) ?q = (p1, waits)" by fastforce
  have "pending_list_pops (expire_all p) = pending_list_pops ?q"
    using expire_waits_lists [OF e] e by (simp add: expire_all_def expire_pending_waits_def)
  then show ?thesis by (auto simp: expire_pending_stream_reads_def expire_pending_list_pops_def Let_def)
qed

lemma retry_all_pops: "set (pending_list_pops (retry_all p)) \<subseteq> set (pending_list_pops p)"
proof -
  obtain p1 pops where 1: "retry_list_pops (pending_list_pops p) p = (p1, pops)" by fastforce
  let ?q1 = "p1\<lparr>pending_list_pops := pops\<rparr>"
  obtain p2 reads where 2: "retry_stream_reads (pending_stream_reads ?q1) ?q1 = (p2, reads)" by fastforce
  let ?q2 = "p2\<lparr>pending_stream_reads := reads\<rparr>"
  obtain p3 waits where 3: "retry_waits (pending_waits ?q2) ?q2 = (p3, waits)" by fastforce
  have "pending_list_pops (retry_all p) = pops"
    using 1 2 3 retry_stream_reads_pops [OF 2] retry_waits_lists [OF 3]
    by (simp add: retry_all_def retry_pending_list_pops_def retry_pending_stream_reads_def retry_pending_waits_def)
  with retry_list_pops_subset [of "pending_list_pops p" p] 1 show ?thesis by simp
qed

lemma pops_plain_subset:
  "pops_plain p \<Longrightarrow> set (pending_list_pops p') \<subseteq> set (pending_list_pops p) \<Longrightarrow>
   role (replication p') = role (replication p) \<Longrightarrow> pops_plain p'"
  using admissible_cong [of p' p] by (auto simp: pops_plain_def)

lemma transactions_plain_cong: "transactions p' = transactions p \<Longrightarrow> transactions_plain p' = transactions_plain p"
  by (simp add: transactions_plain_def queued_def)

lemma process_transactions_plain:
  assumes "process u p = Some p'" "transactions_plain p" "admissible_task p u"
  shows "transactions_plain p'"
  unfolding transactions_plain_def
proof (intro allI ballI)
  fix c x assume "x \<in> queued c p'"
  with process_queued [OF assms(1), of c] consider "x \<in> queued c p" | t where "u = CommandTask t" "x = task_command t"
    by blast
  then show "plain x"
    by cases (use assms(2,3) in \<open>auto simp: transactions_plain_def admissible_task_def admissible_def\<close>)
qed

lemma journal_step:
  assumes "processor_step p p'" "journal_inv p" "list_all (admissible_task p') (tasks p')"
  shows "journal_inv p' \<and> (\<exists>es. journaled es p p')"
  using assms(1)
proof cases
  case submission
  then have k: "database p' = database p \<and> outside p' = outside p \<and> replication p' = replication p \<and> aof_log p' = aof_log p \<and>
      replication_backlog p' = replication_backlog p \<and> transactions p' = transactions p \<and> pending_list_pops p' = pending_list_pops p"
    by cases (auto simp: submit_def enqueue_def apply_replication_def install_replication_state_def replication_offset_def
      acknowledge_replica_def register_replica_def load_rdb_entries_def initialize_aof_def register_client_def
      unregister_client_def submit_task_def)
  have c: "calm p p'" using k assms(2) by (intro calm_same) (simp_all add: journal_inv_def)
  from calm_good [OF c] calm_journaled [OF c] transactions_plain_cong [of p' p] pops_plain_subset [of p p'] k assms(2,3)
  show ?thesis by (auto simp: journal_inv_def)
next
  case connection
  then have k: "database p' = database p \<and> outside p' = outside p \<and> replication p' = replication p \<and> aof_log p' = aof_log p \<and>
      replication_backlog p' = replication_backlog p \<and> transactions p' = transactions p \<and> pending_list_pops p' = pending_list_pops p"
    by cases simp_all
  have c: "calm p p'" using k assms(2) by (intro calm_same) (simp_all add: journal_inv_def)
  from calm_good [OF c] calm_journaled [OF c] transactions_plain_cong [of p' p] pops_plain_subset [of p p'] k assms(2,3)
  show ?thesis by (auto simp: journal_inv_def)
next
  case iteration
  then obtain u ts where ts: "tasks p = u # ts" by (cases "tasks p") auto
  from run_iteration_task [OF iteration(2) ts] obtain p1 where
    1: "process u (p\<lparr>tasks := ts\<rparr>) = Some p1" "p' = expire_all (retry_all p1)" "transactions p' = transactions p1" by metis
  let ?q = "p\<lparr>tasks := ts\<rparr>"
  have q: "good ?q" "transactions_plain ?q" "pops_plain ?q" "admissible_task ?q u"
    using assms(2) ts
    by (auto simp: journal_inv_def good_def transactions_plain_def pops_plain_def admissible_task_def admissible_def
        split: processor_task.splits)
  obtain es where es: "journaled es ?q p1" using process_journaled [OF 1(1) q(1,2,4)] by blast
  have p1: "pops_plain p1" "transactions_plain p1"
    using process_pops_plain [OF 1(1) q(3,4)] process_transactions_plain [OF 1(1) q(2,4)] .
  obtain fs where fs: "journaled fs p1 p'" using retry_all_journaled [OF journaled_good [OF es] p1(1)] 1(2) by blast
  have "journaled (es @ fs) p p'" using journaled_trans [OF es fs] by (simp add: journaled_def)
  moreover have "pops_plain p'"
    using pops_plain_subset [OF p1(1)] retry_all_pops [of p1] expire_all_pops [of "retry_all p1"] fs 1(2)
    by (auto simp: journaled_def)
  ultimately show ?thesis
    using assms(3) journaled_good [OF fs] transactions_plain_cong [OF 1(3)] p1(2) by (auto simp: journal_inv_def)
next
  case deadline
  then have p': "p' = expire_all p" by (auto elim: run_iteration_cases)
  have g: "good p" using assms(2) by (simp add: journal_inv_def)
  have c: "calm p p'" using calm_unwritten [OF expire_all_unwritten g] p' by simp
  have "transactions p' = transactions p"
    using quiet_partD(4) [OF expire_all_quiet, of p] p' by (simp add: transaction_part_def)
  from transactions_plain_cong [OF this] pops_plain_subset [of p p'] expire_all_pops [of p] c calm_good [OF c g]
    calm_journaled [OF c g] assms(2,3) p' show ?thesis
    by (auto simp: journal_inv_def calm_def)
qed

end
