(* ===== verification/Processor_Recovery.thy ===== *)
theory Processor_Recovery
  imports Processor_Journal
begin

text \<open>
  The first consumer of the journal: the replay of the append-only file at the start, which reaches the
  contents that the journal stands for.
\<close>

section \<open>Executing a journal\<close>

text \<open>A client that executes a journal: no transaction is open and nothing is watched.\<close>

definition idle_client :: "client_id \<Rightarrow> processor \<Rightarrow> bool" where
  "idle_client client p \<longleftrightarrow> transactions p client = None \<and> watched_keys p client = None"

definition queueing_client :: "client_id \<Rightarrow> command list \<Rightarrow> processor \<Rightarrow> bool" where
  "queueing_client client ws p \<longleftrightarrow>
     transactions p client = Some \<lparr>transaction_commands = ws, has_error = False\<rparr> \<and> watched_keys p client = None"

definition holds :: "store \<Rightarrow> processor \<Rightarrow> bool" where
  "holds s p \<longleftrightarrow> persistent (database p) \<and> stored (database p) = s"

lemma run_effect:
  assumes "effect w s s'" "holds s p"
  shows "\<exists>p' r. run_dispatch w p = Some (p', r) \<and> \<not> response_is_error r \<and> holds s' p'"
proof -
  from assms obtain db' r where d: "dispatch (current_env p) (database p) w = Some (db', r)" "\<not> response_is_error r"
    "persistent db'" "stored db' = s'"
    unfolding effect_def holds_def by blast
  then show ?thesis by (simp add: run_dispatch_def holds_def)
qed

lemma transaction_loop_effects:
  assumes "effects ws s s'" "holds s p"
  shows "\<exists>p' bytes responses'. transaction_loop record_writes ws p bytes0 responses = Some (p', bytes, responses') \<and> holds s' p'"
  using assms
proof (induction ws arbitrary: s p bytes0 responses)
  case (Cons w ws)
  then obtain s1 where s1: "effect w s s1" "effects ws s1 s'" by auto
  obtain p1 r where p1: "run_dispatch w p = Some (p1, r)" "holds s1 p1" using run_effect [OF s1(1) Cons.prems(2)] by blast
  from Cons.IH [OF s1(2) p1(2)] p1(1) show ?case by (auto simp: Let_def)
qed simp

lemma process_multi:
  "transactions p client = None \<Longrightarrow> process_command client [''MULTI''] source p =
     Some (p\<lparr>transactions := (transactions p)(client \<mapsto> \<lparr>transaction_commands = [], has_error = False\<rparr>)\<rparr>, SimpleString ''OK'')"
  by (simp add: process_command_def Let_def)

definition queue_write :: "client_id \<Rightarrow> command list \<Rightarrow> command \<Rightarrow> processor \<Rightarrow> processor" where
  "queue_write client ws w p =
     p\<lparr>transactions := (transactions p)(client \<mapsto> \<lparr>transaction_commands = ws @ [w], has_error = False\<rparr>)\<rparr>"

lemma process_queue_write:
  "is_write_command w \<Longrightarrow> queueing_client client ws p \<Longrightarrow>
   process_command client w source p = Some (queue_write client ws w p, SimpleString ''QUEUED'')"
  by (simp add: process_command_write queueing_client_def queue_write_def)

lemma queue_write_queueing:
  "queueing_client client ws p \<Longrightarrow> queueing_client client (ws @ [w]) (queue_write client ws w p)"
  "holds s (queue_write client ws w p) = holds s p"
  by (simp_all add: queueing_client_def queue_write_def holds_def)

lemma process_exec: "process_command client [''EXEC''] source p = execute_transaction client source p"
  by (simp add: process_command_def Let_def)

lemma process_getack:
  "process_command client [''REPLCONF'', ''GETACK'', ''*''] source p = Some (p, SimpleString ''OK'')"
  by (simp add: process_command_def Let_def)

lemma log_transaction_good:
  assumes "log_transaction client False per bytes responses p = (p', r)" "per \<Longrightarrow> good p"
  shows "r = ResponseArray responses \<and> replication p' = replication p \<and> (good p \<longrightarrow> good p')"
proof (cases "per \<and> bytes \<noteq> []")
  case True
  obtain p1 r1 where l: "append_log (bytes @ serialize_command [''EXEC'']) p = (p1, r1)" by fastforce
  note a = append_log_good [OF l assms(2)]
  from True a have "file_grows (bytes @ serialize_command [''EXEC'']) (aof_log p) (aof_log p1)" by blast
  then have "reliable f" if "aof_log p1 = Some f" for f using that by (auto simp: file_grows_def split: option.splits)
  with True a assms(1) l show ?thesis by (auto simp: log_transaction_def Let_def good_def)
qed (use assms(1) in \<open>auto simp: log_transaction_def Let_def split: if_splits\<close>)

lemma execute_queue:
  assumes "queueing_client client ws p" "ws \<noteq> []" "effects ws s s'" "holds s p" "source \<noteq> CLIENT" "source = AOF \<or> good p"
  shows "\<exists>p' r. execute_transaction client source p = Some (p', r) \<and> \<not> response_is_error r \<and> holds s' p' \<and> idle_client client p' \<and>
    replication p' = replication p \<and> (good p \<longrightarrow> good p')"
proof -
  let ?q = "forget_transaction client p"
  let ?per = "aof_log p \<noteq> None \<and> source \<noteq> AOF"
  have q: "holds s ?q" "idle_client client ?q" "aof_log ?q = aof_log p"
    using assms(4) by (simp_all add: holds_def forget_transaction_def idle_client_def)
  obtain p3 bytes responses where loop: "transaction_loop ?per ws ?q [] [] = Some (p3, bytes, responses)" and h: "holds s' p3"
    using transaction_loop_effects [OF assms(3) q(1), of ?per "[]" "[]"] by blast
  note f = transaction_loop_frame [OF loop]
  obtain p4 r where l: "log_transaction client False ?per bytes responses p3 = (p4, r)" by fastforce
  have x: "execute_transaction client source p = Some (p4, r)"
    using assms(1,2,5) loop l
    by (simp add: execute_transaction_def queueing_client_def check_watched_def Let_def forget_transaction_def)
  have i4: "idle_client client p4" "holds s' p4"
    using log_transaction_frame [OF l [symmetric]] f q(2) h
    by (simp_all add: transaction_part_def idle_client_def holds_def)
  have g: "good p \<Longrightarrow> good p3" using f h by (simp add: good_def holds_def bookkeeping_def forget_transaction_def)
  have p4: "r = ResponseArray responses \<and> replication p4 = replication p3 \<and> (good p3 \<longrightarrow> good p4)"
    by (rule log_transaction_good [OF l]) (use assms(6) g in blast)
  moreover have "replication p3 = replication p" using f by (simp add: replication_part_def forget_transaction_def)
  ultimately show ?thesis using x i4 g by (auto simp: response_is_error_def)
qed

section \<open>The replay of the file\<close>

definition replay_step_aof :: "command \<Rightarrow> processor \<Rightarrow> processor option" where
  "replay_step_aof c p =
     (case process_command aof_client_id c AOF p of
        Some (p', r) \<Rightarrow> if response_is_error r then None else Some p'
      | None \<Rightarrow> None)"

definition replay_ready :: "processor \<Rightarrow> store \<Rightarrow> bool" where
  "replay_ready p s \<longleftrightarrow> holds s p \<and> idle_client aof_client_id p"

definition replay_inside :: "processor \<Rightarrow> command list \<Rightarrow> store \<Rightarrow> bool" where
  "replay_inside p ws s \<longleftrightarrow> holds s p \<and> queueing_client aof_client_id ws p"

interpretation aof_replay: journal_consumer replay_step_aof replay_ready replay_inside
proof
  fix p s w s' assume a: "replay_ready p s" "effect w s s'"
  then have i: "idle_client aof_client_id p" "holds s p" and w: "is_write_command w"
    by (simp_all add: replay_ready_def effect_def)
  from run_effect [OF a(2) i(2)] obtain p' r where
    r: "run_dispatch w p = Some (p', r)" "\<not> response_is_error r" "holds s' p'" by blast
  have "idle_client aof_client_id p'" using i run_dispatch_frame(4) [OF r(1)] by (simp add: idle_client_def transaction_part_def)
  with r i w show "\<exists>p'. replay_step_aof w p = Some p' \<and> replay_ready p' s'"
    by (simp add: replay_step_aof_def process_command_write idle_client_def replay_ready_def)
next
  fix p s assume "replay_ready p s"
  then show "\<exists>p'. replay_step_aof [''MULTI''] p = Some p' \<and> replay_inside p' [] s"
    by (auto simp: replay_ready_def replay_inside_def replay_step_aof_def idle_client_def queueing_client_def process_multi
        response_is_error_def holds_def)
next
  fix p ws s w assume a: "replay_inside p ws s" "is_write_command w"
  then have "replay_step_aof w p = Some (queue_write aof_client_id ws w p)"
    by (simp add: replay_step_aof_def replay_inside_def process_queue_write [of w aof_client_id ws] response_is_error_def)
  with a(1) show "\<exists>p'. replay_step_aof w p = Some p' \<and> replay_inside p' (ws @ [w]) s"
    by (simp add: replay_inside_def queue_write_queueing)
next
  fix p ws s s' assume "replay_inside p ws s" "ws \<noteq> []" "effects ws s s'"
  then show "\<exists>p'. replay_step_aof [''EXEC''] p = Some p' \<and> replay_ready p' s'"
    using execute_queue [of aof_client_id ws p s s' AOF]
    by (auto simp: replay_inside_def replay_step_aof_def process_exec replay_ready_def)
next
  fix p s assume "replay_ready p s"
  then show "\<exists>p'. replay_step_aof [''REPLCONF'', ''GETACK'', ''*''] p = Some p' \<and> replay_ready p' s"
    by (simp add: replay_step_aof_def process_getack response_is_error_def)
qed

lemma replay_commands_consume: "aof_replay.consume cs p = Some p' \<Longrightarrow> replay_commands cs p = Some (p', None)"
proof (induction cs arbitrary: p)
  case (Cons c cs)
  then obtain p1 where p1: "replay_step_aof c p = Some p1" "aof_replay.consume cs p1 = Some p'"
    by (auto simp: Option.bind_eq_Some_conv)
  then obtain r where c: "process_command aof_client_id c AOF p = Some (p1, r)" "\<not> response_is_error r"
    "aof_replay.consume cs p1 = Some p'"
    by (auto simp: replay_step_aof_def split: option.splits if_splits)
  with Cons.IH [OF c(3)] show ?case by (cases r) (auto simp: response_is_error_def)
qed simp

lemma replay_journal:
  assumes "journal_effect es Map.empty s" "replay_ready p Map.empty"
  shows "\<exists>p1 p'. replay_commands (journal_commands es) p = Some (p1, None) \<and> replay_ready p1 s \<and>
    process_aof_initialization f (journal_commands es) q p = Some p' \<and> 
    p' = fulfil q (AofInitialized (Inr ())) ((forget_transaction aof_client_id p1)\<lparr>aof_log := Some f\<rparr>)"
proof -
  from aof_replay.consume_journal [OF assms(2,1)] replay_commands_consume obtain p1 where
    r: "replay_commands (journal_commands es) p = Some (p1, None)" "replay_ready p1 s" by blast
  then show ?thesis by (simp add: process_aof_initialization_def replay_ready_def idle_client_def)
qed

lemma new_processor_ready: "replay_ready (new_processor w distribution master rdb aof password_hash) Map.empty"
  by (simp add: replay_ready_def holds_def idle_client_def new_processor_def)

text \<open>
  The states that a processor with a log can reach, over any number of crashes: it starts with an empty
  log; it makes steps; or it crashes and another process opens the file that it left.
\<close>

inductive logged_reachable :: "processor \<Rightarrow> bool" where
  first: "clock_running w \<Longrightarrow> reliable f \<Longrightarrow> file_bytes f = [] \<Longrightarrow>
    process_aof_initialization f [] q (new_processor w distribution master rdb aof password_hash) = Some p \<Longrightarrow>
    logged_reachable p"
| step: "logged_reachable p \<Longrightarrow> processor_step p p' \<Longrightarrow> list_all (admissible_task p') (tasks p') \<Longrightarrow> logged_reachable p'"
| restart: "logged_reachable p \<Longrightarrow> aof_log p = Some f0 \<Longrightarrow> clock_running w \<Longrightarrow> reliable f \<Longrightarrow>
    file_bytes f = file_bytes f0 \<Longrightarrow> read_commands LogContents f = Inr cs \<Longrightarrow>
    process_aof_initialization f cs q (new_processor w distribution master rdb aof password_hash) = Some p' \<Longrightarrow>
    logged_reachable p'"

definition log_covers :: "processor \<Rightarrow> bool" where
  "log_covers p \<longleftrightarrow> journal_inv p \<and>
     (\<exists>f es. aof_log p = Some f \<and> file_bytes f = journal_bytes es \<and> journal_effect es Map.empty (stored (database p)))"

lemma read_journal:
  assumes "file_bytes f = journal_bytes es" "journal_effect es s s'"
  shows "read_commands LogContents f = Inr (journal_commands es)"
  using assms journal_sized [OF assms(2)]
  by (intro read_commands_log) (simp add: file_log_def journal_bytes_commands)

lemma initialized_covers:
  assumes "journal_effect es Map.empty s" "file_bytes f = journal_bytes es" "reliable f" "clock_running w"
    and "process_aof_initialization f (journal_commands es) q (new_processor w distribution master rdb aof password_hash) = Some p"
  shows "log_covers p"
proof -
  let ?p0 = "new_processor w distribution master rdb aof password_hash"
  from replay_journal [OF assms(1) new_processor_ready, of w distribution master rdb aof password_hash f q] assms(5)
  obtain p1 where 1: "replay_commands (journal_commands es) ?p0 = Some (p1, None)" "replay_ready p1 s"
    and p: "p = fulfil q (AofInitialized (Inr ())) ((forget_transaction aof_client_id p1)\<lparr>aof_log := Some f\<rparr>)" by auto
  have b: "bookkeeping p1 = bookkeeping ?p0" by (rule replay_commands_bookkeeping [OF 1(1)])
  have "outside p1 = w" "tasks p1 = []" "pending_list_pops p1 = []"
    using bookkeeping_eqs [OF b] by (simp_all add: new_processor_def)
  moreover have "queued c p = {}" for c
    using replay_commands_queued [OF 1(1), of c]
    by (cases "c = aof_client_id") (auto simp: p queued_def forget_transaction_def new_processor_def split: option.splits)
  ultimately have "journal_inv p"
    using 1(2) assms(3,4)
    by (simp add: journal_inv_def good_def transactions_plain_def pops_plain_def p replay_ready_def holds_def forget_transaction_def)
  moreover have "aof_log p = Some f" "stored (database p) = s"
    using 1(2) by (simp_all add: p replay_ready_def holds_def forget_transaction_def)
  ultimately show ?thesis using assms(1,2) by (auto simp: log_covers_def)
qed

lemma logged_reachable_covers: "logged_reachable p \<Longrightarrow> log_covers p"
proof (induction rule: logged_reachable.induct)
  case (first w f q distribution master rdb aof password_hash p)
  with initialized_covers [of "[]" Map.empty f] show ?case by simp
next
  case (step p p')
  from step(4) obtain f es where f: "aof_log p = Some f" "file_bytes f = journal_bytes es"
    "journal_effect es Map.empty (stored (database p))" "journal_inv p" by (auto simp: log_covers_def)
  from journal_step [OF step(2) f(4) step(3)] obtain fs where inv: "journal_inv p'" and fs: "journaled fs p p'" by blast
  then obtain f' where f': "aof_log p' = Some f'" "file_bytes f' = journal_bytes (es @ durable fs)"
    using f(1,2) by (auto simp: journaled_def file_grows_def)
  have "journal_effect (es @ durable fs) Map.empty (stored (database p'))"
    using fs f(3) durable_effect by (auto simp: journaled_def journal_effect_append)
  with inv f' show ?case unfolding log_covers_def by blast
next
  case (restart p f0 w f cs q distribution master rdb aof password_hash p')
  from restart(8) restart(2) obtain es where es: "file_bytes f0 = journal_bytes es"
    "journal_effect es Map.empty (stored (database p))" by (auto simp: log_covers_def)
  have "cs = journal_commands es" using read_journal [OF _ es(2), of f] es(1) restart(5,6) by simp
  with initialized_covers [OF es(2) _ restart(4,3)] restart(5,7) es(1) show ?case by simp
qed

text \<open>
  C2: The append-only file restores the store. Let a server with an append-only file run through any
  commands, transactions, blocking commands and crashes (between steps of its worker), as long as no
  command sets an expiration time and the disk takes the writes. Then the file can be read, and a new
  process that replays it reports success and holds exactly the contents that the old process had,
  whatever its clocks and whatever log it continues with.
\<close>

theorem log_restores_store:
  assumes "logged_reachable p"
  shows "\<exists>f cs. aof_log p = Some f \<and> read_commands LogContents f = Inr cs \<and>
    (\<exists>p2. process_aof_initialization f2 cs q (new_processor w distribution master rdb aof password_hash) = Some p2 \<and>
      fulfilled p2 = [(q, AofInitialized (Inr ()))] \<and> aof_log p2 = Some f2 \<and>
      (\<forall>t t2. contents t2 (database p2) = contents t (database p)))"
proof -
  let ?p0 = "new_processor w distribution master rdb aof password_hash"
  from logged_reachable_covers [OF assms] obtain f es where f: "aof_log p = Some f" "file_bytes f = journal_bytes es"
    "journal_effect es Map.empty (stored (database p))" "persistent (database p)"
    by (auto simp: log_covers_def journal_inv_def good_def)
  from replay_journal [OF f(3) new_processor_ready, of w distribution master rdb aof password_hash f2 q] obtain p1 p2 where
    r: "replay_commands (journal_commands es) ?p0 = Some (p1, None)" "replay_ready p1 (stored (database p))"
      "process_aof_initialization f2 (journal_commands es) q ?p0 = Some p2"
      "p2 = fulfil q (AofInitialized (Inr ())) ((forget_transaction aof_client_id p1)\<lparr>aof_log := Some f2\<rparr>)" by blast
  have "persistent (database p2)" "stored (database p2) = stored (database p)"
    using r(2,4) by (simp_all add: replay_ready_def holds_def forget_transaction_def)
  moreover have "fulfilled p1 = []"
    using bookkeeping_eqs(5) [OF replay_commands_bookkeeping [OF r(1)]] by (simp add: new_processor_def)
  ultimately show ?thesis
    using f read_journal [OF f(2,3)] r(3,4) by (auto simp: contents_persistent forget_transaction_def)
qed


definition running_world :: world where
  "running_world = still_world\<lparr>envs := \<lambda>_. still_env\<lparr>system_clock := 1\<rparr>\<rparr>"

definition empty_log :: aof_file where
  "empty_log =
     \<lparr>path = ''appendonly.aof'', policy = NEVER, last_sync = 0, file_bytes = [], write_io = \<lambda>_. Wrote 1000, write_calls = 0,
      sync_io = \<lambda>_. None, sync_calls = 0\<rparr>"

definition logged_start :: processor where
  "logged_start = the (process_aof_initialization empty_log [] 0
     (new_processor running_world (\<lambda>_. 0) None (config_rdb default_config) (config_aof default_config) None))"

definition logged_client :: processor where
  "logged_client = the (run_iteration (fst (register_client 7 0 logged_start)))"

definition logged_set :: processor where
  "logged_set = the (run_iteration (fst (submit 7 [''SET'', ''k'', ''v''] logged_client)))"

lemmas logged_simps = worker_simps process_aof_initialization_def new_processor_def forget_transaction_def fulfil_def
  process_client_registration_def register_client_def named_def is_authenticated_def make_default_acl_user_def Let_def

lemma logged_client_eq:
  "process_aof_initialization empty_log [] 0
     (new_processor running_world (\<lambda>_. 0) None (config_rdb default_config) (config_aof default_config) None) = Some logged_start"
  "run_iteration (fst (register_client 7 0 logged_start)) = Some logged_client"
  "tasks logged_client = []" "tasks logged_start = []"
  by (simp_all add: logged_client_def logged_start_def logged_simps)

lemma logged_client_fields:
  "clients logged_client = [7 \<mapsto> \<lparr>authenticated = True, session_ref = 0\<rparr>]" "client_subscriptions logged_client = Map.empty"
  "transactions logged_client = Map.empty" "aof_log logged_client = Some empty_log" "database logged_client = empty_database"
  "role (replication logged_client) = ROLE_MASTER" "pending_list_pops logged_client = []"
  "outside logged_client = running_world"
  "pending_stream_reads logged_client = []" "pending_waits logged_client = []"
  by (simp_all add: logged_client_def logged_start_def logged_simps)

lemma reliable_empty_log: "reliable empty_log" "clock_running running_world"
  by (simp_all add: reliable_def empty_log_def clock_running_def running_world_def)

lemma logged_set_eq:
  "run_iteration (fst (submit 7 [''SET'', ''k'', ''v''] logged_client)) = Some logged_set"
  "tasks logged_set = []" "contents 0 (database logged_set) ''k'' = Some (StringValue ''v'')"
proof -
  obtain f where f: "append_aof 0 0 (serialize_command [''SET'', ''k'', ''v'']) empty_log = (f, Inr ())"
    using append_aof_reliable [OF reliable_empty_log(1)] by blast
  have "\<exists>p. run_iteration (fst (submit 7 [''SET'', ''k'', ''v''] logged_client)) = Some p \<and> tasks p = [] \<and>
      contents 0 (database p) ''k'' = Some (StringValue ''v'')"
    by (simp add: worker_simps logged_client_eq logged_client_fields named_def is_authenticated_def execute_task_def
        process_command_write is_write_command_iff run_dispatch_def dispatch_def find_command_definition_simps command_handlers_def
        set_command_def db_set_def log_direct_write_def write_modified_database_def response_is_error_def
        normalize_replication_command_def append_log_def f append_client_replication_frame_def append_replication_frame_def
        advance_offset_def deliver_def fulfil_def Let_def contents_def live_def current_env_def running_world_def still_env_def)
  then show "run_iteration (fst (submit 7 [''SET'', ''k'', ''v''] logged_client)) = Some logged_set"
    "tasks logged_set = []" "contents 0 (database logged_set) ''k'' = Some (StringValue ''v'')"
    by (auto simp: logged_set_def)
qed

lemma logged_set_reachable: "logged_reachable logged_set"
proof -
  have 1: "logged_reachable logged_start"
    by (rule logged_reachable.first [OF reliable_empty_log(2,1) _ logged_client_eq(1)]) (simp add: empty_log_def)
  have 2: "logged_reachable (fst (register_client 7 0 logged_start))"
    by (rule logged_reachable.step [OF 1 processor_step.submission [OF submitted.intros(9)
            [of 7 0 _ _ "snd (register_client 7 0 logged_start)"]]])
      (simp_all add: aof_client_id_def register_client_def submit_task_def logged_client_eq admissible_task_def)
  have 3: "logged_reachable logged_client"
    by (rule logged_reachable.step [OF 2 processor_step.iteration [OF _ logged_client_eq(2)]])
      (simp_all add: register_client_def submit_task_def logged_client_eq)
  have 4: "logged_reachable (fst (submit 7 [''SET'', ''k'', ''v''] logged_client))"
    by (rule logged_reachable.step [OF 3 processor_step.submission [OF submitted.intros(1)
            [of 7 "[''SET'', ''k'', ''v'']" _ _ "snd (submit 7 [''SET'', ''k'', ''v''] logged_client)"]]])
      (simp_all add: aof_client_id_def submit_def enqueue_def submit_task_def logged_client_eq admissible_task_def
        admissible_def plain_def sized_def no_expiry_def)
  show ?thesis
    by (rule logged_reachable.step [OF 4 processor_step.iteration [OF _ logged_set_eq(1)]])
      (simp_all add: submit_def enqueue_def submit_task_def logged_set_eq)
qed

theorem log_restores_store_witness:
  "\<exists>cs p. contents 0 (database p) ''k'' = Some (StringValue ''v'') \<and>
     process_aof_initialization empty_log cs 0
       (new_processor still_world (\<lambda>_. 0) None (config_rdb default_config) (config_aof default_config) None) = Some p"
  using log_restores_store [OF logged_set_reachable, of empty_log 0 still_world "\<lambda>_. 0" None "config_rdb default_config"
      "config_aof default_config" None] logged_set_eq(3)
  by metis

end
