(* ===== verification/Processor_Watch.thy ===== *)
theory Processor_Watch
  imports Processor_Store
begin

text \<open>
  Optimistic transactions: \<open>WATCH\<close> records the revisions of keys and \<open>EXEC\<close> compares them. The comparison
  is exact, over everything that the processor may do in between.
\<close>

section \<open>Runs that are short enough\<close>

text \<open>A run of the processor with the keys that it marks as modified, in order.\<close>

inductive marked_run :: "key list \<Rightarrow> processor \<Rightarrow> processor \<Rightarrow> bool" where
  none: "marked_run [] p p"
| step: "marked_run ks p p1 \<Longrightarrow> processor_step p1 p2 \<Longrightarrow> touches js (database p1) (database p2) \<Longrightarrow> marked_run (ks @ js) p p2"

text \<open>Every run is such a run.\<close>

lemma run_marked: "processor_step\<^sup>*\<^sup>* p p' \<Longrightarrow> \<exists>ks. marked_run ks p p'"
proof (induction rule: rtranclp_induct)
  case base
  then show ?case using marked_run.none by blast
next
  case (step y z)
  from tracking.related_step [OF step(2)] obtain js where "touches js (database y) (database z)" by (auto simp: tracked_def)
  with step marked_run.step show ?case by blast
qed

lemma marked_run_touches: "marked_run ks p p' \<Longrightarrow> touches ks (database p) (database p')"
  by (induction rule: marked_run.induct) (auto intro: touches_trans)

section \<open>Recording and comparing\<close>

definition revision_of :: "key \<Rightarrow> database \<Rightarrow> u64" where
  "revision_of k db = (case key_revisions db k of None \<Rightarrow> 0 | Some r \<Rightarrow> r)"

lemma revision_of_changed:
  assumes "revisions_fresh db" "touches ks db db'" "unat (next_revision db) + length ks < 2 ^ 64"
  shows "revision_of k db' \<noteq> revision_of k db \<longleftrightarrow> k \<in> set ks"
proof -
  have "0 < r" if "key_revisions db k = Some r \<or> key_revisions db' k = Some r" for r
    using that assms(1) touches_fresh [OF assms] by (auto simp: revisions_fresh_def)
  then have "revision_of k db' = revision_of k db \<longleftrightarrow> key_revisions db' k = key_revisions db k"
    by (auto simp: revision_of_def split: option.splits)
  with touches_changed_iff [OF assms] show ?thesis by blast
qed

text \<open>Reading a revision removes an expired entry, which is a modification.\<close>

lemma key_revision_effect:
  assumes "key_revision now k db = (db', r)"
  shows "r = revision_of k db'" "db' = db \<or> (touches [k] db db' \<and> (\<exists>e. entries db k = Some e \<and> is_expired now e))"
proof -
  show "r = revision_of k db'" using assms by (auto simp: key_revision_def revision_of_def Let_def)
  have db': "db' = fst (find_active_entry now k db)" using assms by (simp add: key_revision_def Let_def)
  show "db' = db \<or> (touches [k] db db' \<and> (\<exists>e. entries db k = Some e \<and> is_expired now e))"
    by (cases rule: find_active_entry_cases [of db k now]) (simp_all add: db' touches_one)
qed

lemma watch_loop_records:
  assumes "watch_loop ks w p = (p1, w1)" "\<And>k r. w k = Some r \<Longrightarrow> r = revision_of k (database p)"
  shows "(\<forall>k r. w1 k = Some r \<longrightarrow> r = revision_of k (database p1)) \<and> dom w1 = dom w \<union> set ks"
  using assms
proof (induction ks arbitrary: w p)
  case (Cons k ks)
  show ?case
  proof (cases "w k")
    case (Some r)
    with Cons.IH [of w p] Cons.prems show ?thesis by auto
  next
    case None
    obtain db r where r: "key_revision (steady_clock (current_env p) 0) k (database p) = (db, r)" by fastforce
    let ?p = "tick (p\<lparr>database := db\<rparr>)"
    have "revision_of j db = revision_of j (database p)" if "j \<noteq> k" for j
      using key_revision_effect(2) [OF r] that by (auto simp: touches_def revision_of_def)
    with Cons.prems(2) key_revision_effect(1) [OF r] None
    have w: "x = revision_of j (database ?p)" if "(w(k \<mapsto> r)) j = Some x" for j x using that by (auto split: if_splits)
    have l: "watch_loop ks (w(k \<mapsto> r)) ?p = (p1, w1)" using Cons.prems(1) None r by simp
    have "(\<forall>k r. w1 k = Some r \<longrightarrow> r = revision_of k (database p1)) \<and> dom w1 = dom (w(k \<mapsto> r)) \<union> set ks"
      by (rule Cons.IH [OF l w])
    then show ?thesis by simp
  qed
qed auto

lemma watched_key_changed_exact:
  assumes "watched_key_changed w ks p = (p', changed)" "revisions_fresh db" "touches js db (database p)"
    and "unat (next_revision db) + length js + 1 < 2 ^ 64" "\<And>k. k \<in> set ks \<Longrightarrow> w k = Some (revision_of k db)"
  shows "(\<not> changed \<longrightarrow> set ks \<inter> set js = {} \<and> database p' = database p) \<and>
    (changed \<longrightarrow> (\<exists>k \<in> set ks. k \<in> set js \<or> (\<exists>e. entries (database p) k = Some e \<and> expires_at e \<noteq> None)))"
  using assms(1,3,5)
proof (induction ks arbitrary: p)
  case (Cons k ks)
  obtain db1 r where r: "key_revision (steady_clock (current_env p) 0) k (database p) = (db1, r)" by fastforce
  let ?p1 = "tick (p\<lparr>database := db1\<rparr>)"
  from key_revision_effect(2) [OF r] consider "db1 = database p"
    | e where "touches [k] (database p) db1" "entries (database p) k = Some e" "expires_at e \<noteq> None"
    by (auto simp: is_expired_def split: option.splits)
  then show ?case
  proof cases
    case 1
    have "revision_of k db1 \<noteq> revision_of k db \<longleftrightarrow> k \<in> set js"
      using revision_of_changed [OF assms(2), of js db1] Cons.prems(2) assms(4) 1 by simp
    moreover have "w k = Some (revision_of k db)" using Cons.prems(3) by simp
    ultimately have w: "w k \<noteq> Some r \<longleftrightarrow> k \<in> set js" using key_revision_effect(1) [OF r] by auto
    show ?thesis
    proof (cases "k \<in> set js")
      case True
      with w Cons.prems(1) r show ?thesis by (auto simp: Let_def)
    next
      case False
      with w Cons.prems(1) r have "watched_key_changed w ks ?p1 = (p', changed)" by (simp add: Let_def)
      from Cons.IH [OF this] Cons.prems(2,3) 1 False show ?thesis by auto
    qed
  next
    case 2
    have "touches (js @ [k]) db db1" using touches_trans [OF Cons.prems(2) 2(1)] .
    from revision_of_changed [OF assms(2) this, of k] assms(4) have "revision_of k db1 \<noteq> revision_of k db" by simp
    with Cons.prems(3) [of k] key_revision_effect(1) [OF r] have "w k \<noteq> Some r" by simp
    with Cons.prems(1) r 2 show ?thesis by (auto simp: Let_def)
  qed
qed simp


definition watching :: processor where
  "watching = fst (watch 0 [''WATCH'', ''k''] fresh_processor)"

definition transacting :: processor where
  "transacting = the (run_iteration (fst (apply_replication [''MULTI''] 0 watching)))"

lemma watching_fields:
  "watch 0 [''WATCH'', ''k''] fresh_processor = (watching, SimpleString ''OK'')"
  "database watching = empty_database" "watched_keys watching 0 = Some [''k'' \<mapsto> 0]" "outside watching = still_world"
  "transactions watching = Map.empty" "tasks watching = []" "pending_list_pops watching = []"
  "pending_stream_reads watching = []" "pending_waits watching = []" "client_subscriptions watching = Map.empty"
  by (simp_all add: watching_def watch_def fresh_processor_def new_processor_def key_revision_def find_active_entry_def
      empty_database_def Let_def)

lemma transacting_fields:
  "run_iteration (fst (apply_replication [''MULTI''] 0 watching)) = Some transacting"
  "transactions transacting 0 = Some \<lparr>transaction_commands = [], has_error = False\<rparr>"
  "watched_keys transacting 0 = Some [''k'' \<mapsto> 0]" "outside transacting = still_world" "database transacting = empty_database"
proof -
  have "\<exists>p. run_iteration (fst (apply_replication [''MULTI''] 0 watching)) = Some p \<and>
      transactions p 0 = Some \<lparr>transaction_commands = [], has_error = False\<rparr> \<and> watched_keys p 0 = Some [''k'' \<mapsto> 0] \<and>
      outside p = still_world \<and> database p = empty_database"
    by (simp add: worker_simps apply_replication_def watching_fields named_def execute_task_def process_command_def
        log_direct_write_def advance_offset_def deliver_def response_is_error_def is_write_command_iff Let_def)
  then show "run_iteration (fst (apply_replication [''MULTI''] 0 watching)) = Some transacting"
    "transactions transacting 0 = Some \<lparr>transaction_commands = [], has_error = False\<rparr>"
    "watched_keys transacting 0 = Some [''k'' \<mapsto> 0]" "outside transacting = still_world" "database transacting = empty_database"
    by (auto simp: transacting_def)
qed


end
