(* ===== verification/Processor_Pubsub.thy ===== *)
theory Processor_Pubsub
  imports Processor_Promises
begin

text \<open>
  Publish/subscribe: the two tables of subscriptions agree in every reachable state, and a published message
  reaches every subscriber whose connection exists, once.
\<close>

section \<open>The tables\<close>

definition mirrored :: "('k \<rightharpoonup> 'v set) \<Rightarrow> ('v \<rightharpoonup> 'k set) \<Rightarrow> bool" where
  "mirrored m m' \<longleftrightarrow> (\<forall>k v. v \<in> members m k \<longleftrightarrow> k \<in> members m' v)"

definition trimmed :: "('k \<rightharpoonup> 'v set) \<Rightarrow> bool" where
  "trimmed m \<longleftrightarrow> (\<forall>k. m k \<noteq> Some {} \<and> finite (members m k))"

definition tables :: "processor \<Rightarrow> bool" where
  "tables p \<longleftrightarrow> mirrored (channel_subscribers p) (client_subscriptions p) \<and>
     trimmed (channel_subscribers p) \<and> trimmed (client_subscriptions p)"

text \<open>The iteration over a hash table visits every element once.\<close>

definition hash_orders :: "world \<Rightarrow> bool" where
  "hash_orders w \<longleftrightarrow>
     (\<forall>S. finite S \<longrightarrow> set (channel_order w S) = S \<and> distinct (channel_order w S)) \<and>
     (\<forall>S. finite S \<longrightarrow> set (subscriber_order w S) = S \<and> distinct (subscriber_order w S))"

lemma members_simps [simp]:
  "members (m(k \<mapsto> S)) j = (if j = k then S else members m j)"
  "members (m(k := None)) j = (if j = k then {} else members m j)"
  "members (store_set k S m) j = (if j = k then S else members m j)"
  "members Map.empty j = {}"
  by (simp_all add: members_def store_set_def)

lemma members_Some: "m k = Some S \<Longrightarrow> members m k = S"
  and members_None: "m k = None \<Longrightarrow> members m k = {}"
  by (simp_all add: members_def)

lemma trimmed_store_set: "trimmed m \<Longrightarrow> finite S \<Longrightarrow> trimmed (store_set k S m)"
  by (auto simp: trimmed_def store_set_def members_def)

lemma trimmed_insert: "trimmed m \<Longrightarrow> trimmed (m(k \<mapsto> insert x (members m k)))"
  by (auto simp: trimmed_def members_def)

lemma trimmed_erase: "trimmed m \<Longrightarrow> trimmed (m(k := None))"
  by (auto simp: trimmed_def members_def)

lemma trimmed_finite: "trimmed m \<Longrightarrow> finite (members m k)"
  by (simp add: trimmed_def)

definition table_part :: "processor \<Rightarrow> (string \<rightharpoonup> client_id set) \<times> (client_id \<rightharpoonup> string set)" where
  "table_part p = (channel_subscribers p, client_subscriptions p)"

lemma tables_cong: "table_part p' = table_part p \<Longrightarrow> tables p' = tables p"
  by (simp add: tables_def table_part_def)

lemma table_part_client: "client_part p' = client_part p \<Longrightarrow> table_part p' = table_part p"
  by (simp add: table_part_def client_part_def)

lemma table_part_simps [simp]:
  "table_part (fulfil q answer p) = table_part p" "table_part (erase_client client p) = table_part p"
  "table_part (fst (send_frame r session frame p)) = table_part p"
  "table_part (fst (acknowledge r session bytes p)) = table_part p"
  by (auto simp: table_part_def erase_client_def send_frame_def acknowledge_def fulfil_def split: prod.splits sum.splits)

section \<open>Commands\<close>

lemma subscribe_loop_tables: "tables p \<Longrightarrow> tables (fst (subscribe_loop client channels p bytes))"
proof (induction client channels p bytes rule: subscribe_loop.induct)
  case (2 client channel channels p bytes)
  let ?p = "p\<lparr>client_subscriptions := (client_subscriptions p)(client \<mapsto> insert channel (members (client_subscriptions p) client)),
    channel_subscribers := (channel_subscribers p)(channel \<mapsto> insert client (members (channel_subscribers p) channel))\<rparr>"
  have "tables ?p" using "2.prems" by (auto simp: tables_def mirrored_def intro: trimmed_insert)
  with "2.IH" [OF refl] show ?case by (simp add: Let_def)
qed simp

lemma remove_subscription_tables:
  assumes "tables p"
  shows "tables (fst (remove_subscription client channel p))"
proof (cases "client_subscriptions p client")
  case (Some S)
  note t = assms [unfolded tables_def mirrored_def]
  have S: "members (client_subscriptions p) client = S" "finite S"
    using Some t trimmed_finite [of "client_subscriptions p" client] by (simp_all add: members_def)
  show ?thesis
  proof (cases "channel \<in> S")
    case True
    then have "client \<in> members (channel_subscribers p) channel" using t S by blast
    then obtain C where C: "channel_subscribers p channel = Some C" "finite C" "members (channel_subscribers p) channel = C"
      using t trimmed_finite [of "channel_subscribers p" channel] by (auto simp: members_def split: option.splits)
    have "trimmed (store_set channel (C - {client}) (channel_subscribers p))"
      "trimmed (store_set client (S - {channel}) (client_subscriptions p))"
      using t C(2) S(2) by (auto intro: trimmed_store_set)
    with t S True C Some show ?thesis
      by (auto simp: remove_subscription_def Let_def tables_def mirrored_def)
  next
    case False
    then have "S - {channel} = S" "S \<noteq> {}" using t Some by (auto simp: trimmed_def)
    with Some False assms show ?thesis
      by (simp add: remove_subscription_def Let_def tables_def store_set_def fun_upd_idem)
  qed
qed (use assms in \<open>simp add: remove_subscription_def\<close>)

lemma unsubscribe_loop_tables: "tables p \<Longrightarrow> tables (fst (unsubscribe_loop client channels p bytes))"
proof (induction client channels p bytes rule: unsubscribe_loop.induct)
  case (2 client channel channels p bytes)
  obtain p1 n where p1: "remove_subscription client channel p = (p1, n)" by fastforce
  with "2.IH" [OF p1 [symmetric]] remove_subscription_tables [OF "2.prems", of client channel] show ?case by simp
qed simp

text \<open>While a message is published the table of the channel may become empty; it is trimmed at the end.\<close>

definition publishing :: "string \<Rightarrow> processor \<Rightarrow> bool" where
  "publishing channel p \<longleftrightarrow> mirrored (channel_subscribers p) (client_subscriptions p) \<and>
     trimmed ((channel_subscribers p)(channel := None)) \<and> finite (members (channel_subscribers p) channel) \<and>
     trimmed (client_subscriptions p)"

lemma publishing_tables: "tables p \<Longrightarrow> publishing channel p"
  by (auto simp: tables_def publishing_def trimmed_erase trimmed_finite)

lemma publishing_cong: "table_part p' = table_part p \<Longrightarrow> publishing channel p' = publishing channel p"
  by (simp add: publishing_def table_part_def)

lemma publishing_done:
  assumes "publishing channel p"
  shows "tables (p\<lparr>channel_subscribers := store_set channel (members (channel_subscribers p) channel) (channel_subscribers p)\<rparr>)"
proof -
  have "store_set channel S (channel_subscribers p) = store_set channel S ((channel_subscribers p)(channel := None))" for S
    by (simp add: store_set_def)
  with assms show ?thesis
    by (auto simp: publishing_def tables_def mirrored_def intro: trimmed_store_set)
qed

lemma drop_subscriber_publishing:
  assumes "publishing channel p"
  shows "publishing channel (drop_subscriber channel client p)"
proof -
  note t = assms [unfolded publishing_def mirrored_def]
  have upd: "((channel_subscribers p)(channel \<mapsto> X))(channel := None) = (channel_subscribers p)(channel := None)" for X by simp
  show ?thesis
  proof (cases "client_subscriptions p client")
    case None
    then have "client \<notin> members (channel_subscribers p) channel" using t by (auto simp: members_None)
    with None t show ?thesis
      by (auto simp: drop_subscriber_def erase_client_def publishing_def mirrored_def upd Let_def)
  next
    case (Some S)
    then have S: "members (client_subscriptions p) client = S" "finite S"
      using t trimmed_finite [of "client_subscriptions p" client] by (simp_all add: members_def)
    then have "trimmed (store_set client (S - {channel}) (client_subscriptions p))" using t by (auto intro: trimmed_store_set)
    with Some S t show ?thesis
      by (auto simp: drop_subscriber_def erase_client_def publishing_def mirrored_def upd Let_def)
  qed
qed

lemma publish_loop_publishing:
  "publishing channel p \<Longrightarrow> publishing channel (fst (publish_loop channel frame subscribers p n))"
proof (induction channel frame subscribers p n rule: publish_loop.induct)
  case (2 channel frame client subscribers p n)
  show ?case
  proof (cases "lock_session client p")
    case None
    with "2.IH"(1) [OF None drop_subscriber_publishing [OF "2.prems"]] show ?thesis by simp
  next
    case (Some x)
    obtain r session where x: "x = (r, session)" by fastforce
    obtain p1 e where p1: "send_frame r session frame p = (p1, e)" by fastforce
    then have "table_part p1 = table_part p" using table_part_simps(3) [of r session frame p] by simp
    with "2.IH"(2) [OF Some x [symmetric] p1 [symmetric]] "2.prems" publishing_cong [of p1 p] Some x p1 show ?thesis by simp
  qed
qed simp

lemma client_commands_tables:
  assumes "tables p"
  shows "tables (fst (subscribe client command p))" "tables (fst (unsubscribe client command p))"
    "tables (fst (publish command p))"
proof -
  have a: "tables p1 \<Longrightarrow> tables (fst (acknowledge r session bytes p1))" for r session bytes p1
    using tables_cong [of "fst (acknowledge r session bytes p1)" p1] by simp
  have e: "tables (erase_client client p)" using tables_cong [of "erase_client client p" p] assms by simp
  show "tables (fst (subscribe client command p))"
    using subscribe_loop_tables [OF assms, of client "tl command" "[]"] a e assms
    by (auto simp: subscribe_def split: option.splits prod.splits)
  show "tables (fst (unsubscribe client command p))"
    using unsubscribe_loop_tables [OF assms, of client _ "[]"] a e assms
    by (auto simp: unsubscribe_def split: option.splits prod.splits) (metis fst_conv)+
  show "tables (fst (publish command p))"
    using publishing_done [OF publish_loop_publishing [OF publishing_tables [OF assms]]] assms
    by (auto simp: publish_def split: option.splits prod.splits) (metis fst_conv)+
qed

lemma process_command_tables:
  assumes "process_command client command source p = Some (p', r)" "tables p"
  shows "tables p'"
proof -
  have kept: "tables p'" if "client_part p' = client_part p"
    using tables_cong [OF table_part_client [OF that]] assms(2) by simp
  have same: "tables p'" if "table_part p' = table_part p"
    using tables_cong [OF that] assms(2) by simp
  show ?thesis
  proof (cases rule: process_command_cases [of client command source p])
    case subscribe
    with assms client_commands_tables(1) [OF assms(2), of client command] show ?thesis by simp
  next
    case unsubscribe
    with assms client_commands_tables(2) [OF assms(2), of client command] show ?thesis by simp
  next
    case publish
    with assms client_commands_tables(3) [OF assms(2), of command] show ?thesis by simp
  next
    case acl
    with assms same show ?thesis
      by (auto simp: process_acl_command_def acl_setuser_def table_part_def split: sum.splits if_splits)
  next
    case auth
    with assms same show ?thesis
      by (auto simp: authenticate_def Let_def table_part_def split: if_splits option.splits sum.splits)
  next
    case watch
    with assms(1) have "watch client command p = (p', r)" by simp
    from watch_frame [OF this] kept show ?thesis by blast
  next
    case exec
    with assms(1) have "execute_transaction client source p = Some (p', r)" by simp
    from execute_transaction_frame [OF this] kept show ?thesis by blast
  next
    case run
    with assms(1) have "run_dispatch command p = Some (p', r)" by simp
    from kept [OF run_dispatch_frame(2) [OF this]] show ?thesis .
  qed (use assms same in \<open>auto simp: table_part_def forget_transaction_def\<close>)
qed

lemma replay_commands_tables:
  "replay_commands commands p = Some (p', failure) \<Longrightarrow> tables p \<Longrightarrow> tables p'"
proof (induction commands p rule: replay_commands.induct)
  case (2 command commands p)
  from "2.prems"(1) obtain p1 r where cmd: "process_command aof_client_id command AOF p = Some (p1, r)"
    by (auto simp: Option.bind_eq_Some_conv)
  from process_command_tables [OF cmd "2.prems"(2)] "2.IH" [OF cmd refl] "2.prems"(1) cmd
  show ?case by (cases r) simp_all
qed simp

section \<open>Tasks\<close>

lemma process_task_tables:
  assumes "process_task t p = Some p'" "tables p"
  shows "tables p'"
proof -
  have kept: "tables p'" if "client_part p' = client_part p"
    using tables_cong [OF table_part_client [OF that]] assms(2) by simp
  from assms(1) show ?thesis
  proof (cases rule: process_task_cases)
    case (refused r p1)
    then have "table_part p' = table_part p" by (simp add: table_part_def)
    with tables_cong [of p' p] assms(2) show ?thesis by simp
  next
    case (readonly p1)
    with kept show ?thesis by (simp add: client_part_def split: option.splits)
  next
    case blpop
    from blpop(2) have "quiet_part p' = quiet_part p"
      by (cases rule: process_blpop_cases) (auto dest: pop_for_quiet)
    with kept quiet_partD(3) show ?thesis by blast
  next
    case xread
    then have "quiet_part p' = quiet_part p"
      by (cases rule: process_xread_cases) (auto dest: read_for_quiet)
    with kept quiet_partD(3) show ?thesis by blast
  next
    case wait
    then have "client_part p' = client_part p"
      by (cases rule: process_wait_cases)
        (simp_all add: count_acknowledged_replicas_def append_replication_frame_def Let_def client_part_def)
    with kept show ?thesis by blast
  next
    case execute
    from execute(1) show ?thesis
    proof (cases rule: execute_task_stages)
      case (1 p1 response p2 response2 p3 response3 rep per)
      have p1: "tables p1" using process_command_tables [OF 1(3) assms(2)] .
      have "table_part (advance_offset t response p2) = table_part p1"
        using log_direct_write_frame [OF 1(4)] by (simp add: advance_offset_def client_part_def table_part_def)
      moreover have "table_part (fst (queue_response c m q)) = table_part q" for c m q
        by (auto simp: table_part_def queue_response_def enqueue_pubsub_response_def send_frame_def erase_client_def
            split: prod.splits sum.splits option.splits)
      ultimately have "table_part p3 = table_part p1"
        using 1(5) by (auto simp: deliver_def split: if_splits) (metis fst_conv)
      then have "table_part p' = table_part p1" using 1(6) by (simp add: table_part_def)
      with tables_cong [of p' p1] p1 show ?thesis by simp
    qed
  qed
qed

lemma leave_channels_members:
  "members (leave_channels client channels m) k = (if k \<in> set channels then members m k - {client} else members m k)"
  by (induction client channels m rule: leave_channels.induct) (auto simp: members_None members_Some split: option.splits)

lemma leave_channels_trimmed: "trimmed m \<Longrightarrow> trimmed (leave_channels client channels m)"
proof (induction client channels m rule: leave_channels.induct)
  case (2 client channel channels m)
  then show ?case using trimmed_finite [of m channel] trimmed_store_set [of m]
    by (cases "m channel") (simp_all add: members_Some)
qed simp

lemma unregistration_tables:
  assumes "tables p" "hash_orders (outside p)"
  shows "tables (process_client_unregistration client q p)"
    "client_subscriptions (process_client_unregistration client q p) = (client_subscriptions p)(client := None)"
    "client \<notin> members (channel_subscribers (process_client_unregistration client q p)) channel"
proof -
  note t = assms(1) [unfolded tables_def mirrored_def]
  let ?p = "process_client_unregistration client q p"
  have subs: "client_subscriptions ?p = (client_subscriptions p)(client := None)"
    by (simp add: process_client_unregistration_def cancel_pending_commands_def Let_def fun_upd_idem split: option.splits)
  show "client_subscriptions ?p = (client_subscriptions p)(client := None)" by (rule subs)
  have "channel_subscribers ?p = leave_channels client
      (channel_order (outside p) (members (client_subscriptions p) client)) (channel_subscribers p)"
    if "members (client_subscriptions p) client \<noteq> {}"
    using that by (simp add: process_client_unregistration_def cancel_pending_commands_def Let_def members_def split: option.splits)
  moreover have "channel_subscribers ?p = channel_subscribers p" if "members (client_subscriptions p) client = {}"
    using that t by (auto simp: process_client_unregistration_def cancel_pending_commands_def Let_def members_def trimmed_def
        split: option.splits)
  moreover have "set (channel_order (outside p) (members (client_subscriptions p) client)) = members (client_subscriptions p) client"
    using assms(2) t trimmed_finite [of "client_subscriptions p" client] by (simp add: hash_orders_def)
  ultimately have members: "members (channel_subscribers ?p) k = members (channel_subscribers p) k - {client}"
    and trimmed: "trimmed (channel_subscribers ?p)" for k
    using t leave_channels_trimmed [of "channel_subscribers p" client]
    by (cases "members (client_subscriptions p) client = {}"; auto simp: leave_channels_members)+
  show "client \<notin> members (channel_subscribers ?p) channel" by (simp add: members)
  show "tables ?p" using members trimmed subs t by (auto simp: tables_def mirrored_def trimmed_erase)
qed

lemma process_tables:
  assumes "process t p = Some p'" "tables p" "hash_orders (outside p)"
  shows "tables p'"
proof -
  have same: "tables p'" if "table_part p' = table_part p"
    using tables_cong [OF that] assms(2) by simp
  show ?thesis
  proof (cases t)
    case (CommandTask u)
    with assms process_task_tables show ?thesis by (simp add: process_def)
  next
    case (LoadRdbTask es q)
    with assms(1) same show ?thesis
      by (auto simp: process_def process_rdb_load_def Option.bind_eq_Some_conv table_part_def)
  next
    case (InitializeAofTask f commands q)
    with assms(1) obtain p1 failure where c: "replay_commands commands p = Some (p1, failure)" and "table_part p' = table_part p1"
      by (auto simp: process_def process_aof_initialization_def Option.bind_eq_Some_conv forget_transaction_def table_part_def
          split: option.splits if_splits)
    with replay_commands_tables [OF c assms(2)] tables_cong [of p' p1] show ?thesis by simp
  next
    case (UnregisterClientTask client q)
    with assms unregistration_tables(1) show ?thesis by (auto simp: process_def)
  qed (use assms(1) same in \<open>auto simp: process_def process_replica_registration_def process_client_registration_def
      process_replication_state_installation_def process_replication_offset_request_def process_replica_acknowledgement_def
      Let_def table_part_def\<close>)
qed

lemma run_iteration_tables:
  assumes "run_iteration p = Some p'" "tables p" "hash_orders (outside p)"
  shows "tables p'"
  using assms(1)
proof (cases rule: run_iteration_cases)
  case idle
  with tables_cong [OF table_part_client [OF quiet_partD(3) [OF expire_all_quiet]]] assms(2) show ?thesis by simp
next
  case (task t ts p1)
  have "tables (p\<lparr>tasks := ts\<rparr>)" using assms(2) tables_cong [of "p\<lparr>tasks := ts\<rparr>" p] by (simp add: table_part_def)
  with process_tables [OF task(2)] assms(3) have "tables p1" by simp
  moreover have "quiet_part (expire_all (retry_all p1)) = quiet_part p1" by simp
  ultimately show ?thesis using task(3) tables_cong [OF table_part_client [OF quiet_partD(3)], of p' p1] by simp
qed

lemma processor_reachable_tables:
  assumes "processor_reachable p" "hash_orders (outside p)"
  shows "tables p"
  using assms
proof (induction rule: processor_reachable.induct)
  case (start w distribution master rdb aof password_hash)
  show ?case by (simp add: tables_def mirrored_def trimmed_def new_processor_def)
next
  case (step p p')
  from step(2) show ?case
  proof cases
    case submission
    then have "table_part p' = table_part p" "outside p' = outside p"
      by (auto elim!: submitted.cases simp: submit_def apply_replication_def install_replication_state_def replication_offset_def acknowledge_replica_def
        register_replica_def load_rdb_entries_def initialize_aof_def register_client_def unregister_client_def enqueue_def
        submit_task_def table_part_def)
    with step tables_cong [of p' p] show ?thesis by simp
  next
    case connection
    then have "table_part p' = table_part p" "outside p' = outside p"
      by (auto elim!: connection_step.cases simp: table_part_def)
    with step tables_cong [of p' p] show ?thesis by simp
  next
    case iteration
    with step run_iteration_tables [of p p'] run_iteration_fixed [of p p'] show ?thesis by (simp add: fixed_part_def)
  next
    case deadline
    with step run_iteration_tables [of p p'] run_iteration_fixed [of p p'] show ?thesis by (simp add: fixed_part_def)
  qed
qed

text \<open>
  C38: The two tables of subscriptions are each other's converse. In every state the processor can reach,
  whatever its clients do and whatever the order in which the hash tables are walked, a client is among
  the subscribers of a channel exactly if the channel is among the subscriptions of the client, and
  neither table keeps an empty set: a channel without subscribers and a client without subscriptions have
  no entry, so that a client without an entry is not in subscribed mode.
\<close>

theorem subscription_tables_agree:
  assumes "processor_reachable p" "hash_orders (outside p)"
  shows "(client \<in> members (channel_subscribers p) channel \<longleftrightarrow> channel \<in> members (client_subscriptions p) client) \<and>
    channel_subscribers p channel \<noteq> Some {} \<and> client_subscriptions p client \<noteq> Some {}"
  using processor_reachable_tables [OF assms] by (simp_all add: tables_def mirrored_def trimmed_def)

section \<open>Publishing\<close>

definition accepts :: "pubsub_session \<Rightarrow> bool" where
  "accepts s \<longleftrightarrow> pending_frames s \<noteq> [] \<or> (\<forall>msg. io s (writes s) \<noteq> WriteFailed msg)"

lemma session_enqueue_accepts:
  "snd (session_enqueue frame s) = Inr () \<longleftrightarrow> accepts s"
  "pending_frames (fst (session_enqueue frame s)) = pending_frames s @ (if accepts s then [frame] else [])"
  by (auto simp: session_enqueue_def accepts_def Let_def split: write_outcome.splits)

text \<open>The clients of a channel that are registered and whose connection exists.\<close>

definition reachable_subscribers :: "string \<Rightarrow> processor \<Rightarrow> client_id set" where
  "reachable_subscribers channel p = {c \<in> members (channel_subscribers p) channel. lock_session c p \<noteq> None}"

definition own_sessions :: "processor \<Rightarrow> bool" where
  "own_sessions p \<longleftrightarrow> (\<forall>c d x y. clients p c = Some x \<longrightarrow> clients p d = Some y \<longrightarrow> session_ref x = session_ref y \<longrightarrow> c = d)"

lemma lock_session_Some:
  "lock_session c p = Some (r, s) \<longleftrightarrow> (\<exists>x. clients p c = Some x \<and> session_ref x = r \<and> pubsub_heap p r = Some s)"
  by (auto simp: lock_session_def Option.bind_eq_Some_conv)

lemma lock_session_None:
  "lock_session c p = None \<longleftrightarrow> (\<forall>x. clients p c = Some x \<longrightarrow> pubsub_heap p (session_ref x) = None)"
  by (cases "clients p c") (simp_all add: lock_session_def split: bind_splits)

lemma drop_subscriber_fields:
  "clients (drop_subscriber channel c p) = (clients p)(c := None)"
  "pubsub_heap (drop_subscriber channel c p) = pubsub_heap p"
  "members (channel_subscribers (drop_subscriber channel c p)) k =
     (if k = channel then members (channel_subscribers p) k - {c} else members (channel_subscribers p) k)"
  by (auto simp: drop_subscriber_def erase_client_def Let_def split: option.splits)

text \<open>What the loop over the subscribers does, one effect at a time.\<close>

definition publish_effect :: "string \<Rightarrow> string \<Rightarrow> client_id list \<Rightarrow> processor \<Rightarrow> processor \<Rightarrow> bool" where
  "publish_effect channel frame cs p p' \<longleftrightarrow>
     clients p' = (\<lambda>c. if c \<in> set cs \<and> lock_session c p = None then None else clients p c) \<and>
     pubsub_heap p' = (\<lambda>r. if \<exists>c \<in> set cs. \<exists>x. clients p c = Some x \<and> session_ref x = r
       then map_option (\<lambda>s. fst (session_enqueue frame s)) (pubsub_heap p r) else pubsub_heap p r) \<and>
     (\<forall>k. members (channel_subscribers p') k =
       (if k = channel then members (channel_subscribers p) k - {c \<in> set cs. lock_session c p = None}
        else members (channel_subscribers p) k))"

definition recipients_of :: "client_id list \<Rightarrow> processor \<Rightarrow> client_id set" where
  "recipients_of cs p = {c \<in> set cs. \<exists>r s. lock_session c p = Some (r, s) \<and> accepts s}"

lemma publish_effect_drop:
  assumes "publish_effect channel frame cs (drop_subscriber channel c p) p'" "lock_session c p = None" "c \<notin> set cs"
  shows "publish_effect channel frame (c # cs) p p'"
    and "recipients_of (c # cs) p = recipients_of cs (drop_subscriber channel c p)"
proof -
  let ?p = "drop_subscriber channel c p"
  have lock: "lock_session d ?p = lock_session d p" if "d \<noteq> c" for d
    using that by (simp add: lock_session_def drop_subscriber_fields)
  have locks: "lock_session d ?p = lock_session d p" if "d \<in> set cs" for d
    using that assms(3) by (intro lock) blast
  have lockc: "{d \<in> set cs. lock_session d ?p = None} = {d \<in> set cs. lock_session d p = None}"
    using locks by auto
  have keep: "(\<exists>x. clients ?p d = Some x \<and> session_ref x = r) = (\<exists>x. clients p d = Some x \<and> session_ref x = r)" if "d \<noteq> c" for d r
    using that by (simp add: drop_subscriber_fields)
  have none: "pubsub_heap p r = None" if "clients p c = Some x" "session_ref x = r" for x r
    using assms(2) that by (simp add: lock_session_None)
  show "publish_effect channel frame (c # cs) p p'"
    unfolding publish_effect_def
  proof (intro conjI allI)
    show "clients p' = (\<lambda>d. if d \<in> set (c # cs) \<and> lock_session d p = None then None else clients p d)"
      using assms lock by (auto simp: publish_effect_def drop_subscriber_fields fun_eq_iff)
    show "members (channel_subscribers p') k = (if k = channel
        then members (channel_subscribers p) k - {d \<in> set (c # cs). lock_session d p = None} else members (channel_subscribers p) k)" for k
    proof -
      have "{d \<in> set (c # cs). lock_session d p = None} = insert c {d \<in> set cs. lock_session d ?p = None}"
        using assms(2) lockc by auto
      with assms(1) show ?thesis by (auto simp: publish_effect_def drop_subscriber_fields)
    qed
    have "(\<exists>d \<in> set cs. \<exists>x. clients ?p d = Some x \<and> session_ref x = r) \<longleftrightarrow>
        (\<exists>d \<in> set cs. \<exists>x. clients p d = Some x \<and> session_ref x = r)" for r
      using assms(3) by (intro bex_cong [OF refl] keep) blast
    with assms(1) none show "pubsub_heap p' = (\<lambda>r. if \<exists>d \<in> set (c # cs). \<exists>x. clients p d = Some x \<and> session_ref x = r
        then map_option (\<lambda>s. fst (session_enqueue frame s)) (pubsub_heap p r) else pubsub_heap p r)"
      by (auto simp: publish_effect_def drop_subscriber_fields fun_eq_iff)
  qed
  show "recipients_of (c # cs) p = recipients_of cs ?p"
    using assms(2) locks by (auto simp: recipients_of_def)
qed

lemma publish_effect_send:
  assumes "publish_effect channel frame cs p1 p'" "lock_session c p = Some (r, s)" "c \<notin> set cs" "own_sessions p"
    "send_frame r s frame p = (p1, result)"
  shows "publish_effect channel frame (c # cs) p p'" "own_sessions p1"
    and "recipients_of (c # cs) p = (if result = Inr () then {c} else {}) \<union> recipients_of cs p1"
proof -
  have c: "\<exists>x. clients p c = Some x \<and> session_ref x = r" "pubsub_heap p r = Some s"
    using assms(2) by (auto simp: lock_session_Some)
  have p1: "p1 = p\<lparr>pubsub_heap := (pubsub_heap p)(r \<mapsto> fst (session_enqueue frame s))\<rparr>" "result = snd (session_enqueue frame s)"
    using assms(5) by (simp_all add: send_frame_def split: prod.splits)
  then show "own_sessions p1" using assms(4) by (simp add: own_sessions_def)
  have other: "session_ref x \<noteq> r" if "clients p d = Some x" "d \<in> set cs" for d x
    using that c(1) assms(3,4) unfolding own_sessions_def by metis
  have lock: "lock_session d p1 = lock_session d p" if "d \<in> set cs" for d
    using that other by (cases "clients p d") (simp_all add: lock_session_def p1)
  have here: "\<not> (\<exists>d \<in> set cs. \<exists>x. clients p d = Some x \<and> session_ref x = r)" using other by blast
  show "publish_effect channel frame (c # cs) p p'"
    unfolding publish_effect_def
  proof (intro conjI allI)
    show "clients p' = (\<lambda>d. if d \<in> set (c # cs) \<and> lock_session d p = None then None else clients p d)"
      using assms(1,2) lock by (auto simp: publish_effect_def p1 fun_eq_iff)
    show "members (channel_subscribers p') k = (if k = channel
        then members (channel_subscribers p) k - {d \<in> set (c # cs). lock_session d p = None} else members (channel_subscribers p) k)" for k
      using assms(1,2) lock by (auto simp: publish_effect_def p1)
    show "pubsub_heap p' = (\<lambda>r. if \<exists>d \<in> set (c # cs). \<exists>x. clients p d = Some x \<and> session_ref x = r
        then map_option (\<lambda>s. fst (session_enqueue frame s)) (pubsub_heap p r) else pubsub_heap p r)"
    proof
      fix a
      show "pubsub_heap p' a = (if \<exists>d \<in> set (c # cs). \<exists>x. clients p d = Some x \<and> session_ref x = a
          then map_option (\<lambda>s. fst (session_enqueue frame s)) (pubsub_heap p a) else pubsub_heap p a)"
        using assms(1) c here by (cases "a = r") (auto simp: publish_effect_def p1)
    qed
  qed
  show "recipients_of (c # cs) p = (if result = Inr () then {c} else {}) \<union> recipients_of cs p1"
    using assms(2) lock session_enqueue_accepts(1) [of frame s] by (auto simp: recipients_of_def p1(2))
qed

lemma publish_loop_effect:
  assumes "publish_loop channel frame cs p n = (p', n')" "distinct cs" "own_sessions p"
  shows "publish_effect channel frame cs p p' \<and> n' = n + int (card (recipients_of cs p))"
  using assms
proof (induction channel frame cs p n arbitrary: p' n' rule: publish_loop.induct)
  case (1 channel frame p n)
  then show ?case by (simp add: publish_effect_def recipients_of_def fun_eq_iff)
next
  case (2 channel frame c cs p n)
  show ?case
  proof (cases "lock_session c p")
    case None
    have "own_sessions (drop_subscriber channel c p)"
      using "2.prems"(3) by (simp add: own_sessions_def drop_subscriber_fields)
    with "2.IH"(1) [OF None] None "2.prems" publish_effect_drop [of channel frame cs c p p'] show ?thesis by simp
  next
    case (Some x)
    obtain r s where x: "x = (r, s)" by fastforce
    obtain p1 e where p1: "send_frame r s frame p = (p1, e)" by fastforce
    have "own_sessions p1" using "2.prems"(3) p1 by (auto simp: own_sessions_def send_frame_def split: prod.splits)
    with "2.IH"(2) [OF Some x [symmetric] p1 [symmetric]] "2.prems"(1,2) Some x p1
    have IH: "publish_effect channel frame cs p1 p'" "n' = (if e = Inr () then n + 1 else n) + int (card (recipients_of cs p1))"
      by simp_all
    have "c \<notin> recipients_of cs p1" "finite (recipients_of cs p1)" using "2.prems"(2) by (simp_all add: recipients_of_def)
    with publish_effect_send [OF IH(1) Some [unfolded x] _ "2.prems"(3) p1] "2.prems"(2) IH(2) show ?thesis by simp
  qed
qed

definition session_of :: "client_id \<Rightarrow> processor \<Rightarrow> pubsub_session option" where
  "session_of c p = map_option snd (lock_session c p)"

lemma session_of_eq: "session_of c p = (case clients p c of None \<Rightarrow> None | Some x \<Rightarrow> pubsub_heap p (session_ref x))"
  by (auto simp: session_of_def lock_session_def split: option.splits bind_splits)

lemma publish_effect_sessions:
  assumes "publish_effect channel frame cs p p'" "own_sessions p"
  shows "session_of c p' = (if c \<in> set cs then map_option (\<lambda>s. fst (session_enqueue frame s)) (session_of c p) else session_of c p)"
proof (cases "clients p c")
  case None
  with assms(1) show ?thesis by (simp add: session_of_eq publish_effect_def)
next
  case (Some x)
  have "(\<exists>d \<in> set cs. \<exists>y. clients p d = Some y \<and> session_ref y = session_ref x) \<longleftrightarrow> c \<in> set cs"
    using Some assms(2) unfolding own_sessions_def by metis
  with Some assms(1) show ?thesis
    by (cases "pubsub_heap p (session_ref x)") (auto simp: session_of_eq publish_effect_def lock_session_None)
qed

lemma reachable_subscribers_session: "reachable_subscribers channel p = {c \<in> members (channel_subscribers p) channel. session_of c p \<noteq> None}"
  by (auto simp: reachable_subscribers_def session_of_def)

text \<open>
  C39: A published message reaches every subscriber once. In every reachable state in which no two clients
  share a session, \<open>PUBLISH\<close> appends the message's frame to the pending frames of every subscriber of the
  channel that is registered and whose connection exists, unless waking that connection fails; it leaves
  the sessions of all other clients as they are, forgets exactly the subscribers whose connection is gone,
  changes the subscribers of no other channel, and answers with the number of sessions that took the frame.
\<close>

theorem publish_reaches_subscribers:
  assumes "processor_reachable p" "hash_orders (outside p)" "own_sessions p"
    "publish [name, channel, message] p = (p', r)"
  shows "r = Integer (int (card {c \<in> reachable_subscribers channel p. \<exists>s. session_of c p = Some s \<and> accepts s})) \<and>
    (\<forall>c s. c \<in> members (channel_subscribers p) channel \<longrightarrow> session_of c p = Some s \<longrightarrow>
      (\<exists>s'. session_of c p' = Some s' \<and> pending_frames s' = pending_frames s @
         (if accepts s then [serialize_response (Array [''message'', channel, message])] else []))) \<and>
    (\<forall>c. c \<notin> members (channel_subscribers p) channel \<longrightarrow> session_of c p' = session_of c p) \<and>
    members (channel_subscribers p') channel = reachable_subscribers channel p \<and>
    (\<forall>k. k \<noteq> channel \<longrightarrow> members (channel_subscribers p') k = members (channel_subscribers p) k)"
proof -
  note tables = processor_reachable_tables [OF assms(1,2), unfolded tables_def]
  let ?frame = "serialize_response (Array [''message'', channel, message])"
  show ?thesis
  proof (cases "channel_subscribers p channel")
    case None
    with assms(4) show ?thesis by (auto simp: publish_def members_None reachable_subscribers_def)
  next
    case (Some S)
    let ?cs = "subscriber_order (outside p) S"
    have S: "members (channel_subscribers p) channel = S" using Some by (rule members_Some)
    moreover have "finite S" using tables trimmed_finite [of "channel_subscribers p" channel] S by simp
    ultimately have cs: "set ?cs = S" "distinct ?cs" using assms(2) by (simp_all add: hash_orders_def)
    obtain p1 n where loop: "publish_loop channel ?frame ?cs p 0 = (p1, n)" by fastforce
    from publish_loop_effect [OF loop cs(2) assms(3)]
    have e: "publish_effect channel ?frame ?cs p p1" and n: "n = int (card (recipients_of ?cs p))" by simp_all
    have p': "p' = p1\<lparr>channel_subscribers := store_set channel (members (channel_subscribers p1) channel) (channel_subscribers p1)\<rparr>"
      and r: "r = Integer n" using assms(4) Some loop by (simp_all add: publish_def)
    have sessions: "session_of c p' = session_of c p1" for c by (simp add: session_of_eq p' split: option.splits)
    have "recipients_of ?cs p = {c \<in> reachable_subscribers channel p. \<exists>s. session_of c p = Some s \<and> accepts s}"
      using cs(1) S by (auto simp: recipients_of_def reachable_subscribers_def session_of_def)
    moreover have "members (channel_subscribers p') k =
        (if k = channel then reachable_subscribers channel p else members (channel_subscribers p) k)" for k
      using e cs(1) S by (auto simp: publish_effect_def p' reachable_subscribers_def)
    ultimately show ?thesis
      using r n cs(1) S by (auto simp: sessions publish_effect_sessions [OF e assms(3)] session_enqueue_accepts(2))
  qed
qed

text \<open>A processor with one client, which has subscribed to a channel.\<close>

definition session_opened :: processor where
  "session_opened = fresh_processor\<lparr>pubsub_heap := (pubsub_heap fresh_processor)(0 \<mapsto> new_session (\<lambda>_. Written))\<rparr>"

definition client_registered :: processor where
  "client_registered = the (run_iteration (fst (register_client 7 0 session_opened)))"

definition client_subscribed :: processor where
  "client_subscribed = the (run_iteration (fst (submit 7 [''SUBSCRIBE'', ''news''] client_registered)))"

lemma client_registered_fields:
  "run_iteration (fst (register_client 7 0 session_opened)) = Some client_registered"
  "outside client_registered = still_world" "clients client_registered = [7 \<mapsto> \<lparr>authenticated = True, session_ref = 0\<rparr>]"
  "pubsub_heap client_registered = [0 \<mapsto> new_session (\<lambda>_. Written)]" "client_subscriptions client_registered = Map.empty"
  "channel_subscribers client_registered = Map.empty" "tasks client_registered = []" "transactions client_registered = Map.empty"
  "pending_list_pops client_registered = []" "pending_stream_reads client_registered = []" "pending_waits client_registered = []"
  "role (replication client_registered) = ROLE_MASTER"
  by (simp_all add: client_registered_def session_opened_def worker_simps register_client_def process_client_registration_def
      fresh_processor_def new_processor_def make_default_acl_user_def Let_def)

lemma client_subscribed_fields:
  "run_iteration (fst (submit 7 [''SUBSCRIBE'', ''news''] client_registered)) = Some client_subscribed"
  "outside client_subscribed = still_world" "clients client_subscribed = [7 \<mapsto> \<lparr>authenticated = True, session_ref = 0\<rparr>]"
  "\<exists>s. pubsub_heap client_subscribed 0 = Some s \<and> pending_frames s \<noteq> []"
  "channel_subscribers client_subscribed = [''news'' \<mapsto> {7}]"
proof -
  have "\<exists>p. run_iteration (fst (submit 7 [''SUBSCRIBE'', ''news''] client_registered)) = Some p \<and> outside p = still_world \<and>
      clients p = [7 \<mapsto> \<lparr>authenticated = True, session_ref = 0\<rparr>] \<and>
      (\<exists>s. pubsub_heap p 0 = Some s \<and> pending_frames s \<noteq> []) \<and> channel_subscribers p = [''news'' \<mapsto> {7}]"
    by (simp add: worker_simps client_registered_fields named_def is_authenticated_def execute_task_def process_command_def
        subscribe_def lock_session_def acknowledge_def send_frame_def session_enqueue_def new_session_def members_def
        log_direct_write_def advance_offset_def deliver_def response_is_error_def is_write_command_iff Let_def)
  then show "run_iteration (fst (submit 7 [''SUBSCRIBE'', ''news''] client_registered)) = Some client_subscribed"
    "outside client_subscribed = still_world" "clients client_subscribed = [7 \<mapsto> \<lparr>authenticated = True, session_ref = 0\<rparr>]"
    "\<exists>s. pubsub_heap client_subscribed 0 = Some s \<and> pending_frames s \<noteq> []"
    "channel_subscribers client_subscribed = [''news'' \<mapsto> {7}]"
    by (auto simp: client_subscribed_def)
qed

lemma client_subscribed_reachable: "processor_reachable client_subscribed"
proof -
  have ids: "(7 :: client_id) \<noteq> 0" "(7 :: client_id) \<noteq> aof_client_id" by (simp_all add: aof_client_id_def)
  have o: "processor_reachable session_opened"
    unfolding session_opened_def
    by (rule processor_reachable.step [OF fresh_processor_reachable processor_step.connection [OF connection_step.open_session]])
      (simp add: fresh_processor_def new_processor_def)
  have r: "submitted session_opened (fst (register_client 7 0 session_opened))"
    by (rule submitted.intros(9) [OF prod.collapse [symmetric] ids])
  have c: "processor_reachable client_registered"
    by (rule processor_reachable.step [OF processor_reachable.step [OF o processor_step.submission [OF r]]
          processor_step.iteration [OF _ client_registered_fields(1)]]) (simp add: register_client_def submit_task_def)
  have s: "submitted client_registered (fst (submit 7 [''SUBSCRIBE'', ''news''] client_registered))"
    by (rule submitted.intros(1) [OF prod.collapse [symmetric] ids])
  show ?thesis
    by (rule processor_reachable.step [OF processor_reachable.step [OF c processor_step.submission [OF s]]
          processor_step.iteration [OF _ client_subscribed_fields(1)]]) (simp add: submit_def enqueue_def submit_task_def)
qed

lemma still_world_orders: "hash_orders still_world"
  by (simp add: hash_orders_def still_world_def)

theorem subscription_tables_agree_witness:
  "''news'' \<in> members (client_subscriptions client_subscribed) 7"
proof -
  have "hash_orders (outside client_subscribed)" using still_world_orders by (simp add: client_subscribed_fields)
  from subscription_tables_agree [OF client_subscribed_reachable this, of 7 "''news''"] show ?thesis
    by (simp add: client_subscribed_fields members_def)
qed

theorem publish_reaches_subscribers_witness:
  "\<exists>s s'. snd (publish [''PUBLISH'', ''news'', ''hi''] client_subscribed) = Integer 1 \<and>
     session_of 7 client_subscribed = Some s \<and>
     session_of 7 (fst (publish [''PUBLISH'', ''news'', ''hi''] client_subscribed)) = Some s' \<and>
     pending_frames s' = pending_frames s @ [serialize_response (Array [''message'', ''news'', ''hi''])]"
proof -
  let ?p = "publish [''PUBLISH'', ''news'', ''hi''] client_subscribed"
  have "hash_orders (outside client_subscribed)" using still_world_orders by (simp add: client_subscribed_fields)
  moreover have "own_sessions client_subscribed" by (simp add: own_sessions_def client_subscribed_fields)
  ultimately have d: "snd ?p = Integer (int (card {c \<in> reachable_subscribers ''news'' client_subscribed.
      \<exists>s. session_of c client_subscribed = Some s \<and> accepts s}))"
    "\<And>c s. c \<in> members (channel_subscribers client_subscribed) ''news'' \<Longrightarrow> session_of c client_subscribed = Some s \<Longrightarrow>
      \<exists>s'. session_of c (fst ?p) = Some s' \<and> pending_frames s' = pending_frames s @
        (if accepts s then [serialize_response (Array [''message'', ''news'', ''hi''])] else [])"
    using publish_reaches_subscribers [OF client_subscribed_reachable _ _ prod.collapse [symmetric],
        of "''PUBLISH''" "''news''" "''hi''"] by blast+
  obtain s where s: "pubsub_heap client_subscribed 0 = Some s" "pending_frames s \<noteq> []"
    using client_subscribed_fields(4) by blast
  have of7: "session_of 7 client_subscribed = Some s" using s by (simp add: session_of_eq client_subscribed_fields)
  have "{c \<in> reachable_subscribers ''news'' client_subscribed. \<exists>s. session_of c client_subscribed = Some s \<and> accepts s} = {7}"
    using of7 s by (auto simp: reachable_subscribers_session client_subscribed_fields members_def accepts_def)
  with d(1) d(2) [of 7 s] of7 s show ?thesis by (auto simp: client_subscribed_fields members_def accepts_def)
qed

end
