(* ===== verification/Sockets.thy ===== *)
theory Sockets
  imports Processor_State
begin

text \<open>
  The socket operations of the server (\<open>server.cpp\<close>) and the conversations that a replica has with its
  master before the stream starts: the handshake, the answer to \<open>PSYNC\<close> and the snapshot.

  The operating system is outside of the program. A connection carries the results of its next calls of
  \<open>recv\<close> and \<open>send\<close> as lists; behind the last result a call waits. A result of the model is
  therefore optional: \<^const>\<open>None\<close> says that the thread waits inside of the function, in the state
  that is returned. What the code takes from a stop token is a function of the number of the check.
\<close>

section \<open>Calls\<close>

text \<open>
  A call of \<open>recv\<close> takes bytes (none at the end of the stream), is interrupted, or fails. The buffer has
  1024 bytes, so a chunk is not larger; nothing here depends on that.
\<close>

datatype recv_result = Received string | RecvInterrupted | RecvError

text \<open>A call of \<open>send\<close> takes a number of bytes, is interrupted, or fails with a message.\<close>

datatype send_result = Sent nat | SendInterrupted | SendError string

record connection =
  recv_results :: "recv_result list"
  send_results :: "send_result list"
  sent :: string
  input_buffer :: string
  stop_requests :: "nat \<Rightarrow> bool"
  stop_checks :: nat

definition new_connection :: "recv_result list \<Rightarrow> send_result list \<Rightarrow> (nat \<Rightarrow> bool) \<Rightarrow> connection" where
  "new_connection rs ss stops =
     \<lparr>recv_results = rs, send_results = ss, sent = [], input_buffer = [], stop_requests = stops, stop_checks = 0\<rparr>"

definition stop_requested :: "connection \<Rightarrow> connection \<times> bool" where
  "stop_requested c = (c\<lparr>stop_checks := Suc (stop_checks c)\<rparr>, stop_requests c (stop_checks c))"

text \<open>An operation on a connection waits, fails with a message, or returns a value.\<close>

type_synonym 'a io = "connection \<Rightarrow> connection \<times> (string + 'a) option"

definition return_io :: "'a \<Rightarrow> 'a io" where
  "return_io x c = (c, Some (Inr x))"

definition fail :: "string \<Rightarrow> 'a io" where
  "fail e c = (c, Some (Inl e))"

definition and_then :: "'a io \<Rightarrow> ('a \<Rightarrow> 'b io) \<Rightarrow> 'b io" where
  "and_then m f c =
     (case m c of
        (c1, None) \<Rightarrow> (c1, None)
      | (c1, Some (Inl e)) \<Rightarrow> (c1, Some (Inl e))
      | (c1, Some (Inr x)) \<Rightarrow> f x c1)"

section \<open>Sending\<close>

fun send_loop :: "string \<Rightarrow> send_result list \<Rightarrow> string \<times> send_result list \<times> (string + unit) option" where
  "send_loop [] rs = ([], rs, Some (Inr ()))"
| "send_loop bytes [] = ([], [], None)"
| "send_loop bytes (SendInterrupted # rs) = send_loop bytes rs"
| "send_loop bytes (SendError msg # rs) = ([], rs, Some (Inl (''Failed to send socket data: '' @ msg)))"
| "send_loop bytes (Sent n # rs) =
     (if n = 0 then ([], rs, Some (Inl ''Connection closed while sending socket data''))
      else (case send_loop (drop n bytes) rs of (out, rs', r) \<Rightarrow> (take n bytes @ out, rs', r)))"

definition send_bytes :: "string \<Rightarrow> unit io" where
  "send_bytes bytes c =
     (case send_loop bytes (send_results c) of
        (out, rs, r) \<Rightarrow> (c\<lparr>sent := sent c @ out, send_results := rs\<rparr>, r))"

definition send_command :: "command \<Rightarrow> unit io" where
  "send_command command = send_bytes (serialize_command command)"

text \<open>The snapshot of an empty store.\<close>

definition empty_rdb_payload :: string where
  "empty_rdb_payload = ''REDIS0011'' @ [CHR 0xFF] @ replicate 8 (CHR 0x00)"

definition send_full_resync :: "replica_registration \<Rightarrow> unit io" where
  "send_full_resync registration =
     and_then
       (send_bytes (''+FULLRESYNC '' @ registration_id registration @ '' '' @
          dec_of_nat (unat (registration_offset registration)) @ crlf)) (\<lambda>_.
     and_then (send_bytes (''$'' @ dec_of_nat (length empty_rdb_payload) @ crlf)) (\<lambda>_.
     send_bytes empty_rdb_payload))"

section \<open>Receiving\<close>

text \<open>
  The loop that several functions share: receive until the buffer is complete, with the messages for a failed
  call and for the end of the stream.
\<close>

fun receive_until ::
  "(string \<Rightarrow> bool) \<Rightarrow> string \<Rightarrow> string \<Rightarrow> string \<Rightarrow> recv_result list \<Rightarrow> string \<times> recv_result list \<times> (string + unit) option" where
  "receive_until enough failed ended buffer [] =
     (buffer, [], if enough buffer then Some (Inr ()) else None)"
| "receive_until enough failed ended buffer (r # rs) =
     (if enough buffer then (buffer, r # rs, Some (Inr ()))
      else
        (case r of
           RecvInterrupted \<Rightarrow> receive_until enough failed ended buffer rs
         | RecvError \<Rightarrow> (buffer, rs, Some (Inl failed))
         | Received bytes \<Rightarrow>
             if bytes = [] then (buffer, rs, Some (Inl ended))
             else receive_until enough failed ended (buffer @ bytes) rs))"

definition receive :: "(string \<Rightarrow> bool) \<Rightarrow> string \<Rightarrow> string \<Rightarrow> unit io" where
  "receive enough failed ended c =
     (case receive_until enough failed ended (input_buffer c) (recv_results c) of
        (buffer, rs, r) \<Rightarrow> (c\<lparr>input_buffer := buffer, recv_results := rs\<rparr>, r))"

text \<open>\<open>substr\<close> followed by \<open>erase\<close>: the first bytes are returned, and more may be dropped behind them.\<close>

definition take_input :: "nat \<Rightarrow> nat \<Rightarrow> string io" where
  "take_input n dropped c =
     return_io (take n (input_buffer c)) (c\<lparr>input_buffer := drop (n + dropped) (input_buffer c)\<rparr>)"

definition read_master_response_line :: "string io" where
  "read_master_response_line =
     and_then
       (receive (\<lambda>buffer. find_crlf buffer \<noteq> None) ''Failed to read response from master'' ''Master closed the connection'')
       (\<lambda>_ c. take_input (the (find_crlf (input_buffer c))) 2 c)"

definition send_command_and_expect :: "command \<Rightarrow> string \<Rightarrow> unit io" where
  "send_command_and_expect command expected_response =
     and_then (send_command command) (\<lambda>_.
     and_then read_master_response_line (\<lambda>response.
     if response \<noteq> expected_response
     then fail (''Expected response '' @ expected_response @ '', received '' @ response)
     else return_io ()))"

section \<open>The replica's side of the conversation\<close>

text \<open>\<open>_master_fd\<close> is optional; the functions refuse to work without a connection.\<close>

definition on_master :: "'a io \<Rightarrow> connection option \<Rightarrow> connection option \<times> (string + 'a) option" where
  "on_master m master_fd =
     (case master_fd of
        None \<Rightarrow> (None, Some (Inl ''Master connection is not established''))
      | Some c \<Rightarrow> (case m c of (c', r) \<Rightarrow> (Some c', r)))"

definition perform_replication_handshake ::
  "nat \<Rightarrow> connection option \<Rightarrow> connection option \<times> (string + unit) option" where
  "perform_replication_handshake listening_port =
     on_master
       (and_then (send_command_and_expect [''PING''] ''+PONG'') (\<lambda>_.
        and_then (send_command_and_expect [''REPLCONF'', ''listening-port'', dec_of_nat listening_port] ''+OK'') (\<lambda>_.
        and_then (send_command_and_expect [''REPLCONF'', ''capa'', ''psync2''] ''+OK'') (\<lambda>_.
        send_command [''PSYNC'', ''?'', ''-1'']))))"

record full_resync =
  resync_id :: string
  resync_offset :: u64

definition is_hexadecimal :: "char \<Rightarrow> bool" where
  "is_hexadecimal c \<longleftrightarrow>
     is_digit c \<or> (of_char c :: nat) \<in> {97..102} \<or> (of_char c :: nat) \<in> {65..70}"

definition parse_full_resync :: "string \<Rightarrow> string + full_resync" where
  "parse_full_resync response =
     (let payload = drop (length ''+FULLRESYNC '') response in
      if take (length ''+FULLRESYNC '') response \<noteq> ''+FULLRESYNC ''
      then Inl (''Expected FULLRESYNC response, received '' @ response)
      else
        (case find_char (CHR '' '') payload of
           None \<Rightarrow> Inl ''Invalid FULLRESYNC response''
         | Some separator \<Rightarrow>
             let id = take separator payload; offset_text = drop (separator + 1) payload in
             if length id \<noteq> 40 \<or> offset_text = [] then Inl ''Invalid FULLRESYNC response''
             else if \<not> list_all is_hexadecimal id then Inl ''Invalid replication ID in FULLRESYNC response''
             else
               (case from_chars_unsigned 64 offset_text of
                  (end_, error, v) \<Rightarrow>
                    if error \<noteq> errc_ok \<or> end_ \<noteq> [] then Inl ''Invalid replication offset in FULLRESYNC response''
                    else Inr \<lparr>resync_id = id, resync_offset = of_nat v\<rparr>)))"

definition receive_full_resync :: "connection option \<Rightarrow> connection option \<times> (string + full_resync) option" where
  "receive_full_resync =
     on_master (and_then read_master_response_line (\<lambda>response c. (c, Some (parse_full_resync response))))"

definition parse_rdb_header :: "string \<Rightarrow> string + nat" where
  "parse_rdb_header header =
     (if header = [] \<or> hd header \<noteq> CHR ''$'' then Inl (''Expected RDB bulk length, received '' @ header)
      else
        (case from_chars_unsigned 64 (tl header) of
           (end_, error, payload_size) \<Rightarrow>
             if tl header = [] \<or> error \<noteq> errc_ok \<or> end_ \<noteq> [] then Inl ''Invalid RDB payload length''
             else Inr payload_size))"

definition receive_rdb_payload :: "connection option \<Rightarrow> connection option \<times> (string + string) option" where
  "receive_rdb_payload =
     on_master
       (and_then read_master_response_line (\<lambda>header.
        and_then (\<lambda>c. (c, Some (parse_rdb_header header))) (\<lambda>payload_size.
        and_then
          (receive (\<lambda>buffer. payload_size \<le> length buffer) ''Failed to read RDB payload from master''
             ''Master closed the connection while sending RDB payload'') (\<lambda>_.
        take_input payload_size 0))))"

section \<open>Sending: every byte or an error\<close>

text \<open>The results that move bytes.\<close>

fun productive :: "send_result \<Rightarrow> bool" where
  "productive (Sent n) \<longleftrightarrow> 0 < n"
| "productive _ \<longleftrightarrow> False"

text \<open>A socket that takes everything: no call fails, and enough calls move bytes.\<close>

definition accepting :: "nat \<Rightarrow> send_result list \<Rightarrow> bool" where
  "accepting n rs \<longleftrightarrow> list_all (\<lambda>r. productive r \<or> r = SendInterrupted) rs \<and> n \<le> length (filter productive rs)"

lemma prefix_take_append: "prefix (take n xs @ ys) xs \<longleftrightarrow> prefix ys (drop n xs)"
  by (metis append_take_drop_id same_prefix_prefix)

lemma take_append_eq: "take n xs @ ys = xs \<longleftrightarrow> ys = drop n xs"
  by (metis append_take_drop_id same_append_eq)

lemma send_loop_out:
  assumes "send_loop bytes rs = (out, rs', r)"
  shows "prefix out bytes" "r = Some (Inr ()) \<longleftrightarrow> out = bytes"
  using assms
proof (induction bytes rs arbitrary: out rs' r rule: send_loop.induct)
  case (5 b bytes n rs)
  {
    case 1
    with 5 show ?case by (cases "n = 0") (auto split: prod.splits simp: prefix_take_append)
  next
    case 2
    with 5 show ?case by (cases "n = 0") (auto split: prod.splits simp: take_append_eq)
  }
qed auto

lemma send_loop_accepting:
  "accepting n rs \<Longrightarrow> length bytes \<le> n \<Longrightarrow>
   \<exists>rs'. send_loop bytes rs = (bytes, rs', Some (Inr ())) \<and> accepting (n - length bytes) rs'"
proof (induction bytes rs arbitrary: n rule: send_loop.induct)
  case (5 b bytes k rs)
  then have k: "k \<noteq> 0" "accepting (n - 1) rs" "length (drop k (b # bytes)) \<le> n - 1" by (auto simp: accepting_def)
  from "5.IH" [OF this] obtain rs' where
    rs': "send_loop (drop k (b # bytes)) rs = (drop k (b # bytes), rs', Some (Inr ()))"
      "accepting (n - 1 - length (drop k (b # bytes))) rs'" by blast
  then have "accepting (n - length (b # bytes)) rs'" using k(1) by (auto simp: accepting_def)
  with rs'(1) k(1) show ?case by simp
qed (auto simp: accepting_def)

section \<open>Receiving: nothing is lost\<close>

fun received :: "recv_result \<Rightarrow> string" where
  "received (Received bytes) = bytes"
| "received _ = []"

text \<open>What the program has yet to look at: the buffer and the bytes behind it.\<close>

definition arriving :: "connection \<Rightarrow> string" where
  "arriving c = input_buffer c @ concat (map received (recv_results c))"

text \<open>No call fails and the stream does not end.\<close>

definition flowing :: "recv_result list \<Rightarrow> bool" where
  "flowing rs \<longleftrightarrow> list_all (\<lambda>r. r \<noteq> RecvError \<and> r \<noteq> Received []) rs"

lemma flowing_simps [simp]:
  "flowing []" "flowing (RecvInterrupted # rs) = flowing rs" "\<not> flowing (RecvError # rs)"
  "flowing (Received bytes # rs) \<longleftrightarrow> bytes \<noteq> [] \<and> flowing rs"
  by (auto simp: flowing_def)

lemma receive_until_flowing:
  assumes "flowing rs" "\<And>b t. enough b \<Longrightarrow> enough (b @ t)" "enough (buffer @ concat (map received rs))"
  shows "\<exists>buffer' rs'. receive_until enough failed ended buffer rs = (buffer', rs', Some (Inr ())) \<and> enough buffer' \<and>
    flowing rs' \<and> buffer' @ concat (map received rs') = buffer @ concat (map received rs)"
  using assms(1,3)
proof (induction rs arbitrary: buffer)
  case (Cons r rs)
  show ?case
  proof (cases r)
    case (Received bytes)
    with Cons.IH [of "buffer @ bytes"] Cons.prems show ?thesis by auto
  qed (use Cons in auto)
qed simp

text \<open>
  A link in good order: a given input arrives, a given output was sent, at least so many more bytes can
  be sent, and nobody asks the thread to stop.
\<close>

definition in_order :: "string \<Rightarrow> string \<Rightarrow> nat \<Rightarrow> connection \<Rightarrow> bool" where
  "in_order input out n c \<longleftrightarrow>
     flowing (recv_results c) \<and> arriving c = input \<and> sent c = out \<and> accepting n (send_results c) \<and>
     stop_requests c = (\<lambda>_. False)"

lemma and_then_Some: "m c = (c1, Some (Inr x)) \<Longrightarrow> and_then m f c = f x c1"
  by (simp add: and_then_def)

lemma send_bytes_in_order:
  assumes "in_order input out (length bytes + n) c"
  shows "\<exists>c'. send_bytes bytes c = (c', Some (Inr ())) \<and> in_order input (out @ bytes) n c' \<and>
    input_buffer c' = input_buffer c \<and> recv_results c' = recv_results c \<and> stop_requests c' = stop_requests c \<and>
    stop_checks c' = stop_checks c"
proof -
  from send_loop_accepting [of "length bytes + n" "send_results c" bytes] assms obtain rs' where
    "send_loop bytes (send_results c) = (bytes, rs', Some (Inr ()))" "accepting n rs'"
    by (auto simp: in_order_def)
  with assms show ?thesis by (simp add: send_bytes_def in_order_def arriving_def)
qed

lemma receive_in_order:
  assumes "in_order input out n c" "\<And>b t. enough b \<Longrightarrow> enough (b @ t)" "enough input"
  shows "\<exists>c'. receive enough failed ended c = (c', Some (Inr ())) \<and> enough (input_buffer c') \<and> in_order input out n c'"
proof -
  from receive_until_flowing [of "recv_results c" enough "input_buffer c" failed ended] assms
  obtain buffer rs where "receive_until enough failed ended (input_buffer c) (recv_results c) = (buffer, rs, Some (Inr ()))"
    "enough buffer" "flowing rs" "buffer @ concat (map received rs) = input"
    by (auto simp: in_order_def arriving_def)
  with assms(1) show ?thesis by (simp add: receive_def in_order_def arriving_def)
qed

lemma read_line_in_order:
  assumes "in_order (line @ crlf @ input) out n c" "CHR 0x0D \<notin> set line"
  shows "\<exists>c'. read_master_response_line c = (c', Some (Inr line)) \<and> in_order input out n c'"
proof -
  let ?enough = "\<lambda>buffer. find_crlf buffer \<noteq> None"
  have f: "find_crlf (line @ crlf @ input) = Some (length line)" using assms(2) by (rule find_crlf_line)
  from receive_in_order [OF assms(1), of ?enough] f find_crlf_append obtain c1 where
    c1: "receive ?enough ''Failed to read response from master'' ''Master closed the connection'' c = (c1, Some (Inr ()))"
      "?enough (input_buffer c1)" "in_order (line @ crlf @ input) out n c1" by fastforce
  then obtain k where k: "find_crlf (input_buffer c1) = Some k" by blast
  from find_crlf_append [OF this, of "concat (map received (recv_results c1))"] c1(3) f have "k = length line"
    by (simp add: in_order_def arriving_def)
  with find_crlf_bound [OF k] have l: "length line + 2 \<le> length (input_buffer c1)" by simp
  have e: "input_buffer c1 @ concat (map received (recv_results c1)) = line @ crlf @ input"
    using c1(3) by (simp add: in_order_def arriving_def)
  have "take (length line) (input_buffer c1) = line"
    "drop (length line + 2) (input_buffer c1) @ concat (map received (recv_results c1)) = input"
    using l arg_cong [OF e, of "take (length line)"] arg_cong [OF e, of "drop (length line + 2)"] by (simp_all add: crlf_def)
  with c1 k \<open>k = length line\<close> show ?thesis
    by (simp add: read_master_response_line_def and_then_Some take_input_def return_io_def in_order_def arriving_def)
qed

lemma expect_in_order:
  assumes "in_order (line @ crlf @ input) out (length (serialize_command command) + n) c" "CHR 0x0D \<notin> set line"
  shows "\<exists>c'. send_command_and_expect command line c = (c', Some (Inr ())) \<and>
    in_order input (out @ serialize_command command) n c'"
proof -
  obtain c1 where c1: "send_command command c = (c1, Some (Inr ()))"
    "in_order (line @ crlf @ input) (out @ serialize_command command) n c1"
    using send_bytes_in_order [OF assms(1)] by (auto simp: send_command_def)
  from read_line_in_order [OF this(2) assms(2)] c1(1) show ?thesis
    by (auto simp: send_command_and_expect_def and_then_Some return_io_def)
qed

section \<open>The conversation\<close>

definition handshake_commands :: "nat \<Rightarrow> command list" where
  "handshake_commands listening_port =
     [[''PING''], [''REPLCONF'', ''listening-port'', dec_of_nat listening_port], [''REPLCONF'', ''capa'', ''psync2''],
      [''PSYNC'', ''?'', ''-1'']]"

lemma handshake_in_order:
  assumes "in_order (''+PONG'' @ crlf @ ''+OK'' @ crlf @ ''+OK'' @ crlf @ input) out (length bytes + n) c"
    and "bytes = concat (map serialize_command (handshake_commands listening_port))"
  shows "\<exists>c'. perform_replication_handshake listening_port (Some c) = (Some c', Some (Inr ())) \<and>
    in_order input (out @ bytes) n c'"
proof -
  obtain w x y z where h: "handshake_commands listening_port = [w, x, y, z]" by (simp add: handshake_commands_def)
  then have bytes: "bytes = serialize_command w @ serialize_command x @ serialize_command y @ serialize_command z"
    by (simp add: assms(2))
  have cr: "CHR 0x0D \<notin> set ''+PONG''" "CHR 0x0D \<notin> set ''+OK''" by simp_all
  have "in_order (''+PONG'' @ crlf @ ''+OK'' @ crlf @ ''+OK'' @ crlf @ input) out
      (length (serialize_command w) + (length (serialize_command x) + (length (serialize_command y) +
        (length (serialize_command z) + n)))) c"
    using assms(1) by (simp add: bytes add.assoc)
  from expect_in_order [OF this cr(1)] obtain c1 where c1: "send_command_and_expect w ''+PONG'' c = (c1, Some (Inr ()))"
    and o1: "in_order (''+OK'' @ crlf @ ''+OK'' @ crlf @ input) (out @ serialize_command w)
      (length (serialize_command x) + (length (serialize_command y) + (length (serialize_command z) + n))) c1" by blast
  from expect_in_order [OF o1 cr(2)] obtain c2 where c2: "send_command_and_expect x ''+OK'' c1 = (c2, Some (Inr ()))"
    and o2: "in_order (''+OK'' @ crlf @ input) ((out @ serialize_command w) @ serialize_command x)
      (length (serialize_command y) + (length (serialize_command z) + n)) c2" by blast
  from expect_in_order [OF o2 cr(2)] obtain c3 where c3: "send_command_and_expect y ''+OK'' c2 = (c3, Some (Inr ()))"
    and o3: "in_order input (((out @ serialize_command w) @ serialize_command x) @ serialize_command y)
      (length (serialize_command z) + n) c3" by blast
  from send_bytes_in_order [OF o3] obtain c4 where c4: "send_command z c3 = (c4, Some (Inr ()))"
    and o4: "in_order input ((((out @ serialize_command w) @ serialize_command x) @ serialize_command y) @ serialize_command z) n c4"
    by (auto simp: send_command_def)
  have "perform_replication_handshake listening_port (Some c) = (Some c4, Some (Inr ()))"
    using c1 c2 c3 c4 h by (simp add: perform_replication_handshake_def on_master_def and_then_Some handshake_commands_def)
  with o4 show ?thesis by (auto simp: bytes)
qed

definition rdb_bytes :: string where
  "rdb_bytes = ''$'' @ dec_of_nat (length empty_rdb_payload) @ crlf @ empty_rdb_payload"

definition full_resync_bytes :: "replica_registration \<Rightarrow> string" where
  "full_resync_bytes registration =
     ''+FULLRESYNC '' @ registration_id registration @ '' '' @ dec_of_nat (unat (registration_offset registration)) @ crlf @ rdb_bytes"

lemma send_three_in_order:
  assumes "in_order input out (length (x @ y @ z) + n) c"
  shows "\<exists>c'. and_then (send_bytes x) (\<lambda>_. and_then (send_bytes y) (\<lambda>_. send_bytes z)) c = (c', Some (Inr ())) \<and>
    in_order input (out @ x @ y @ z) n c'"
proof -
  have "in_order input out (length x + (length y + (length z + n))) c" using assms by (simp add: add.assoc)
  from send_bytes_in_order [OF this] obtain c1 where c1: "send_bytes x c = (c1, Some (Inr ()))"
    "in_order input (out @ x) (length y + (length z + n)) c1" by blast
  from send_bytes_in_order [OF c1(2)] obtain c2 where c2: "send_bytes y c1 = (c2, Some (Inr ()))"
    "in_order input ((out @ x) @ y) (length z + n) c2" by blast
  from send_bytes_in_order [OF c2(2)] c1 c2 show ?thesis by (auto simp: and_then_Some)
qed

lemma send_full_resync_in_order:
  assumes "in_order input out (length (full_resync_bytes registration) + n) c"
  shows "\<exists>c'. send_full_resync registration c = (c', Some (Inr ())) \<and>
    in_order input (out @ full_resync_bytes registration) n c'"
proof -
  let ?x = "''+FULLRESYNC '' @ registration_id registration @ '' '' @ dec_of_nat (unat (registration_offset registration)) @ crlf"
  let ?y = "''$'' @ dec_of_nat (length empty_rdb_payload) @ crlf"
  have "full_resync_bytes registration = ?x @ ?y @ empty_rdb_payload" by (simp only: full_resync_bytes_def rdb_bytes_def append_assoc)
  with send_three_in_order [of input out ?x ?y empty_rdb_payload n c] assms show ?thesis
    unfolding send_full_resync_def by metis
qed

lemma find_char_here: "x \<notin> set s \<Longrightarrow> find_char x (s @ x # t) = Some (length s)"
  by (induction s) auto

lemma hexadecimal_no_space: "is_hexadecimal x \<Longrightarrow> x \<noteq> CHR '' '' \<and> x \<noteq> CHR 0x0D"
  by (auto simp: is_hexadecimal_def is_digit_def)

lemma parse_full_resync_text:
  assumes "length rid = 40" "list_all is_hexadecimal rid"
  shows "parse_full_resync (''+FULLRESYNC '' @ rid @ '' '' @ dec_of_nat (unat ro)) =
    Inr \<lparr>resync_id = rid, resync_offset = ro\<rparr>"
proof -
  have "CHR '' '' \<notin> set rid" using assms(2) hexadecimal_no_space by (auto simp: list_all_iff)
  from find_char_here [OF this] have "find_char (CHR '' '') (rid @ '' '' @ dec_of_nat (unat ro)) = Some (length rid)" by simp
  moreover have "unat ro < 2 ^ 64" using unsigned_less [of ro, where 'a = nat] by simp
  ultimately show ?thesis using assms by (simp add: parse_full_resync_def Let_def from_chars_unsigned_dec)
qed

lemma no_cr_dec: "CHR 0x0D \<notin> set (dec_of_nat m)"
  using dec_of_nat_digits [of m] is_digit_not_special(1) by metis

lemma receive_resync_in_order:
  assumes "in_order (full_resync_bytes registration @ input) out n c"
    and "length (registration_id registration) = 40" "list_all is_hexadecimal (registration_id registration)"
  shows "\<exists>c1. receive_full_resync (Some c) =
      (Some c1, Some (Inr \<lparr>resync_id = registration_id registration, resync_offset = registration_offset registration\<rparr>)) \<and>
    in_order (rdb_bytes @ input) out n c1"
proof -
  let ?line = "''+FULLRESYNC '' @ registration_id registration @ '' '' @ dec_of_nat (unat (registration_offset registration))"
  have "CHR 0x0D \<notin> set ?line" using assms(3) hexadecimal_no_space no_cr_dec by (auto simp: list_all_iff)
  moreover have "in_order (?line @ crlf @ rdb_bytes @ input) out n c" using assms(1) by (simp add: full_resync_bytes_def)
  ultimately obtain c1 where "read_master_response_line c = (c1, Some (Inr ?line))" "in_order (rdb_bytes @ input) out n c1"
    using read_line_in_order by blast
  then show ?thesis
    using parse_full_resync_text [OF assms(2,3)] by (simp add: receive_full_resync_def on_master_def and_then_Some)
qed

lemma receive_rdb_in_order:
  assumes "in_order (rdb_bytes @ input) out n c1"
  shows "\<exists>c2. receive_rdb_payload (Some c1) = (Some c2, Some (Inr empty_rdb_payload)) \<and> in_order input out n c2"
proof -
  let ?header = "''$'' @ dec_of_nat (length empty_rdb_payload)"
  have "CHR 0x0D \<notin> set ?header" using no_cr_dec by simp
  moreover have "in_order (?header @ crlf @ empty_rdb_payload @ input) out n c1" using assms by (simp add: rdb_bytes_def)
  ultimately obtain c2 where c2: "read_master_response_line c1 = (c2, Some (Inr ?header))"
    "in_order (empty_rdb_payload @ input) out n c2" using read_line_in_order by blast
  have "parse_rdb_header ?header = Inr (length empty_rdb_payload)"
    by (simp add: parse_rdb_header_def from_chars_unsigned_dec empty_rdb_payload_def)
  moreover obtain c3 where c3: "receive (\<lambda>buffer. length empty_rdb_payload \<le> length buffer)
      ''Failed to read RDB payload from master'' ''Master closed the connection while sending RDB payload'' c2 = (c3, Some (Inr ()))"
    "length empty_rdb_payload \<le> length (input_buffer c3)" "in_order (empty_rdb_payload @ input) out n c3"
    using receive_in_order [OF c2(2), of "\<lambda>buffer. length empty_rdb_payload \<le> length buffer"] by auto
  moreover have "take (length empty_rdb_payload) (input_buffer c3) = empty_rdb_payload"
    "drop (length empty_rdb_payload) (input_buffer c3) @ concat (map received (recv_results c3)) = input"
    using c3(2,3) by (auto simp: in_order_def arriving_def append_eq_append_conv_if split: if_splits)
  ultimately show ?thesis
    using c2(1) by (simp add: receive_rdb_payload_def on_master_def and_then_Some take_input_def return_io_def in_order_def arriving_def)
qed

text \<open>
  Sending is complete or fails. Whatever the calls of \<open>send\<close> return, the bytes that leave are a prefix of
  the given ones, and the function reports success exactly if they are all of them. It returns with success
  whenever no call fails and there are as many calls that move bytes as bytes, however often it is interrupted.
\<close>

theorem send_bytes_complete_or_error:
  assumes "send_bytes bytes c = (c', r)"
  shows "(\<exists>out. sent c' = sent c @ out \<and> prefix out bytes \<and> (r = Some (Inr ()) \<longleftrightarrow> out = bytes)) \<and>
    (accepting (length bytes) (send_results c) \<longrightarrow> r = Some (Inr ()))"
proof -
  obtain out rs r' where l: "send_loop bytes (send_results c) = (out, rs, r')" by (metis prod_cases3)
  with assms have "sent c' = sent c @ out" "r' = r" by (auto simp: send_bytes_def)
  with send_loop_out [OF l] send_loop_accepting [of "length bytes" "send_results c" bytes] l show ?thesis by auto
qed

theorem send_bytes_complete_or_error_witness:
  "snd (send_bytes ''abc'' (new_connection [] [Sent 2, SendInterrupted, Sent 1, Sent 1] (\<lambda>_. False))) = Some (Inr ())"
proof -
  let ?c = "new_connection [] [Sent 2, SendInterrupted, Sent 1, Sent 1] (\<lambda>_. False)"
  have "accepting (length ''abc'') (send_results ?c)" by (simp add: accepting_def new_connection_def)
  with send_bytes_complete_or_error [of "''abc''" ?c] show ?thesis by (cases "send_bytes ''abc'' ?c") simp
qed

end
