(* ===== verification/Command_Loop.thy ===== *)
theory Command_Loop
  imports Sockets
begin

text \<open>
  The loop that three functions of \<open>server.cpp\<close> share: as long as the input buffer holds a complete
  command, it is parsed, handled and erased from the buffer. A guard is checked before each parse, a
  handler may leave the loop before or after the command is erased, and a malformed command leaves it.
\<close>

datatype 'r verdict = Proceed | Leave 'r | EraseAndLeave 'r

function command_loop ::
  "('s \<Rightarrow> 's \<times> 'r verdict) \<Rightarrow> (string \<Rightarrow> 'r) \<Rightarrow> (command \<Rightarrow> nat \<Rightarrow> 's \<Rightarrow> 's \<times> 'r verdict) \<Rightarrow> string \<Rightarrow> 's \<Rightarrow>
    string \<times> 's \<times> 'r verdict" where
  "command_loop guard invalid handle buffer s =
     (if buffer = [] then (buffer, s, Proceed)
      else
        (case guard s of
           (s0, Leave r) \<Rightarrow> (buffer, s0, Leave r)
         | (s0, EraseAndLeave r) \<Rightarrow> (buffer, s0, Leave r)
         | (s0, Proceed) \<Rightarrow>
             (case parse_command buffer of
                Incomplete \<Rightarrow> (buffer, s0, Proceed)
              | ParseError _ msg \<Rightarrow> (buffer, s0, Leave (invalid msg))
              | ParseResult command consumed \<Rightarrow>
                  (case handle command consumed s0 of
                     (s1, Leave r) \<Rightarrow> (buffer, s1, Leave r)
                   | (s1, EraseAndLeave r) \<Rightarrow> (drop consumed buffer, s1, Leave r)
                   | (s1, Proceed) \<Rightarrow> command_loop guard invalid handle (drop consumed buffer) s1))))"
  by pat_completeness auto
termination
  by (relation "measure (\<lambda>(guard, invalid, handle, buffer, s). length buffer)") (auto dest: parse_command_bounds)

declare command_loop.simps [simp del]

text \<open>What a handler never changes, the loop never changes.\<close>

lemma command_loop_invariant:
  assumes "\<And>s s' v. guard s = (s', v) \<Longrightarrow> I s \<Longrightarrow> I s'"
    and "\<And>command n s s' v. handle command n s = (s', v) \<Longrightarrow> I s \<Longrightarrow> I s'"
    and "command_loop guard invalid handle buffer s = (buffer', s', v)" "I s"
  shows "I s'"
  using assms(3,4)
proof (induction "length buffer" arbitrary: buffer s rule: less_induct)
  case less
  obtain s0 v0 where g: "guard s = (s0, v0)" by fastforce
  with assms(1) less(3) have i0: "I s0" by blast
  show ?case
  proof (cases "buffer \<noteq> [] \<and> v0 = Proceed \<and> (\<exists>command n. parse_command buffer = ParseResult command n)")
    case True
    then obtain command n where p: "parse_command buffer = ParseResult command n" by blast
    obtain s1 v1 where h: "handle command n s0 = (s1, v1)" by fastforce
    with assms(2) i0 have i1: "I s1" by blast
    have "length (drop n buffer) < length buffer" using parse_command_bounds [OF p] by auto
    from less(1) [OF this _ i1] less(2) True p h g i1 show ?thesis
      by (cases v1) (simp_all add: command_loop.simps [of guard invalid handle buffer s])
  next
    case False
    with less(2,3) g i0 show ?thesis
      by (cases v0) (auto simp: command_loop.simps [of guard invalid handle buffer s] split: if_splits parse_outcome.splits)
  qed
qed

text \<open>How the loop is left, with a condition that holds as long as the loop goes on.\<close>

lemma command_loop_outcome:
  assumes "command_loop guard invalid handle buffer s = (buffer', s', v)" "I s"
    and "\<And>s s'. guard s = (s', Proceed) \<Longrightarrow> I s \<Longrightarrow> I s'"
    and "\<And>command n s s'. handle command n s = (s', Proceed) \<Longrightarrow> I s \<Longrightarrow> I s'"
  shows "v = Proceed \<and> I s' \<or>
    (\<exists>s0 x r. I s0 \<and> guard s0 = (s', x) \<and> (x = Leave r \<or> x = EraseAndLeave r) \<and> v = Leave r) \<or>
    (\<exists>msg. v = Leave (invalid msg)) \<or>
    (\<exists>command n s0 x r. I s0 \<and> handle command n s0 = (s', x) \<and> (x = Leave r \<or> x = EraseAndLeave r) \<and> v = Leave r)"
  using assms(1,2)
proof (induction "length buffer" arbitrary: buffer s rule: less_induct)
  case less
  note unfold = command_loop.simps [of guard invalid handle buffer s]
  obtain s0 v0 where g: "guard s = (s0, v0)" by fastforce
  show ?case
  proof (cases "buffer = [] \<or> v0 \<noteq> Proceed")
    case True
    with less(2) [unfolded unfold] less(3) g show ?thesis by (cases "buffer = []"; cases v0) auto
  next
    case False
    then have i0: "I s0" using assms(3) g less(3) by blast
    show ?thesis
    proof (cases "parse_command buffer")
      case (ParseResult command n)
      obtain s1 v1 where h: "handle command n s0 = (s1, v1)" by fastforce
      show ?thesis
      proof (cases "v1 = Proceed")
        case True
        then have i1: "I s1" using assms(4) h i0 by blast
        have "length (drop n buffer) < length buffer" using parse_command_bounds [OF ParseResult] by auto
        from less(1) [OF this _ i1] less(2) False ParseResult True h g show ?thesis by (simp add: unfold)
      next
        case False
        with less(2) \<open>\<not> (buffer = [] \<or> v0 \<noteq> Proceed)\<close> ParseResult h g i0 show ?thesis
          by (cases v1) (auto simp: unfold, blast+)
      qed
    qed (use less(2) False g i0 in \<open>auto simp: unfold\<close>)
  qed
qed

section \<open>Streams of commands\<close>

text \<open>Behind a number of complete commands, a part of the next one.\<close>

definition unfinished :: "string \<Rightarrow> command list \<Rightarrow> bool" where
  "unfinished rest cs \<longleftrightarrow> rest = [] \<or> cs \<noteq> [] \<and> strict_prefix rest (serialize_command (hd cs))"

lemma stream_prefix:
  "prefix buffer (concat (map serialize_command cs)) \<Longrightarrow>
   \<exists>ds ls rest. cs = ds @ ls \<and> buffer = concat (map serialize_command ds) @ rest \<and> unfinished rest ls"
proof (induction cs arbitrary: buffer)
  case (Cons c cs)
  show ?case
  proof (cases "prefix (serialize_command c) buffer")
    case True
    then obtain b where b: "buffer = serialize_command c @ b" by (auto simp: prefix_def)
    with Cons.prems have "prefix b (concat (map serialize_command cs))" by simp
    from Cons.IH [OF this] obtain d l r where
      "cs = d @ l" "b = concat (map serialize_command d) @ r" "unfinished r l" by blast
    with b show ?thesis by (intro exI [of _ "c # d"] exI [of _ l] exI [of _ r]) simp
  next
    case False
    with Cons.prems have "strict_prefix buffer (serialize_command c)" by (auto simp: prefix_append strict_prefix_def)
    then show ?thesis by (intro exI [of _ "[]"] exI [of _ "c # cs"] exI [of _ buffer]) (simp add: unfinished_def)
  qed
qed (simp add: unfinished_def)

text \<open>All commands of a list are handled, one after the other.\<close>

fun handle_all :: "('s \<Rightarrow> 's \<times> 'r verdict) \<Rightarrow> (command \<Rightarrow> nat \<Rightarrow> 's \<Rightarrow> 's \<times> 'r verdict) \<Rightarrow> command list \<Rightarrow> 's \<Rightarrow> 's option" where
  "handle_all guard handle [] s = Some s"
| "handle_all guard handle (c # cs) s =
     (case handle c (length (serialize_command c)) (fst (guard s)) of
        (s1, Proceed) \<Rightarrow> handle_all guard handle cs s1
      | _ \<Rightarrow> None)"

lemma handle_all_append:
  "handle_all guard handle (cs @ ds) s = Option.bind (handle_all guard handle cs s) (handle_all guard handle ds)"
  by (induction cs arbitrary: s) (auto split: prod.splits verdict.splits)

text \<open>States in which the guard lets the loop go on, and which neither the guard nor the handler leaves.\<close>

definition keeps_going :: "('s \<Rightarrow> bool) \<Rightarrow> ('s \<Rightarrow> 's \<times> 'r verdict) \<Rightarrow> (command \<Rightarrow> nat \<Rightarrow> 's \<Rightarrow> 's \<times> 'r verdict) \<Rightarrow> bool" where
  "keeps_going P guard handle \<longleftrightarrow>
     (\<forall>s. P s \<longrightarrow> snd (guard s) = Proceed \<and> P (fst (guard s))) \<and> (\<forall>command n s. P s \<longrightarrow> P (fst (handle command n s)))"

lemma handle_all_keeps:
  "keeps_going P guard handle \<Longrightarrow> P s \<Longrightarrow> handle_all guard handle cs s = Some s' \<Longrightarrow> P s'"
proof (induction cs arbitrary: s)
  case (Cons c cs)
  let ?h = "handle c (length (serialize_command c)) (fst (guard s))"
  have "P (fst ?h)" using Cons.prems(1,2) by (simp add: keeps_going_def)
  with Cons.IH [of "fst ?h"] Cons.prems show ?case by (cases ?h) (auto split: verdict.splits)
qed simp

lemma command_loop_commands:
  assumes "list_all sized cs" "handle_all guard handle cs s = Some s'" "keeps_going P guard handle" "P s"
  shows "command_loop guard invalid handle (concat (map serialize_command cs) @ rest) s = command_loop guard invalid handle rest s'"
  using assms(1,2,4)
proof (induction cs arbitrary: s)
  case (Cons c cs)
  obtain s0 where g: "guard s = (s0, Proceed)" "P s0"
    using assms(3) Cons.prems(3) by (cases "guard s") (auto simp: keeps_going_def)
  from Cons.prems(2) g obtain s1 where h: "handle c (length (serialize_command c)) s0 = (s1, Proceed)"
    "handle_all guard handle cs s1 = Some s'" by (auto split: prod.splits verdict.splits)
  have "P (fst (handle c (length (serialize_command c)) s0))" using assms(3) g(2) by (simp add: keeps_going_def)
  then have "P s1" using h(1) by simp
  moreover have "parse_command (serialize_command c @ concat (map serialize_command cs) @ rest) = ParseResult c (length (serialize_command c))"
    using Cons.prems(1) by (simp add: parse_serialize)
  ultimately show ?case using Cons.IH [of s1] Cons.prems(1) g h
    by (simp add: command_loop.simps [of guard invalid handle "serialize_command c @ concat (map serialize_command cs) @ rest" s])
qed simp

lemma command_loop_unfinished:
  assumes "list_all sized cs" "unfinished rest cs" "snd (guard s) = Proceed"
  shows "command_loop guard invalid handle rest s = (rest, if rest = [] then s else fst (guard s), Proceed)"
proof (cases "rest = []")
  case False
  with assms have "parse_command rest = Incomplete" by (cases cs) (auto simp: unfinished_def parse_prefix)
  with False assms(3) show ?thesis by (cases "guard s") (simp add: command_loop.simps)
qed (simp add: command_loop.simps)

text \<open>
  The loop on a part of a stream, when the whole stream can be handled: some commands are handled and
  the rest waits in the buffer.
\<close>

lemma command_loop_stream:
  assumes "list_all sized cs" "prefix buffer (concat (map serialize_command cs))" "handle_all guard handle cs s = Some s'"
    and "keeps_going P guard handle" "P s"
  shows "\<exists>ds ls rest s1. cs = ds @ ls \<and> buffer = concat (map serialize_command ds) @ rest \<and> unfinished rest ls \<and>
    handle_all guard handle ds s = Some s1 \<and> handle_all guard handle ls s1 = Some s' \<and>
    command_loop guard invalid handle buffer s = (rest, if rest = [] then s1 else fst (guard s1), Proceed)"
proof -
  from stream_prefix [OF assms(2)] obtain d l r where d: "cs = d @ l" "buffer = concat (map serialize_command d) @ r" "unfinished r l"
    by blast
  from assms(3) d(1) obtain s1 where s1: "handle_all guard handle d s = Some s1" "handle_all guard handle l s1 = Some s'"
    by (auto simp: handle_all_append Option.bind_eq_Some_conv)
  have k: "list_all sized d" "list_all sized l" using assms(1) d(1) by simp_all
  have go: "snd (guard s1) = Proceed" using handle_all_keeps [OF assms(4,5) s1(1)] assms(4) by (simp add: keeps_going_def)
  have "command_loop guard invalid handle buffer s = (r, if r = [] then s1 else fst (guard s1), Proceed)"
    unfolding d(2) command_loop_commands [OF k(1) s1(1) assms(4,5)] by (rule command_loop_unfinished [of l, OF k(2) d(3)]) (rule go)
  with d s1 show ?thesis by blast
qed

end
