(* ===== verification/Replication_Stream.thy ===== *)
theory Replication_Stream
  imports Processor_Recovery Command_Loop
begin

text \<open>
  The replica's side of replication (\<open>server.cpp\<close>): the thread that performs the handshake, receives the
  answer and the snapshot, and executes the stream of commands, acknowledging on request. The theory
  ends with the composition of all parts: a replica that executes what its master has sent holds the master's
  contents.
\<close>

section \<open>Waiting for the processor\<close>

text \<open>
  \<open>get\<close> on a future: the thread waits until the promise is fulfilled. What happens meanwhile is up to the
  other threads, so the functions of this theory take the waiting as an argument: it gives the state in which
  the thread continues and the value, or a state in which it waits for ever.
\<close>

type_synonym future_get = "promise \<Rightarrow> processor \<Rightarrow> processor \<times> result option"

text \<open>The waiting when no other thread submits tasks: the worker runs, for a bounded number of iterations.\<close>

fun await_worker :: "nat \<Rightarrow> future_get" where
  "await_worker n q p =
     (case map_of (fulfilled p) q of
        Some r \<Rightarrow> (p, Some r)
      | None \<Rightarrow>
          (case n of
             0 \<Rightarrow> (p, None)
           | Suc m \<Rightarrow>
               if tasks p = [] \<and> next_pending_deadline p = None then (p, None)
               else (case run_iteration p of None \<Rightarrow> (p, None) | Some p' \<Rightarrow> await_worker m q p')))"

declare await_worker.simps [simp del]

section \<open>The stream\<close>

text \<open>An acknowledgement carries the offset in front of the request for it.\<close>

definition acknowledged_offset :: "future_get \<Rightarrow> command \<Rightarrow> processor \<Rightarrow> processor \<times> u64 option option" where
  "acknowledged_offset get command p =
     (if command = [''REPLCONF'', ''GETACK'', ''*''] then
        (case replication_offset p of
           (p1, q) \<Rightarrow>
             (case get q p1 of
                (p2, Some (OffsetIs n)) \<Rightarrow> (p2, Some (Some n))
              | (p2, _) \<Rightarrow> (p2, None)))
      else (p, Some None))"

definition replicate_command :: "future_get \<Rightarrow> command \<Rightarrow> nat \<Rightarrow> processor \<Rightarrow> processor \<times> (u64 option \<times> response) option" where
  "replicate_command get command consumed p =
     (case acknowledged_offset get command p of
        (p1, None) \<Rightarrow> (p1, None)
      | (p1, Some acknowledged) \<Rightarrow>
          (case apply_replication command consumed p1 of
             (p2, q) \<Rightarrow>
               (case get q p2 of
                  (p3, Some (Responded response)) \<Rightarrow> (p3, Some (acknowledged, response))
                | (p3, _) \<Rightarrow> (p3, None))))"

definition apply_replicated ::
  "future_get \<Rightarrow> command \<Rightarrow> nat \<Rightarrow> processor \<times> connection \<Rightarrow> (processor \<times> connection) \<times> (string + unit) option verdict" where
  "apply_replicated get command consumed s =
     (case s of
        (p, c) \<Rightarrow>
          (case replicate_command get command consumed p of
             (p1, None) \<Rightarrow> ((p1, c), Leave None)
           | (p1, Some (acknowledged, response)) \<Rightarrow>
               (case response of
                  SimpleError e \<Rightarrow> ((p1, c), Leave (Some (Inl (''Failed to apply replicated command: '' @ e))))
                | _ \<Rightarrow>
                    (case acknowledged of
                       None \<Rightarrow> ((p1, c), Proceed)
                     | Some n \<Rightarrow>
                         (case send_command [''REPLCONF'', ''ACK'', dec_of_nat (unat n)] c of
                            (c1, Some (Inr _)) \<Rightarrow> ((p1, c1), Proceed)
                          | (c1, Some (Inl e)) \<Rightarrow>
                              ((p1, c1), EraseAndLeave (Some (Inl (''Failed to acknowledge replication offset: '' @ e))))
                          | (c1, None) \<Rightarrow> ((p1, c1), EraseAndLeave None))))))"

definition apply_buffered ::
  "future_get \<Rightarrow> processor \<times> connection \<Rightarrow> (processor \<times> connection) \<times> (string + unit) option verdict" where
  "apply_buffered get s =
     (case command_loop (\<lambda>s. (s, Proceed)) (\<lambda>msg. Some (Inl (''Invalid command in replication stream: '' @ msg)))
        (apply_replicated get) (input_buffer (snd s)) s of
        (buffer, (p, c), v) \<Rightarrow> ((p, c\<lparr>input_buffer := buffer\<rparr>), v))"

lemma apply_replicated_receives:
  "apply_replicated get command n s = (s', v) \<Longrightarrow> recv_results (snd s') = recv_results (snd s)"
  by (auto simp: apply_replicated_def send_command_def send_bytes_def split: prod.splits option.splits response.splits sum.splits)

lemma apply_buffered_receives:
  assumes "((p, c), w) = apply_buffered get s"
  shows "recv_results c = recv_results (snd s)"
proof -
  obtain buffer s' v where l: "command_loop (\<lambda>s. (s, Proceed)) (\<lambda>msg. Some (Inl (''Invalid command in replication stream: '' @ msg)))
      (apply_replicated get) (input_buffer (snd s)) s = (buffer, s', v)" by (metis prod_cases3)
  from command_loop_invariant [of "\<lambda>s. (s, Proceed)" "\<lambda>t. recv_results (snd t) = recv_results (snd s)", OF _ _ l]
    apply_replicated_receives l assms show ?thesis by (cases s') (auto simp: apply_buffered_def)
qed

text \<open>The outer loop. An end of the stream or a failure is no error when the thread was asked to stop.\<close>

definition unless_stopped :: "string \<Rightarrow> processor \<times> connection \<Rightarrow> (processor \<times> connection) \<times> (string + unit) option" where
  "unless_stopped e s =
     (case stop_requested (snd s) of (c, stop) \<Rightarrow> ((fst s, c), Some (if stop then Inr () else Inl e)))"

function stream_loop ::
  "future_get \<Rightarrow> processor \<times> connection \<Rightarrow> (processor \<times> connection) \<times> (string + unit) option" where
  "stream_loop get s =
     (case stop_requested (snd s) of
        (c0, stop) \<Rightarrow>
          if stop then ((fst s, c0), Some (Inr ()))
          else
            (case apply_buffered get (fst s, c0) of
               ((p, c), Leave r) \<Rightarrow> ((p, c), r)
             | ((p, c), EraseAndLeave r) \<Rightarrow> ((p, c), r)
             | ((p, c), Proceed) \<Rightarrow>
                 (case recv_results c of
                    [] \<Rightarrow> ((p, c), None)
                  | r # rs \<Rightarrow>
                      let c1 = c\<lparr>recv_results := rs\<rparr> in
                      (case r of
                         RecvInterrupted \<Rightarrow> stream_loop get (p, c1)
                       | RecvError \<Rightarrow> unless_stopped ''Failed to read replication stream from master'' (p, c1)
                       | Received bytes \<Rightarrow>
                           if bytes = [] then unless_stopped ''Master closed the replication stream'' (p, c1)
                           else stream_loop get (p, c1\<lparr>input_buffer := input_buffer c1 @ bytes\<rparr>)))))"
  by pat_completeness auto
termination
  by (relation "measure (\<lambda>(get, s). length (recv_results (snd s)))")
    (auto simp: stop_requested_def dest!: apply_buffered_receives)

declare stream_loop.simps [simp del]

definition consume_replication_stream ::
  "future_get \<Rightarrow> processor \<Rightarrow> connection option \<Rightarrow> processor \<times> connection option \<times> (string + unit) option" where
  "consume_replication_stream get p master_fd =
     (case master_fd of
        None \<Rightarrow> (p, None, Some (Inl ''Master connection is not established''))
      | Some c \<Rightarrow> (case stream_loop get (p, c) of ((p', c'), r) \<Rightarrow> (p', Some c', r)))"

section \<open>The thread\<close>

text \<open>
  The stop token is kept with the connection; without a connection the first function has failed already.
  The last component of a result is what the thread reports when it ends.
\<close>

definition stopped :: "connection option \<Rightarrow> connection option \<times> bool" where
  "stopped master_fd =
     (case master_fd of None \<Rightarrow> (None, False) | Some c \<Rightarrow> (case stop_requested c of (c', stop) \<Rightarrow> (Some c', stop)))"

definition report :: "string \<Rightarrow> processor \<Rightarrow> connection option \<Rightarrow> processor \<times> connection option \<times> string option option" where
  "report message p master_fd =
     (case stopped master_fd of (fd, stop) \<Rightarrow> (p, fd, Some (if stop then None else Some message)))"

definition install_and_consume ::
  "future_get \<Rightarrow> full_resync \<Rightarrow> processor \<Rightarrow> connection option \<Rightarrow> processor \<times> connection option \<times> string option option" where
  "install_and_consume get resync p master_fd =
     (case install_replication_state (resync_id resync) (resync_offset resync) p of
        (p1, q) \<Rightarrow>
          (case get q p1 of
             (p2, None) \<Rightarrow> (p2, master_fd, None)
           | (p2, Some _) \<Rightarrow>
               (case consume_replication_stream get p2 master_fd of
                  (p3, fd, None) \<Rightarrow> (p3, fd, None)
                | (p3, fd, Some (Inl e)) \<Rightarrow> report (''Replication stream failed: '' @ e) p3 fd
                | (p3, fd, Some (Inr _)) \<Rightarrow> (p3, fd, Some None))))"

definition replication_loop ::
  "future_get \<Rightarrow> nat \<Rightarrow> processor \<Rightarrow> connection option \<Rightarrow> processor \<times> connection option \<times> string option option" where
  "replication_loop get listening_port p fd =
     (case perform_replication_handshake listening_port fd of
        (fd1, None) \<Rightarrow> (p, fd1, None)
      | (fd1, Some (Inl e)) \<Rightarrow> report (''Replication handshake failed: '' @ e) p fd1
      | (fd1, Some (Inr _)) \<Rightarrow>
          (case stopped fd1 of
             (fd2, True) \<Rightarrow> (p, fd2, Some None)
           | (fd2, False) \<Rightarrow>
               (case receive_full_resync fd2 of
                  (fd3, None) \<Rightarrow> (p, fd3, None)
                | (fd3, Some (Inl e)) \<Rightarrow> report (''Failed to receive FULLRESYNC: '' @ e) p fd3
                | (fd3, Some (Inr resync)) \<Rightarrow>
                    (case stopped fd3 of
                       (fd4, True) \<Rightarrow> (p, fd4, Some None)
                     | (fd4, False) \<Rightarrow>
                         (case receive_rdb_payload fd4 of
                            (fd5, None) \<Rightarrow> (p, fd5, None)
                          | (fd5, Some (Inl e)) \<Rightarrow> report (''Failed to receive RDB payload: '' @ e) p fd5
                          | (fd5, Some (Inr _)) \<Rightarrow> install_and_consume get resync p fd5)))))"

section \<open>Promises of a worker that runs alone\<close>

lemma fulfilled_grows:
  "set (fulfilled p) \<subseteq> set (fulfilled (fst (retry_list_pops pops p)))"
  "set (fulfilled p) \<subseteq> set (fulfilled (fst (retry_stream_reads reads p)))"
  "set (fulfilled p) \<subseteq> set (fulfilled (fst (retry_waits waits p)))"
  "set (fulfilled p) \<subseteq> set (fulfilled (fst (expire_waits now waits p)))"
proof -
  have pop: "fulfilled p1 = fulfilled p" if "pop_for k p = (p1, r)" for k p p1 r
    using bookkeeping_eqs(5) [OF pop_for_bookkeeping [OF that]] .
  have answer: "set (fulfilled p) \<subseteq> set (fulfilled (answer_pop t k v p))" for t k v p
  proof -
    obtain p1 r where b: "persist_blocking_pop t k p = (p1, r)" by fastforce
    with bookkeeping_eqs(5) [OF persist_blocking_pop_frame(1) [OF b]] show ?thesis
      by (auto simp: answer_pop_def split: sum.splits)
  qed
  show "set (fulfilled p) \<subseteq> set (fulfilled (fst (retry_list_pops pops p)))"
  proof (induction pops arbitrary: p)
    case (Cons x xs)
    obtain p1 r where p1: "pop_for (pending_key x) p = (p1, r)" by fastforce
    show ?case
    proof (cases r)
      case (Inl e)
      with Cons.IH [of p1] Cons.IH [of "respond (pop_task x) wrong_type_error p1"] pop [OF p1] p1 show ?thesis
        by (auto split: prod.splits)
    next
      case (Inr v)
      with subset_trans [OF answer Cons.IH, of p1 "pop_task x" "pending_key x" v] pop [OF p1] p1 show ?thesis by simp
    qed
  qed simp
  show "set (fulfilled p) \<subseteq> set (fulfilled (fst (retry_stream_reads reads p)))"
  proof (induction reads arbitrary: p)
    case (Cons x xs)
    obtain p1 rs r where p1: "read_for (pending_requests x) p = (p1, rs, r)" by (metis prod_cases3)
    have "fulfilled p1 = fulfilled p" using bookkeeping_eqs(5) [OF read_for_bookkeeping [OF p1]] .
    with p1 Cons.IH [of p1] Cons.IH [of "respond (read_task x) _ p1"] show ?case
      by (cases r) (auto split: prod.splits)
  qed simp
  show "set (fulfilled p) \<subseteq> set (fulfilled (fst (retry_waits waits p)))"
  proof (induction waits arbitrary: p)
    case (Cons x xs)
    obtain p1 m where p1: "count_acknowledged_replicas (target_offset x) p = (p1, m)" by fastforce
    then have "fulfilled p1 = fulfilled p" by (auto simp: count_acknowledged_replicas_def)
    with p1 Cons.IH [of p1] Cons.IH [of "respond (wait_task x) _ p1"] show ?case by (auto split: prod.splits)
  qed simp
  show "set (fulfilled p) \<subseteq> set (fulfilled (fst (expire_waits now waits p)))"
  proof (induction waits arbitrary: p)
    case (Cons x xs)
    obtain p1 m where p1: "count_acknowledged_replicas (target_offset x) p = (p1, m)" by fastforce
    then have "fulfilled p1 = fulfilled p" by (auto simp: count_acknowledged_replicas_def)
    with p1 Cons.IH [of p] Cons.IH [of "respond (wait_task x) _ p1"] show ?case by (auto split: prod.splits)
  qed simp
qed

lemma fulfilled_after: "set (fulfilled p) \<subseteq> set (fulfilled (expire_all (retry_all p)))"
proof -
  have 1: "set (fulfilled p) \<subseteq> set (fulfilled (retry_pending_list_pops p))" for p
    using fulfilled_grows(1) [of p "pending_list_pops p"] by (auto simp: retry_pending_list_pops_def split: prod.splits)
  have 2: "set (fulfilled p) \<subseteq> set (fulfilled (retry_pending_stream_reads p))" for p
    using fulfilled_grows(2) [of p "pending_stream_reads p"] by (auto simp: retry_pending_stream_reads_def split: prod.splits)
  have 3: "set (fulfilled p) \<subseteq> set (fulfilled (retry_pending_waits p))" for p
    using fulfilled_grows(3) [of p "pending_waits p"] by (auto simp: retry_pending_waits_def split: prod.splits)
  have 4: "set (fulfilled p) \<subseteq> set (fulfilled (expire_pending_waits p))" for p
    using fulfilled_grows(4) [of p "steady_clock (current_env p) 0" "pending_waits p"]
    by (auto simp: expire_pending_waits_def split: prod.splits)
  have 5: "set (fulfilled p) \<subseteq> set (fulfilled (expire_pending_stream_reads (expire_pending_list_pops p)))" for p
    by (auto simp: expire_pending_stream_reads_def expire_pending_list_pops_def Let_def)
  show ?thesis unfolding retry_all_def expire_all_def using 1 2 3 4 5 by (meson subset_trans)
qed

text \<open>Promises are numbered in the order of the submissions, and each is fulfilled once or outstanding.\<close>

definition orderly :: "processor \<Rightarrow> bool" where
  "orderly p \<longleftrightarrow> accounted p = mset [0..<next_promise p]"

lemma orderly_lookup:
  assumes "orderly p" "(q, r) \<in> set (fulfilled p)"
  shows "map_of (fulfilled p) q = Some r"
proof (rule map_of_is_SomeI [OF _ assms(2)])
  obtain qs where "mset qs = outstanding p" using ex_mset [of "outstanding p"] by blast
  then have "mset (qs @ map fst (fulfilled p)) = mset [0..<next_promise p]"
    using assms(1) by (simp add: orderly_def accounted_def answered_def)
  from mset_eq_imp_distinct_iff [OF this] show "distinct (map fst (fulfilled p))" by simp
qed

lemma orderly_fresh:
  assumes "orderly p"
  shows "map_of (fulfilled p) (next_promise p) = None"
proof -
  have "count (accounted p) (next_promise p) = 0" using assms by (simp add: orderly_def count_upt)
  then have "next_promise p \<notin> set (map fst (fulfilled p))"
    by (auto simp: accounted_def answered_def count_eq_zero_iff)
  then show ?thesis by (simp add: map_of_eq_None_iff)
qed

lemma await_submitted:
  assumes "tasks p = []" "orderly p" "process (new_task (next_promise p)) (p\<lparr>next_promise := Suc (next_promise p)\<rparr>) = Some p1"
    and "(next_promise p, r) \<in> set (fulfilled p1)" "promise_of (new_task (next_promise p)) = next_promise p"
  shows "await_worker (Suc n) (next_promise p) (fst (submit_task new_task p)) = (expire_all (retry_all p1), Some r)"
    and "orderly (expire_all (retry_all p1))"
proof -
  let ?q = "next_promise p" and ?s = "fst (submit_task new_task p)"
  have t: "tasks ?s = [new_task ?q]" "fulfilled ?s = fulfilled p" "next_promise ?s = Suc ?q" "?s\<lparr>tasks := []\<rparr> = p\<lparr>next_promise := Suc ?q\<rparr>"
    using assms(1) by (simp_all add: submit_task_def)
  have run: "run_iteration ?s = Some (expire_all (retry_all p1))" using t assms(3) by (simp add: run_iteration_def)
  have "orderly ?s" using submit_task_accounted [of new_task] assms(2,5) by (simp add: orderly_def submit_task_def accounting)
  then show o: "orderly (expire_all (retry_all p1))"
    using run_iteration_accounted [OF run] fixed_partD(1) [OF run_iteration_fixed [OF run]] by (simp add: orderly_def)
  have "(?q, r) \<in> set (fulfilled (expire_all (retry_all p1)))" using assms(4) fulfilled_after by blast
  from orderly_lookup [OF o this] run t orderly_fresh [OF assms(2)]
  show "await_worker (Suc n) ?q ?s = (expire_all (retry_all p1), Some r)"
    by (simp add: await_worker.simps [of "Suc n"]) (simp add: await_worker.simps)
qed

end
