(* ===== verification/Connections.thy ===== *)
theory Connections
  imports Replication_Stream
begin

text \<open>
  The threads of the server that serve connections (\<open>server.cpp\<close>): \<open>handle_connection\<close> for a client, and
  \<open>run_replica_connection\<close> with its sender thread for a replica.

  A thread waits in three places: for the processor (\<open>future_get\<close>), for \<open>recv\<close> and for \<open>poll\<close>. What the other
  threads do meanwhile is part of the argument \<open>future_get\<close>, and comes with the result of a \<open>poll\<close>.
\<close>

section \<open>The sender of a replica\<close>

text \<open>After \<open>shutdown\<close> the socket reports the end of the stream and takes no more bytes.\<close>

definition shutdown_socket :: "connection \<Rightarrow> connection" where
  "shutdown_socket c = c\<lparr>recv_results := [Received []], send_results := [SendError ''Broken pipe'']\<rparr>"

text \<open>The sender runs until it waits for a frame or for the socket (\<open>False\<close>), or ends (\<open>True\<close>).\<close>

function send_replication_frames :: "bool \<Rightarrow> replica_session \<Rightarrow> connection \<Rightarrow> replica_session \<times> connection \<times> bool" where
  "send_replication_frames stop s c =
     (case wait_for_frame stop s of
        None \<Rightarrow> (s, c, False)
      | Some (s1, None) \<Rightarrow> (s1, c, True)
      | Some (s1, Some frame) \<Rightarrow>
          (case send_bytes (payload frame) c of
             (c1, Some (Inr _)) \<Rightarrow> send_replication_frames stop s1 c1
           | (c1, Some (Inl _)) \<Rightarrow> (close_session s1, shutdown_socket c1, True)
           | (c1, None) \<Rightarrow> (s1, c1, False)))"
  by pat_completeness auto
termination
  by (relation "measure (\<lambda>(stop, s, c). length (replica_frames s))")
    (auto simp: wait_for_frame_def split: if_splits list.splits)

declare send_replication_frames.simps [simp del]

text \<open>The step of the sender in the state of the server: it works on the session's object.\<close>

definition sender_runs :: "ref \<Rightarrow> processor \<times> connection \<Rightarrow> processor \<times> connection" where
  "sender_runs r s =
     (case s of
        (p, c) \<Rightarrow>
          (case replica_heap p r of
             None \<Rightarrow> (p, c)
           | Some session \<Rightarrow>
               (case send_replication_frames False session c of
                  (session1, c1, _) \<Rightarrow> (p\<lparr>replica_heap := (replica_heap p)(r \<mapsto> session1)\<rparr>, c1))))"

section \<open>Acknowledgements\<close>

definition acknowledge_command ::
  "future_get \<Rightarrow> client_id \<Rightarrow> command \<Rightarrow> nat \<Rightarrow> processor \<times> connection \<Rightarrow> (processor \<times> connection) \<times> (string + unit) option verdict" where
  "acknowledge_command get client command consumed s =
     (case s of
        (p, c) \<Rightarrow>
          if length command \<noteq> 3 \<or> command ! 0 \<noteq> ''REPLCONF'' \<or> command ! 1 \<noteq> ''ACK''
          then (s, Leave (Some (Inl ''Expected REPLCONF ACK from replica'')))
          else
            (case from_chars_unsigned 64 (command ! 2) of
               (end_, error, v) \<Rightarrow>
                 if command ! 2 = [] \<or> error \<noteq> errc_ok \<or> end_ \<noteq> []
                 then (s, Leave (Some (Inl ''Invalid replication offset in replica ACK'')))
                 else
                   (case acknowledge_replica client (of_nat v) p of
                      (p1, q) \<Rightarrow>
                        (case get q p1 of
                           (p2, None) \<Rightarrow> ((p2, c), Leave None)
                         | (p2, Some _) \<Rightarrow> ((p2, c), Proceed)))))"

text \<open>The inner loop of \<open>consume_replica_acknowledgements\<close>, over the commands in the buffer.\<close>

definition acknowledge_buffered ::
  "future_get \<Rightarrow> client_id \<Rightarrow> processor \<times> connection \<Rightarrow> (processor \<times> connection) \<times> (string + unit) option verdict" where
  "acknowledge_buffered get client s =
     (case command_loop (\<lambda>s. (s, Proceed)) (\<lambda>msg. Some (Inl (''Invalid response from replica: '' @ msg)))
        (acknowledge_command get client) (input_buffer (snd s)) s of
        (buffer, (p, c), v) \<Rightarrow> ((p, c\<lparr>input_buffer := buffer\<rparr>), v))"

lemma send_bytes_recv [simp]: "recv_results (fst (send_bytes bytes c)) = recv_results c"
  by (simp add: send_bytes_def split: prod.splits)

lemma acknowledge_buffered_receives:
  assumes "acknowledge_buffered get client s = ((p, c), w)"
  shows "recv_results c = recv_results (snd s)"
proof -
  obtain buffer s' v where l: "command_loop (\<lambda>s. (s, Proceed)) (\<lambda>msg. Some (Inl (''Invalid response from replica: '' @ msg)))
      (acknowledge_command get client) (input_buffer (snd s)) s = (buffer, s', v)" by (metis prod_cases3)
  have "recv_results (snd s') = recv_results (snd s)"
    by (rule command_loop_invariant [of "\<lambda>s. (s, Proceed)" "\<lambda>t. recv_results (snd t) = recv_results (snd s)", OF _ _ l])
      (auto simp: acknowledge_command_def split: prod.splits if_splits option.splits)
  with l assms show ?thesis by (cases s') (auto simp: acknowledge_buffered_def)
qed

lemma send_replication_frames_receives:
  "send_replication_frames stop s c = (s', c', ended) \<Longrightarrow> recv_results c' = recv_results c \<or> recv_results c' = [Received []]"
proof (induction stop s c rule: send_replication_frames.induct)
  case (1 stop s c)
  show ?case
  proof (cases "wait_for_frame stop s")
    case None
    with 1(2) show ?thesis by (simp add: send_replication_frames.simps [of stop s])
  next
    case (Some x)
    obtain s1 f where x: "x = (s1, f)" by fastforce
    show ?thesis
    proof (cases f)
      case None
      with 1(2) Some x show ?thesis by (simp add: send_replication_frames.simps [of stop s])
    next
      case f: (Some frame)
      obtain c1 r where c1: "send_bytes (payload frame) c = (c1, r)" by fastforce
      then have k: "recv_results c1 = recv_results c" using send_bytes_recv [of "payload frame" c] by simp
      consider "r = None" | e where "r = Some (Inl e)" | "r = Some (Inr ())" by (cases r) (auto split: sum.splits, metis old.unit.exhaust sum.exhaust)
      then show ?thesis
      proof cases
        case 3
        with 1(1) [OF Some x [symmetric] f c1 [symmetric] 3 refl] 1(2) Some x f c1 k show ?thesis by (simp add: send_replication_frames.simps [of stop s])
      qed (use 1(2) Some x f c1 k in \<open>auto simp: send_replication_frames.simps [of stop s] shutdown_socket_def\<close>)
    qed
  qed
qed

lemma sender_runs_receives:
  "sender_runs r s = (p, c) \<Longrightarrow> recv_results c = recv_results (snd s) \<or> recv_results c = [Received []]"
  using send_replication_frames_receives
  by (auto simp: sender_runs_def split: prod.splits option.splits)

text \<open>
  The outer loop. While it waits in \<open>recv\<close> the sender of the connection runs, on the session \<open>r\<close>; the two share
  nothing but the socket, of which each uses one direction, until the sender fails and shuts it down.
\<close>

function consume_replica_acknowledgements ::
  "future_get \<Rightarrow> client_id \<Rightarrow> ref \<Rightarrow> processor \<times> connection \<Rightarrow> (processor \<times> connection) \<times> (string + unit) option" where
  "consume_replica_acknowledgements get client r s =
     (case stop_requested (snd s) of
        (c0, stop) \<Rightarrow>
          if stop then ((fst s, c0), Some (Inr ()))
          else
            (case sender_runs r (fst s, c0) of
               (p, c) \<Rightarrow>
                 (case recv_results c of
                    [] \<Rightarrow> ((p, c), None)
                  | x # rest \<Rightarrow>
                      let c1 = c\<lparr>recv_results := rest\<rparr> in
                      (case x of
                         RecvInterrupted \<Rightarrow> consume_replica_acknowledgements get client r (p, c1)
                       | RecvError \<Rightarrow> unless_stopped ''Failed to read replica acknowledgement'' (p, c1)
                       | Received bytes \<Rightarrow>
                           if bytes = [] then ((p, c1), Some (Inl ''Replica closed the connection''))
                           else
                             (case acknowledge_buffered get client (p, c1\<lparr>input_buffer := input_buffer c1 @ bytes\<rparr>) of
                                ((p2, c2), Proceed) \<Rightarrow> consume_replica_acknowledgements get client r (p2, c2)
                              | (s2, Leave result) \<Rightarrow> (s2, result)
                              | (s2, EraseAndLeave result) \<Rightarrow> (s2, result))))))"
  by pat_completeness auto
termination
  by (relation "measure (\<lambda>(get, client, r, s). length (filter (\<lambda>x. x \<noteq> Received []) (recv_results (snd s))))")
    (auto simp: stop_requested_def dest!: sender_runs_receives [OF sym] acknowledge_buffered_receives [OF sym])

declare consume_replica_acknowledgements.simps [simp del]

text \<open>
  The acknowledgements are consumed under the stop token of the sender, of which a stop is requested only
  afterwards. The session is found by its reference; the shared pointer in the registration keeps it alive.
\<close>

definition close_replica_session :: "ref \<Rightarrow> processor \<Rightarrow> processor" where
  "close_replica_session r p = p\<lparr>replica_heap := (replica_heap p)(r := map_option close_session (replica_heap p r))\<rparr>"

text \<open>The end of the function drops the last shared pointer to the session; the processor's pointer is weak.\<close>

definition release_replica_session :: "ref \<Rightarrow> processor \<Rightarrow> processor" where
  "release_replica_session r p = p\<lparr>replica_heap := (replica_heap p)(r := None)\<rparr>"

definition run_replica_connection ::
  "future_get \<Rightarrow> client_id \<Rightarrow> replica_registration \<Rightarrow> processor \<times> connection \<Rightarrow> (processor \<times> connection) \<times> (string + unit) option" where
  "run_replica_connection get client registration s =
     (case s of
        (p, c) \<Rightarrow>
          let r = registration_session registration in
          (case send_full_resync registration c of
             (c1, None) \<Rightarrow> ((p, c1), None)
           | (c1, Some (Inl e)) \<Rightarrow> ((release_replica_session r (close_replica_session r p), c1), Some (Inl e))
           | (c1, Some (Inr _)) \<Rightarrow>
               (case consume_replica_acknowledgements get client r
                  (p, c1\<lparr>input_buffer := [], stop_requests := \<lambda>_. False, stop_checks := 0\<rparr>) of
                  ((p2, c2), None) \<Rightarrow> ((p2, c2), None)
                | ((p2, c2), Some result) \<Rightarrow>
                    ((release_replica_session r (close_replica_session r p2),
                      shutdown_socket (c2\<lparr>stop_requests := stop_requests c1, stop_checks := stop_checks c1\<rparr>)),
                     Some result))))"

section \<open>Clients\<close>

text \<open>The state of the thread of a client: the server's processor, the socket, and the object of its session.\<close>

record client_thread =
  server_processor :: processor
  socket :: connection
  session :: ref
  clear_io :: "nat \<Rightarrow> write_outcome"
  clear_calls :: nat

text \<open>The frames that wait in a session; the thread takes one after the other until the queue is empty.\<close>

function send_session_frames :: "pubsub_session \<Rightarrow> connection \<Rightarrow> pubsub_session \<times> connection \<times> (string + unit) option" where
  "send_session_frames s c =
     (case pop_frame s of
        (s1, None) \<Rightarrow> (s1, c, Some (Inr ()))
      | (s1, Some frame) \<Rightarrow>
          (case send_bytes frame c of
             (c1, Some (Inr _)) \<Rightarrow> send_session_frames s1 c1
           | (c1, r) \<Rightarrow> (s1, c1, r)))"
  by pat_completeness auto
termination
  by (relation "measure (\<lambda>(s, c). length (pending_frames s))") (auto simp: pop_frame_def split: list.splits)

declare send_session_frames.simps [simp del]

definition send_pending_pubsub_frames :: "client_thread \<Rightarrow> client_thread \<times> (string + unit) option" where
  "send_pending_pubsub_frames th =
     (let p = server_processor th; th1 = th\<lparr>clear_calls := Suc (clear_calls th)\<rparr> in
      case pubsub_heap p (session th) of
        None \<Rightarrow> (th, Some (Inr ()))
      | Some s \<Rightarrow>
          (case clear_notification (clear_io th (clear_calls th)) s of
             (s1, Inl e) \<Rightarrow> (th1\<lparr>server_processor := p\<lparr>pubsub_heap := (pubsub_heap p)(session th \<mapsto> s1)\<rparr>\<rparr>, Some (Inl e))
           | (s1, Inr _) \<Rightarrow>
               (case send_session_frames s1 (socket th) of
                  (s2, c, r) \<Rightarrow>
                    (th1\<lparr>server_processor := p\<lparr>pubsub_heap := (pubsub_heap p)(session th \<mapsto> s2)\<rparr>, socket := c\<rparr>, r))))"

text \<open>
  How the inner loop is left: the thread waits for ever, it was asked to stop, the connection is to be
  closed, or the function returns because the connection became a replica's.
\<close>

datatype leaving = Waiting | StopSeen | ConnectionClosed | Returned

definition get_in :: "future_get \<Rightarrow> (processor \<Rightarrow> processor \<times> promise) \<Rightarrow> client_thread \<Rightarrow> client_thread \<times> result option" where
  "get_in get request th =
     (case request (server_processor th) of
        (p1, q) \<Rightarrow> (case get q p1 of (p2, r) \<Rightarrow> (th\<lparr>server_processor := p2\<rparr>, r)))"

definition become_replica :: "future_get \<Rightarrow> client_id \<Rightarrow> client_thread \<Rightarrow> client_thread \<times> leaving verdict" where
  "become_replica get client th =
     (case get_in get (unregister_client client) th of
        (th1, None) \<Rightarrow> (th1, Leave Waiting)
      | (th1, Some _) \<Rightarrow>
          (case get_in get (register_replica client) th1 of
             (th2, Some (Registered registration)) \<Rightarrow>
               (case run_replica_connection get client registration (server_processor th2, socket th2) of
                  ((p3, c3), None) \<Rightarrow> (th2\<lparr>server_processor := p3, socket := c3\<rparr>, Leave Waiting)
                | ((p3, c3), Some _) \<Rightarrow>
                    (case get_in get (unregister_client client) (th2\<lparr>server_processor := p3, socket := c3\<rparr>) of
                       (th4, None) \<Rightarrow> (th4, Leave Waiting)
                     | (th4, Some _) \<Rightarrow> (th4, Leave Returned)))
           | (th2, _) \<Rightarrow> (th2, Leave Waiting)))"

definition check_stop :: "client_thread \<Rightarrow> client_thread \<times> bool" where
  "check_stop th = (case stop_requested (socket th) of (c, stop) \<Rightarrow> (th\<lparr>socket := c\<rparr>, stop))"

definition send_response :: "response \<Rightarrow> client_thread \<Rightarrow> client_thread \<times> leaving verdict" where
  "send_response response th =
     (case send_bytes (serialize_response response) (socket th) of
        (c1, None) \<Rightarrow> (th\<lparr>socket := c1\<rparr>, Leave Waiting)
      | (c1, Some (Inl _)) \<Rightarrow> (th\<lparr>socket := c1\<rparr>, Leave ConnectionClosed)
      | (c1, Some (Inr _)) \<Rightarrow>
          if response = NoResponse then
            (case send_pending_pubsub_frames (th\<lparr>socket := c1\<rparr>) of
               (th1, None) \<Rightarrow> (th1, EraseAndLeave Waiting)
             | (th1, Some (Inl _)) \<Rightarrow> (th1, EraseAndLeave ConnectionClosed)
             | (th1, Some (Inr _)) \<Rightarrow> (th1, Proceed))
          else (th\<lparr>socket := c1\<rparr>, Proceed))"

definition serve_command :: "future_get \<Rightarrow> client_id \<Rightarrow> command \<Rightarrow> nat \<Rightarrow> client_thread \<Rightarrow> client_thread \<times> leaving verdict" where
  "serve_command get client command consumed th =
     (if length command = 3 \<and> hd command = ''PSYNC'' then become_replica get client th
      else
        (case get_in get (submit client command) th of
           (th1, Some (Responded response)) \<Rightarrow>
             (case check_stop th1 of
                (th2, True) \<Rightarrow> (th2, Leave ConnectionClosed)
              | (th2, False) \<Rightarrow> send_response response th2)
         | (th1, _) \<Rightarrow> (th1, Leave Waiting)))"

definition stop_guard :: "client_thread \<Rightarrow> client_thread \<times> leaving verdict" where
  "stop_guard th = (case check_stop th of (th1, stop) \<Rightarrow> (th1, if stop then Leave StopSeen else Proceed))"

definition serve_buffered :: "future_get \<Rightarrow> client_id \<Rightarrow> client_thread \<Rightarrow> client_thread \<times> leaving verdict" where
  "serve_buffered get client th =
     (case command_loop stop_guard (\<lambda>_. ConnectionClosed) (serve_command get client) (input_buffer (socket th)) th of
        (buffer, th1, v) \<Rightarrow> (th1\<lparr>socket := (socket th1)\<lparr>input_buffer := buffer\<rparr>\<rparr>, v))"

text \<open>
  The result of a \<open>poll\<close> over the socket and the session's descriptor: for each, whether it can be read and
  whether it is broken. It comes with what the other threads did to the processor during the wait.
\<close>

record poll_events =
  readable :: bool
  broken :: bool

datatype poll_result = PollInterrupted | PollFailed | Polled poll_events poll_events

type_synonym poll = "(processor \<Rightarrow> processor) \<times> poll_result"

text \<open>The part of an iteration behind the frames of the session: receiving and serving.\<close>

definition receive_and_serve :: "future_get \<Rightarrow> client_id \<Rightarrow> client_thread \<Rightarrow> client_thread \<times> leaving verdict" where
  "receive_and_serve get client th =
     (case recv_results (socket th) of
        [] \<Rightarrow> (th, Leave Waiting)
      | r # rs \<Rightarrow>
          let c = (socket th)\<lparr>recv_results := rs\<rparr> in
          (case r of
             Received bytes \<Rightarrow>
               if bytes = [] then (th\<lparr>socket := c\<rparr>, Leave ConnectionClosed)
               else serve_buffered get client (th\<lparr>socket := c\<lparr>input_buffer := input_buffer c @ bytes\<rparr>\<rparr>)
           | _ \<Rightarrow> (th\<lparr>socket := c\<rparr>, Leave ConnectionClosed)))"

definition serve_poll :: "future_get \<Rightarrow> client_id \<Rightarrow> poll_result \<Rightarrow> client_thread \<Rightarrow> client_thread \<times> leaving verdict" where
  "serve_poll get client result th =
     (case result of
        PollInterrupted \<Rightarrow> (th, Proceed)
      | PollFailed \<Rightarrow> (th, Leave ConnectionClosed)
      | Polled client_events session_events \<Rightarrow>
          (case (if readable session_events then send_pending_pubsub_frames th else (th, Some (Inr ()))) of
             (th1, None) \<Rightarrow> (th1, Leave Waiting)
           | (th1, Some (Inl _)) \<Rightarrow> (th1, Leave ConnectionClosed)
           | (th1, Some (Inr _)) \<Rightarrow>
               if broken session_events then (th1, Leave ConnectionClosed)
               else if \<not> readable client_events then (th1, if broken client_events then Leave ConnectionClosed else Proceed)
               else
                 (case receive_and_serve get client th1 of
                    (th2, Proceed) \<Rightarrow> (th2, if broken client_events then Leave ConnectionClosed else Proceed)
                  | (th2, Leave StopSeen) \<Rightarrow> (th2, if broken client_events then Leave ConnectionClosed else Proceed)
                  | (th2, v) \<Rightarrow> (th2, v))))"

fun connection_loop :: "future_get \<Rightarrow> client_id \<Rightarrow> poll list \<Rightarrow> client_thread \<Rightarrow> client_thread \<times> leaving" where
  "connection_loop get client [] th =
     (case check_stop th of (th0, stop) \<Rightarrow> (th0, if stop then ConnectionClosed else Waiting))"
| "connection_loop get client ((others, result) # polls) th =
     (case check_stop th of
        (th0, True) \<Rightarrow> (th0, ConnectionClosed)
      | (th0, False) \<Rightarrow>
          (case serve_poll get client result (th0\<lparr>server_processor := others (server_processor th0)\<rparr>) of
             (th1, Proceed) \<Rightarrow> connection_loop get client polls th1
           | (th1, Leave why) \<Rightarrow> (th1, why)
           | (th1, EraseAndLeave why) \<Rightarrow> (th1, why)))"

text \<open>
  The whole thread. The session is created first, with the address \<open>r\<close>; creating its descriptor may fail. It
  is dropped when the function returns, and the processor, whose pointer to it is weak, finds it gone. The
  result says whether the function returned.
\<close>

definition release_session :: "ref \<Rightarrow> processor \<Rightarrow> processor" where
  "release_session r p = p\<lparr>pubsub_heap := (pubsub_heap p)(r := None)\<rparr>"

definition leave_connection :: "future_get \<Rightarrow> client_id \<Rightarrow> ref \<Rightarrow> client_thread \<Rightarrow> processor \<times> connection \<times> bool" where
  "leave_connection get client r th =
     (case get_in get (unregister_client client) th of
        (th', None) \<Rightarrow> (server_processor th', socket th', False)
      | (th', Some _) \<Rightarrow> (release_session r (server_processor th'), socket th', True))"

definition handle_connection ::
  "future_get \<Rightarrow> client_id \<Rightarrow> ref \<Rightarrow> string + (nat \<Rightarrow> write_outcome) \<Rightarrow> (nat \<Rightarrow> write_outcome) \<Rightarrow> poll list \<Rightarrow> connection \<Rightarrow>
    processor \<Rightarrow> processor \<times> connection \<times> bool" where
  "handle_connection get client r created clears polls c p =
     (case created of
        Inl e \<Rightarrow> (p, c, True)
      | Inr outcomes \<Rightarrow>
          let th = \<lparr>server_processor = p\<lparr>pubsub_heap := (pubsub_heap p)(r \<mapsto> new_session outcomes)\<rparr>,
                    socket = c\<lparr>input_buffer := []\<rparr>, session = r, clear_io = clears, clear_calls = 0\<rparr>
          in
          (case get_in get (register_client client r) th of
             (th1, None) \<Rightarrow> (server_processor th1, socket th1, False)
           | (th1, Some _) \<Rightarrow>
               (case check_stop th1 of
                  (th2, True) \<Rightarrow> leave_connection get client r th2
                | (th2, False) \<Rightarrow>
                    (case connection_loop get client polls th2 of
                       (th3, Waiting) \<Rightarrow> (server_processor th3, socket th3, False)
                     | (th3, Returned) \<Rightarrow> (release_session r (server_processor th3), socket th3, True)
                     | (th3, _) \<Rightarrow> leave_connection get client r th3))))"

end
