(* ===== verification/Server.thy ===== *)
theory Server
  imports Connections
begin

text \<open>
  The server as a whole (\<open>server.cpp\<close>, \<open>server.hpp\<close>) and the main function (\<open>main.cpp\<close>): the start, the loop that
  accepts connections, the bookkeeping of their threads, and the stop.

  A descriptor is a natural number, and \<open>None\<close> stands for \<open>-1\<close>. The calls that open, shut down and close a
  descriptor are recorded in the order in which they are made. What the operating system answers is an argument; so is what
  other threads do while one waits. Messages on the standard error stream are left out.
\<close>

section \<open>The state\<close>

type_synonym descriptor = nat

datatype descriptor_call = Opened descriptor | Shutdown descriptor | Closed descriptor

record connection_worker =
  worker_client :: client_id
  worker_socket :: "descriptor option"
  worker_finished :: bool
  worker_stopped :: bool

record tcp_server =
  configuration :: server_config
  next_client_id :: u64
  server_fd :: "descriptor option"
  command_processor :: processor
  master_fd :: "descriptor option"
  replication_joinable :: bool
  replication_stopped :: bool
  stopping :: bool
  connection_workers :: "connection_worker list"
  descriptor_calls :: "descriptor_call list"

definition new_server :: "world \<Rightarrow> (nat \<Rightarrow> nat) \<Rightarrow> server_config \<Rightarrow> tcp_server" where
  "new_server w distribution config =
     \<lparr>configuration = config, next_client_id = 1, server_fd = None,
      command_processor = new_processor w distribution (replica_of config) (config_rdb config) (config_aof config)
        (default_user_password_hash config),
      master_fd = None, replication_joinable = False, replication_stopped = False, stopping = False,
      connection_workers = [], descriptor_calls = []\<rparr>"

definition called :: "descriptor_call list \<Rightarrow> tcp_server \<Rightarrow> tcp_server" where
  "called cs s = s\<lparr>descriptor_calls := descriptor_calls s @ cs\<rparr>"

definition on_descriptor :: "(descriptor \<Rightarrow> descriptor_call) \<Rightarrow> descriptor option \<Rightarrow> descriptor_call list" where
  "on_descriptor f d = (case d of None \<Rightarrow> [] | Some fd \<Rightarrow> [f fd])"

section \<open>The threads of connections\<close>

definition start_connection :: "descriptor \<Rightarrow> client_id \<Rightarrow> tcp_server \<Rightarrow> tcp_server" where
  "start_connection socket_fd client s =
     (if stopping s then called [Closed socket_fd] s
      else s\<lparr>connection_workers := connection_workers s @
        [\<lparr>worker_client = client, worker_socket = Some socket_fd, worker_finished = False, worker_stopped = False\<rparr>]\<rparr>)"

text \<open>What the thread does after \<open>handle_connection\<close> has returned.\<close>

definition worker_returns :: "client_id \<Rightarrow> tcp_server \<Rightarrow> tcp_server" where
  "worker_returns client s =
     called
       (concat (map (\<lambda>w. if worker_client w = client then on_descriptor Closed (worker_socket w) else []) (connection_workers s)))
       (s\<lparr>connection_workers :=
          map (\<lambda>w. if worker_client w = client then w\<lparr>worker_socket := None, worker_finished := True\<rparr> else w)
            (connection_workers s)\<rparr>)"

definition reap_completed_connections :: "tcp_server \<Rightarrow> tcp_server" where
  "reap_completed_connections s = s\<lparr>connection_workers := filter (\<lambda>w. \<not> worker_finished w) (connection_workers s)\<rparr>"

text \<open>The first block of \<open>stop_connection_workers\<close>, under the lock, with the clients that are still active.\<close>

definition signal_workers :: "tcp_server \<Rightarrow> tcp_server \<times> client_id list" where
  "signal_workers s =
     (called (concat (map (\<lambda>w. on_descriptor Shutdown (worker_socket w)) (connection_workers s)))
        (s\<lparr>connection_workers := map (\<lambda>w. w\<lparr>worker_stopped := True\<rparr>) (connection_workers s)\<rparr>),
      map worker_client (filter (\<lambda>w. \<not> worker_finished w) (connection_workers s)))"

fun unregister_all :: "client_id list \<Rightarrow> processor \<Rightarrow> processor \<times> promise list" where
  "unregister_all [] p = (p, [])"
| "unregister_all (client # ids) p =
     (case unregister_client client p of
        (p1, q) \<Rightarrow> (case unregister_all ids p1 of (p2, qs) \<Rightarrow> (p2, q # qs)))"

fun get_all :: "future_get \<Rightarrow> promise list \<Rightarrow> processor \<Rightarrow> processor option" where
  "get_all get [] p = Some p"
| "get_all get (q # qs) p =
     (case get q p of
        (p1, None) \<Rightarrow> None
      | (p1, Some _) \<Rightarrow> get_all get qs p1)"

text \<open>
  Joining waits until the thread has returned: the argument says how the processor has changed by then, and is \<open>None\<close>
  for a thread that does not return.
\<close>

type_synonym join = "client_id \<Rightarrow> processor \<Rightarrow> processor option"

fun join_workers :: "join \<Rightarrow> client_id list \<Rightarrow> tcp_server \<Rightarrow> tcp_server option" where
  "join_workers join [] s = Some s"
| "join_workers join (client # ids) s =
     (case join client (command_processor s) of
        None \<Rightarrow> None
      | Some p \<Rightarrow> join_workers join ids (worker_returns client (s\<lparr>command_processor := p\<rparr>)))"

definition clear_workers :: "tcp_server \<Rightarrow> tcp_server" where
  "clear_workers s = s\<lparr>connection_workers := []\<rparr>"

definition stop_connection_workers :: "future_get \<Rightarrow> join \<Rightarrow> tcp_server \<Rightarrow> tcp_server option" where
  "stop_connection_workers get join s =
     (case signal_workers s of
        (s1, active_client_ids) \<Rightarrow>
          (case unregister_all active_client_ids (command_processor s1) of
             (p1, cancellation_results) \<Rightarrow>
               (case get_all get cancellation_results p1 of
                  None \<Rightarrow> None
                | Some p2 \<Rightarrow>
                    map_option clear_workers
                      (join_workers join (map worker_client (connection_workers s1)) (s1\<lparr>command_processor := p2\<rparr>)))))"

section \<open>Stopping\<close>

text \<open>The part of \<open>stop\<close> before the threads of connections are stopped.\<close>

definition stop_begins :: "tcp_server \<Rightarrow> tcp_server" where
  "stop_begins s =
     (let s1 = called (on_descriptor Shutdown (server_fd s)) (s\<lparr>stopping := True\<rparr>) in
      if replication_joinable s1 then called (on_descriptor Shutdown (master_fd s1)) (s1\<lparr>replication_stopped := True\<rparr>)
      else s1)"

text \<open>
  What other threads do to the server while a thread waits and between its calls: a
  thread of a connection returns, the processor goes on, and the thread that waits for signals works its way
  through \<open>stop\<close>, which joins the threads of connections and then the one that follows the master.
\<close>

datatype server_event =
    WorkerReturned client_id
  | ProcessorRan "processor \<Rightarrow> processor"
  | StopBegun
  | WorkersSignalled
  | WorkersCleared
  | ReplicationJoined

definition server_event :: "server_event \<Rightarrow> tcp_server \<Rightarrow> tcp_server" where
  "server_event e s =
     (case e of
        WorkerReturned client \<Rightarrow> worker_returns client s
      | ProcessorRan f \<Rightarrow> s\<lparr>command_processor := f (command_processor s)\<rparr>
      | StopBegun \<Rightarrow> if stopping s then s else stop_begins s
      | WorkersSignalled \<Rightarrow> if stopping s then fst (signal_workers s) else s
      | WorkersCleared \<Rightarrow>
          if stopping s \<and> list_all worker_finished (connection_workers s) then clear_workers s else s
      | ReplicationJoined \<Rightarrow> if stopping s then s\<lparr>replication_joinable := False\<rparr> else s)"

definition server_events :: "server_event list \<Rightarrow> tcp_server \<Rightarrow> tcp_server" where
  "server_events es s = fold server_event es s"

text \<open>
  The stop mutex makes a second caller wait until the first one is done; what the other threads do until then is the
  argument \<open>waiting\<close>.
\<close>

definition stop_complete :: "tcp_server \<Rightarrow> bool" where
  "stop_complete s \<longleftrightarrow> stopping s \<and> connection_workers s = [] \<and> \<not> replication_joinable s"

definition stop ::
  "future_get \<Rightarrow> join \<Rightarrow> (processor \<Rightarrow> processor option) \<Rightarrow> server_event list \<Rightarrow> tcp_server \<Rightarrow> tcp_server option" where
  "stop get join join_replication waiting s =
     (if stopping s then
        let s1 = server_events waiting s in if stop_complete s1 then Some s1 else None
      else
        (case stop_connection_workers get join (stop_begins s) of
           None \<Rightarrow> None
         | Some s1 \<Rightarrow>
             if replication_joinable s1 then
               map_option (\<lambda>p. s1\<lparr>command_processor := p, replication_joinable := False\<rparr>)
                 (join_replication (command_processor s1))
             else Some s1))"

definition destroy_server :: "future_get \<Rightarrow> join \<Rightarrow> (processor \<Rightarrow> processor option) \<Rightarrow> tcp_server \<Rightarrow> tcp_server option" where
  "destroy_server get join join_replication s =
     map_option
       (\<lambda>s1. called (on_descriptor Closed (server_fd s1) @ on_descriptor Closed (master_fd s1))
          (s1\<lparr>server_fd := None, master_fd := None\<rparr>))
       (stop get join join_replication [] s)"

section \<open>Starting\<close>

text \<open>What \<open>socket\<close> and \<open>connect\<close> do for one address of the master.\<close>

datatype connect_attempt = NoSocket | Refused descriptor | Connected descriptor

fun try_addresses :: "connect_attempt list \<Rightarrow> descriptor_call list \<times> descriptor option" where
  "try_addresses [] = ([], None)"
| "try_addresses (NoSocket # attempts) = try_addresses attempts"
| "try_addresses (Refused fd # attempts) =
     (case try_addresses attempts of (cs, d) \<Rightarrow> (Opened fd # Closed fd # cs, d))"
| "try_addresses (Connected fd # attempts) = ([Opened fd], Some fd)"

definition connect_to_master ::
  "string + connect_attempt list \<Rightarrow> replica_config \<Rightarrow> tcp_server \<Rightarrow> tcp_server \<times> (string + descriptor)" where
  "connect_to_master addresses config s =
     (case addresses of
        Inl msg \<Rightarrow> (s, Inl (''Failed to resolve master address: '' @ msg))
      | Inr attempts \<Rightarrow>
          (case try_addresses attempts of
             (cs, None) \<Rightarrow>
               (called cs s, Inl (''Failed to connect to master '' @ host config @ '':'' @ dec_of_nat (replica_port config)))
           | (cs, Some fd) \<Rightarrow> (called cs s, Inr fd)))"

record listen_outcomes =
  listen_socket :: "descriptor option"
  reuse_set :: bool
  bound :: bool
  listening :: bool

definition setup_server :: "listen_outcomes \<Rightarrow> tcp_server \<Rightarrow> tcp_server \<times> (string + unit)" where
  "setup_server os s =
     (case listen_socket os of
        None \<Rightarrow> (s\<lparr>server_fd := None\<rparr>, Inl ''Failed to create server socket'')
      | Some fd \<Rightarrow>
          let opened = called [Opened fd] (s\<lparr>server_fd := Some fd\<rparr>);
              closed = called [Closed fd] (opened\<lparr>server_fd := None\<rparr>)
          in
          if \<not> reuse_set os then (closed, Inl ''setsockopt failed'')
          else if \<not> bound os then (closed, Inl ''Failed to bind to port 6379'')
          else if \<not> listening os then (closed, Inl ''listen failed'')
          else (opened, Inr ()))"

definition setup_replication :: "string + connect_attempt list \<Rightarrow> tcp_server \<Rightarrow> tcp_server \<times> (string + unit)" where
  "setup_replication addresses s =
     (case replica_of (configuration s) of
        None \<Rightarrow> (s, Inr ())
      | Some config \<Rightarrow>
          (case connect_to_master addresses config s of
             (s1, Inl e) \<Rightarrow> (s1, Inl e)
           | (s1, Inr fd) \<Rightarrow> (s1\<lparr>master_fd := Some fd\<rparr>, Inr ())))"

text \<open>The files at the start: for the log what opening and reading it meet, for the snapshot its contents.\<close>

record persistent_files =
  log_system :: aof_system
  log_opened :: time_point
  log_outcome :: log_read
  snapshot :: rdb_file
  reservable :: "nat \<Rightarrow> bool"

definition initialize_persistence ::
  "future_get \<Rightarrow> persistent_files \<Rightarrow> tcp_server \<Rightarrow> (tcp_server \<times> (string + unit)) option" where
  "initialize_persistence get files s =
     (let config = configuration s; directory = dir (config_rdb config) in
      if enabled (config_aof config) then
        (case open_aof (log_system files) (log_opened files) directory (config_aof config) of
           Inl e \<Rightarrow> Some (s, Inl e)
         | Inr file \<Rightarrow>
             (case read_commands (log_outcome files) file of
                Inl e \<Rightarrow> Some (s, Inl e)
              | Inr commands \<Rightarrow>
                  (case initialize_aof file commands (command_processor s) of
                     (p1, q) \<Rightarrow>
                       (case get q p1 of
                          (p2, Some (AofInitialized outcome)) \<Rightarrow> Some (s\<lparr>command_processor := p2\<rparr>, outcome)
                        | _ \<Rightarrow> None))))
      else
        (case read_file (reservable files) (path_append directory (db_filename (config_rdb config))) (snapshot files) of
           None \<Rightarrow> None
         | Some (Inl e) \<Rightarrow> Some (s, Inl e)
         | Some (Inr loaded) \<Rightarrow>
             (case load_rdb_entries loaded (command_processor s) of
                (p1, q) \<Rightarrow>
                  (case get q p1 of
                     (p2, None) \<Rightarrow> None
                   | (p2, Some _) \<Rightarrow> Some (s\<lparr>command_processor := p2\<rparr>, Inr ())))))"

section \<open>Accepting connections\<close>

datatype accept_result = AcceptInterrupted | AcceptFailed | Accepted descriptor

datatype listen_poll = ListenInterrupted | ListenFailed | ListenTimeout | ListenReady poll_events accept_result

text \<open>
  An iteration: what happens during \<open>poll\<close>, its result and that of \<open>accept\<close>, and what happens between \<open>accept\<close> and
  the start of the thread. The result says whether the loop has ended.
\<close>

type_synonym accept_iteration = "server_event list \<times> listen_poll \<times> server_event list"

fun run_connection_loop :: "accept_iteration list \<Rightarrow> tcp_server \<Rightarrow> tcp_server \<times> bool" where
  "run_connection_loop [] s = (s, stopping s)"
| "run_connection_loop ((meanwhile, result, before_start) # iterations) s =
     (if stopping s then (s, True)
      else
        let s1 = server_events meanwhile (reap_completed_connections s) in
        (case result of
           ListenInterrupted \<Rightarrow> run_connection_loop iterations s1
         | ListenFailed \<Rightarrow> (s1, True)
         | ListenTimeout \<Rightarrow> run_connection_loop iterations s1
         | ListenReady events accepted \<Rightarrow>
             if broken events then (s1, True)
             else if \<not> readable events then run_connection_loop iterations s1
             else
               (case accepted of
                  AcceptInterrupted \<Rightarrow> run_connection_loop iterations s1
                | AcceptFailed \<Rightarrow> (s1, True)
                | Accepted fd \<Rightarrow>
                    let s2 = called [Opened fd] s1; client = next_client_id s2 in
                    run_connection_loop iterations
                      (start_connection fd client (server_events before_start (s2\<lparr>next_client_id := client + 1\<rparr>))))))"

definition run ::
  "future_get \<Rightarrow> join \<Rightarrow> (processor \<Rightarrow> processor option) \<Rightarrow> accept_iteration list \<Rightarrow> server_event list \<Rightarrow>
    tcp_server \<Rightarrow> tcp_server option" where
  "run get join join_replication iterations waiting s =
     (case run_connection_loop iterations (if master_fd s = None then s else s\<lparr>replication_joinable := True\<rparr>) of
        (s1, False) \<Rightarrow> None
      | (s1, True) \<Rightarrow> stop get join join_replication waiting s1)"

section \<open>The main function\<close>

text \<open>
  The thread that waits for signals, with what it finds at each turn: whether it was asked to stop, and what
  \<open>sigtimedwait\<close> returns. The result says whether it calls \<open>stop\<close>.
\<close>

datatype signal_wait = SignalReceived | SignalTimeout | SignalError

fun signal_waiter :: "(bool \<times> signal_wait) list \<Rightarrow> bool" where
  "signal_waiter [] = False"
| "signal_waiter ((asked, result) # waits) =
     (if asked then False
      else
        (case result of
           SignalReceived \<Rightarrow> True
         | SignalTimeout \<Rightarrow> signal_waiter waits
         | SignalError \<Rightarrow> False))"

record startup =
  signal_mask_error :: "string option"
  current_directory :: "string + string"
  directory_status :: "string \<Rightarrow> file_status"
  digest :: "string \<Rightarrow> string option"
  arguments :: "string list"
  start_world :: world
  start_distribution :: "nat \<Rightarrow> nat"
  start_files :: persistent_files
  listen_results :: listen_outcomes
  master_addresses :: "string + connect_attempt list"

text \<open>
  The exit status and the server at the end, after its destructor has run; \<open>None\<close> if the function does not get that far,
  and no server if none was made.
\<close>

definition serve ::
  "future_get \<Rightarrow> join \<Rightarrow> (processor \<Rightarrow> processor option) \<Rightarrow> startup \<Rightarrow> accept_iteration list \<Rightarrow> server_event list \<Rightarrow> tcp_server \<Rightarrow> (int \<times> tcp_server) option" where
  "serve get join join_replication st iterations waiting s =
     (case initialize_persistence get (start_files st) s of
        None \<Rightarrow> None
      | Some (s1, Inl e) \<Rightarrow> Some (1, s1)
      | Some (s1, Inr _) \<Rightarrow>
          (case setup_server (listen_results st) s1 of
             (s2, Inl e) \<Rightarrow> Some (1, s2)
           | (s2, Inr _) \<Rightarrow>
               (case setup_replication (master_addresses st) s2 of
                  (s3, Inl e) \<Rightarrow> Some (1, s3)
                | (s3, Inr _) \<Rightarrow> map_option (\<lambda>s4. (0, s4)) (run get join join_replication iterations waiting s3))))"

definition main ::
  "future_get \<Rightarrow> join \<Rightarrow> (processor \<Rightarrow> processor option) \<Rightarrow> startup \<Rightarrow> accept_iteration list \<Rightarrow> server_event list \<Rightarrow> (int \<times> tcp_server option) option" where
  "main get join join_replication st iterations waiting =
     (case signal_mask_error st of
        Some msg \<Rightarrow> Some (1, None)
      | None \<Rightarrow>
          (case parse_server_arguments (current_directory st) (directory_status st) (digest st) (arguments st) of
             Inl e \<Rightarrow> Some (1, None)
           | Inr config \<Rightarrow>
               (case serve get join join_replication st iterations waiting (new_server (start_world st) (start_distribution st) config) of
                  None \<Rightarrow> None
                | Some (status, s) \<Rightarrow>
                    map_option (\<lambda>s1. (status, Some s1)) (destroy_server get join join_replication s))))"

end
