(* ===== verification/Replica.thy ===== *)
theory Replica
  imports Replication_Stream
begin

text \<open>
  A replica executes the stream of its master: the second consumer of the journal. The last theorem composes
  the master's processor, its backlog, the sockets, the parser and the replica's processor.
\<close>

section \<open>The processor of a replica\<close>

text \<open>A replica at an offset whose worker is idle; the client of the stream has the number zero.\<close>

definition replica_fit :: "u64 \<Rightarrow> store \<Rightarrow> processor \<Rightarrow> bool" where
  "replica_fit off s p \<longleftrightarrow> good p \<and> holds s p \<and> role (replication p) = ROLE_REPLICA \<and> offset (replication p) = off \<and>
     tasks p = [] \<and> pending_list_pops p = [] \<and> orderly p"

lemma await_fit:
  assumes "replica_fit off s p"
    and "process (new_task (next_promise p)) (p\<lparr>next_promise := Suc (next_promise p)\<rparr>) = Some p1"
    and "(next_promise p, r) \<in> set (fulfilled p1)" "promise_of (new_task (next_promise p)) = next_promise p"
    and "good p1" "holds s' p1" "tasks p1 = []" "pending_list_pops p1 = []" "offset (replication p1) = off'"
  shows "\<exists>p2. await_worker (Suc n) (next_promise p) (fst (submit_task new_task p)) = (p2, Some r) \<and>
    replica_fit off' s' p2 \<and> transaction_part p2 = transaction_part p1"
proof -
  let ?p2 = "expire_all (retry_all p1)"
  have t: "tasks p = []" "orderly p" "role (replication p) = ROLE_REPLICA" using assms(1) by (simp_all add: replica_fit_def)
  note w = await_submitted [of p new_task p1 r, OF t(1,2) assms(2-4)]
  have u: "unwritten p1 ?p2" by (rule retry_all_unwritten) (simp add: assms(8))
  note c = calm_unwritten [OF u assms(5)]
  have q: "quiet_part ?p2 = quiet_part p1" by simp
  have "role (replication p1) = ROLE_REPLICA" using fixed_partD(3) [OF conjunct1 [OF process_fixed [OF assms(2)]]] t(3) by simp
  moreover have "pending_list_pops ?p2 = []" using retry_all_pops [of p1] expire_all_pops [of "retry_all p1"] assms(8) by simp
  moreover have "holds s' ?p2" using c assms(6) by (simp add: calm_def holds_def)
  ultimately have "replica_fit off' s' ?p2"
    using u c calm_good [OF c assms(5)] assms(7,9) quiet_partD(2) [OF q] w(2) by (simp add: replica_fit_def unwritten_def)
  with w(1) quiet_partD(4) [OF q] show ?thesis by blast
qed

abbreviation master_task :: "command \<Rightarrow> nat \<Rightarrow> promise \<Rightarrow> task" where
  "master_task command bytes q \<equiv>
     \<lparr>task_client = 0, task_command = command, task_source = MASTER, replication_bytes = bytes, task_promise = q\<rparr>"

lemma log_direct_write_good:
  assumes "log_direct_write t False per r p = (p', r')" "good p"
  shows "r' = r \<and> good p' \<and> replication p' = replication p"
proof -
  let ?bytes = "serialize_command (normalize_replication_command (task_command t) r)"
  obtain p1 r1 where l: "append_log ?bytes p = (p1, r1)" by fastforce
  note a = append_log_good [OF l assms(2)]
  have "reliable f" if "aof_log p1 = Some f" for f using a that by (auto simp: file_grows_def split: option.splits)
  with a l assms show ?thesis by (auto simp: log_direct_write_def Let_def good_def split: if_splits)
qed

text \<open>Executing a command of the stream, once the command itself is known to succeed.\<close>

lemma execute_master:
  assumes "process_command 0 command MASTER p = Some (p1, r)" "\<not> response_is_error r" "good p1"
  shows "\<exists>p'. execute_task (master_task command bytes q) p = Some p' \<and> fulfilled p' = fulfilled p @ [(q, Responded r)] \<and>
    good p' \<and> database p' = database p1 \<and> transaction_part p' = transaction_part p1 \<and> tasks p' = tasks p \<and>
    pending_list_pops p' = pending_list_pops p \<and> offset (replication p') = offset (replication p1) + of_nat bytes"
proof -
  let ?t = "master_task command bytes q"
  let ?per = "aof_log p \<noteq> None \<and> transactions p 0 = None \<and> is_write_command command"
  obtain p2 r2 where l: "log_direct_write ?t False ?per r p1 = (p2, r2)" by fastforce
  note g = log_direct_write_good [OF l assms(3)] and f = log_direct_write_frame [OF l]
  have b: "bookkeeping p2 = bookkeeping p" using process_command_bookkeeping [OF assms(1)] f by simp
  let ?p3 = "advance_offset ?t r p2"
  have "execute_task ?t p = Some (respond ?t r ?p3)"
    using assms(1) l g by (simp add: execute_task_def deliver_def)
  moreover have "good ?p3" "offset (replication ?p3) = offset (replication p1) + of_nat bytes" "transactions ?p3 = transactions p2"
    "watched_keys ?p3 = watched_keys p2" "database ?p3 = database p2"
    using g assms(2) by (auto simp: advance_offset_def good_def)
  moreover have "bookkeeping ?p3 = bookkeeping p" using b by simp
  ultimately show ?thesis
    using f bookkeeping_eqs [of ?p3 p] by (auto simp: good_def transaction_part_def)
qed

lemma apply_fit:
  assumes "replica_fit off s p" "process_command 0 command MASTER (p\<lparr>next_promise := Suc (next_promise p)\<rparr>) = Some (p1, r)"
    and "\<not> response_is_error r" "good p1" "holds s' p1" "replication p1 = replication p"
    and "transactions p 0 = None \<longrightarrow> \<not> named ''BLPOP'' command \<and> \<not> named ''XREAD'' command \<and> \<not> named ''WAIT'' command"
  shows "\<exists>p2. (case apply_replication command bytes p of (p', q) \<Rightarrow> await_worker (Suc n) q p') = (p2, Some (Responded r)) \<and>
    replica_fit (off + of_nat bytes) s' p2 \<and> transaction_part p2 = transaction_part p1"
proof -
  let ?p = "p\<lparr>next_promise := Suc (next_promise p)\<rparr>" and ?new = "\<lambda>q. CommandTask (master_task command bytes q)"
  obtain p' where e: "execute_task (master_task command bytes (next_promise p)) ?p = Some p'"
    "fulfilled p' = fulfilled p @ [(next_promise p, Responded r)]" "good p'" "database p' = database p1"
    "transaction_part p' = transaction_part p1" "tasks p' = tasks p" "pending_list_pops p' = pending_list_pops p"
    "offset (replication p') = offset (replication p1) + of_nat bytes"
    using execute_master [OF assms(2-4)] by fastforce
  have p: "process (?new (next_promise p)) ?p = Some p'" using e(1) assms(7) by (auto simp: process_def process_task_def)
  have "\<exists>p2. await_worker (Suc n) (next_promise p) (fst (submit_task ?new p)) = (p2, Some (Responded r)) \<and>
      replica_fit (off + of_nat bytes) s' p2 \<and> transaction_part p2 = transaction_part p'"
    by (rule await_fit [where new_task = ?new, OF assms(1) p]) (use e assms(1,5,6) in \<open>simp_all add: replica_fit_def holds_def\<close>)
  then show ?thesis using e(5) by (simp add: apply_replication_def enqueue_def submit_task_def)
qed

lemma offset_fit:
  assumes "replica_fit off s p"
  shows "\<exists>p2. (case replication_offset p of (p', q) \<Rightarrow> await_worker (Suc n) q p') = (p2, Some (OffsetIs off)) \<and>
    replica_fit off s p2 \<and> transaction_part p2 = transaction_part p"
proof -
  let ?p = "p\<lparr>next_promise := Suc (next_promise p)\<rparr>"
  let ?p1 = "fulfil (next_promise p) (OffsetIs off) ?p"
  have p: "process (GetReplicationOffsetTask (next_promise p)) ?p = Some ?p1"
    using assms by (simp add: process_def process_replication_offset_request_def replica_fit_def)
  have "\<exists>p2. await_worker (Suc n) (next_promise p) (fst (submit_task GetReplicationOffsetTask p)) = (p2, Some (OffsetIs off)) \<and>
      replica_fit off s p2 \<and> transaction_part p2 = transaction_part ?p1"
    by (rule await_fit [where new_task = GetReplicationOffsetTask, OF assms p]) (use assms in \<open>simp_all add: replica_fit_def holds_def good_def\<close>)
  then show ?thesis by (simp add: replication_offset_def submit_task_def transaction_part_def)
qed

section \<open>The replica consumes the journal\<close>

abbreviation getack :: command where
  "getack \<equiv> [''REPLCONF'', ''GETACK'', ''*'']"

text \<open>One command of the stream, with the bytes that were executed so far; an acknowledgement must carry their number.\<close>

definition stream_step :: "nat \<Rightarrow> u64 \<Rightarrow> command \<Rightarrow> processor \<times> string \<Rightarrow> (processor \<times> string) option" where
  "stream_step n off c s =
     (case s of
        (p, bytes) \<Rightarrow>
          (case replicate_command (await_worker (Suc n)) c (length (serialize_command c)) p of
             (p1, None) \<Rightarrow> None
           | (p1, Some (acknowledged, r)) \<Rightarrow>
               if \<not> response_is_error r \<and> acknowledged = (if c = getack then Some (off + of_nat (length bytes)) else None)
               then Some (p1, bytes @ serialize_command c) else None))"

definition stream_ready :: "u64 \<Rightarrow> processor \<times> string \<Rightarrow> store \<Rightarrow> bool" where
  "stream_ready off x s \<longleftrightarrow> (case x of (p, bytes) \<Rightarrow> replica_fit (off + of_nat (length bytes)) s p \<and> idle_client 0 p)"

definition stream_inside :: "u64 \<Rightarrow> processor \<times> string \<Rightarrow> command list \<Rightarrow> store \<Rightarrow> bool" where
  "stream_inside off x ws s \<longleftrightarrow>
     (case x of (p, bytes) \<Rightarrow> replica_fit (off + of_nat (length bytes)) s p \<and> queueing_client 0 ws p)"

lemma idle_client_cong: "transaction_part p' = transaction_part p \<Longrightarrow> idle_client client p' = idle_client client p"
  and queueing_client_cong: "transaction_part p' = transaction_part p \<Longrightarrow> queueing_client client ws p' = queueing_client client ws p"
  by (simp_all add: idle_client_def queueing_client_def transaction_part_def)

lemma replica_fit_next:
  assumes "replica_fit off s p"
  shows "good (p\<lparr>next_promise := n\<rparr>)" "holds s (p\<lparr>next_promise := n\<rparr>)" "idle_client c (p\<lparr>next_promise := n\<rparr>) = idle_client c p"
    "queueing_client c ws (p\<lparr>next_promise := n\<rparr>) = queueing_client c ws p"
  using assms by (simp_all add: replica_fit_def good_def holds_def idle_client_def queueing_client_def)

lemma stream_step_fit:
  assumes "replica_fit (off + of_nat (length bytes)) s p" "c \<noteq> getack"
    and "process_command 0 c MASTER (p\<lparr>next_promise := Suc (next_promise p)\<rparr>) = Some (p1, r)"
    and "\<not> response_is_error r" "good p1" "holds s' p1" "replication p1 = replication p"
    and "transactions p 0 = None \<longrightarrow> \<not> named ''BLPOP'' c \<and> \<not> named ''XREAD'' c \<and> \<not> named ''WAIT'' c"
  shows "\<exists>p2. stream_step n off c (p, bytes) = Some (p2, bytes @ serialize_command c) \<and>
    replica_fit (off + of_nat (length (bytes @ serialize_command c))) s' p2 \<and> transaction_part p2 = transaction_part p1"
proof -
  obtain p2 where "(case apply_replication c (length (serialize_command c)) p of (p', q) \<Rightarrow> await_worker (Suc n) q p') =
      (p2, Some (Responded r))" "replica_fit (off + of_nat (length bytes) + of_nat (length (serialize_command c))) s' p2"
    "transaction_part p2 = transaction_part p1"
    using apply_fit [OF assms(1,3-8)] by blast
  with assms(2,4) show ?thesis
    by (auto simp: stream_step_def replicate_command_def acknowledged_offset_def add.assoc split: prod.splits)
qed

interpretation replica_stream: journal_consumer "stream_step n off" "stream_ready off" "stream_inside off" for n off
proof
  fix x s w s' assume a: "stream_ready off x s" "effect w s s'"
  obtain p bytes where x: "x = (p, bytes)" by fastforce
  have f: "replica_fit (off + of_nat (length bytes)) s p" "idle_client 0 p" using a(1) by (simp_all add: x stream_ready_def)
  let ?p = "p\<lparr>next_promise := Suc (next_promise p)\<rparr>"
  from run_effect [OF a(2) replica_fit_next(2) [OF f(1)]] obtain p1 r where
    r: "run_dispatch w ?p = Some (p1, r)" "\<not> response_is_error r" "holds s' p1" by blast
  have w: "is_write_command w" "hd w \<noteq> ''BLPOP''" using a(2) by (simp_all add: effect_def)
  have "process_command 0 w MASTER ?p = Some (p1, r)" using f(2) r(1) w(1) by (simp add: process_command_write idle_client_def)
  moreover have "good p1" "replication p1 = replication p" "transaction_part p1 = transaction_part p"
    using run_dispatch_frame [OF r(1)] replica_fit_next(1) [OF f(1)] r(3)
    by (auto simp: good_def holds_def bookkeeping_def replication_part_def transaction_part_def)
  moreover have "w \<noteq> getack" "transactions p 0 = None \<longrightarrow> \<not> named ''BLPOP'' w \<and> \<not> named ''XREAD'' w \<and> \<not> named ''WAIT'' w"
    using w by (auto simp: is_write_command_iff named_def)
  ultimately obtain p2 where p2: "stream_step n off w (p, bytes) = Some (p2, bytes @ serialize_command w)"
    "replica_fit (off + of_nat (length (bytes @ serialize_command w))) s' p2" "transaction_part p2 = transaction_part p"
    using stream_step_fit [OF f(1) _ _ r(2) _ r(3), of w n] by metis
  with idle_client_cong [OF p2(3), of 0] f(2) show "\<exists>x'. stream_step n off w x = Some x' \<and> stream_ready off x' s'"
    by (simp add: x stream_ready_def)
next
  fix x s assume a: "stream_ready off x s"
  obtain p bytes where x: "x = (p, bytes)" by fastforce
  have f: "replica_fit (off + of_nat (length bytes)) s p" "idle_client 0 p" using a(1) by (simp_all add: x stream_ready_def)
  let ?p = "p\<lparr>next_promise := Suc (next_promise p)\<rparr>"
  let ?p1 = "?p\<lparr>transactions := (transactions p)(0 \<mapsto> \<lparr>transaction_commands = [], has_error = False\<rparr>)\<rparr>"
  have "process_command 0 [''MULTI''] MASTER ?p = Some (?p1, SimpleString ''OK'')"
    using f(2) by (simp add: process_multi idle_client_def)
  moreover have "good ?p1" "holds s ?p1" "replication ?p1 = replication p" "queueing_client 0 [] ?p1"
    using f by (simp_all add: replica_fit_def good_def holds_def queueing_client_def idle_client_def)
  ultimately obtain p2 where p2: "stream_step n off [''MULTI''] (p, bytes) = Some (p2, bytes @ serialize_command [''MULTI''])"
    "replica_fit (off + of_nat (length (bytes @ serialize_command [''MULTI'']))) s p2" "transaction_part p2 = transaction_part ?p1"
    using stream_step_fit [OF f(1), of "[''MULTI'']" ?p1 "SimpleString ''OK''" s n] by (auto simp: response_is_error_def named_def)
  with queueing_client_cong [OF p2(3), of 0 "[]"] \<open>queueing_client 0 [] ?p1\<close>
  show "\<exists>x'. stream_step n off [''MULTI''] x = Some x' \<and> stream_inside off x' [] s" by (simp add: x stream_inside_def)
next
  fix x ws s w assume a: "stream_inside off x ws s" "is_write_command w"
  obtain p bytes where x: "x = (p, bytes)" by fastforce
  have f: "replica_fit (off + of_nat (length bytes)) s p" "queueing_client 0 ws p" using a(1) by (simp_all add: x stream_inside_def)
  let ?p = "p\<lparr>next_promise := Suc (next_promise p)\<rparr>"
  let ?p1 = "queue_write 0 ws w ?p"
  have q: "queueing_client 0 ws ?p" using f(2) by (simp add: queueing_client_def)
  have "process_command 0 w MASTER ?p = Some (?p1, SimpleString ''QUEUED'')" by (rule process_queue_write [OF a(2) q])
  moreover have "good ?p1" "holds s ?p1" "replication ?p1 = replication p" "queueing_client 0 (ws @ [w]) ?p1"
    using f(1) queue_write_queueing(1) [OF q] by (simp_all add: replica_fit_def good_def holds_def queue_write_def)
  moreover have "w \<noteq> getack" "transactions p 0 \<noteq> None" using a(2) f(2) by (auto simp: is_write_command_iff queueing_client_def)
  ultimately obtain p2 where p2: "stream_step n off w (p, bytes) = Some (p2, bytes @ serialize_command w)"
    "replica_fit (off + of_nat (length (bytes @ serialize_command w))) s p2" "transaction_part p2 = transaction_part ?p1"
    using stream_step_fit [OF f(1), of w ?p1 "SimpleString ''QUEUED''" s n] by (auto simp: response_is_error_def)
  with queueing_client_cong [OF p2(3), of 0 "ws @ [w]"] \<open>queueing_client 0 (ws @ [w]) ?p1\<close>
  show "\<exists>x'. stream_step n off w x = Some x' \<and> stream_inside off x' (ws @ [w]) s" by (simp add: x stream_inside_def)
next
  fix x ws s s' assume a: "stream_inside off x ws s" "ws \<noteq> []" "effects ws s s'"
  obtain p bytes where x: "x = (p, bytes)" by fastforce
  have f: "replica_fit (off + of_nat (length bytes)) s p" "queueing_client 0 ws p" using a(1) by (simp_all add: x stream_inside_def)
  let ?p = "p\<lparr>next_promise := Suc (next_promise p)\<rparr>"
  have q: "queueing_client 0 ws ?p" using f(2) by (simp add: queueing_client_def)
  from execute_queue [OF q a(2,3) replica_fit_next(2) [OF f(1)], of MASTER] replica_fit_next(1) [OF f(1)] obtain p1 r where
    e: "process_command 0 [''EXEC''] MASTER ?p = Some (p1, r)" "\<not> response_is_error r" "holds s' p1" "idle_client 0 p1"
      "replication p1 = replication p" "good p1"
    by (auto simp: process_exec)
  have "transactions p 0 \<noteq> None" using f(2) by (simp add: queueing_client_def)
  with stream_step_fit [OF f(1) _ e(1,2,6,3,5), of n] obtain p2 where
    p2: "stream_step n off [''EXEC''] (p, bytes) = Some (p2, bytes @ serialize_command [''EXEC''])"
      "replica_fit (off + of_nat (length (bytes @ serialize_command [''EXEC'']))) s' p2" "transaction_part p2 = transaction_part p1"
    by auto
  with idle_client_cong [OF p2(3), of 0] e(4) show "\<exists>x'. stream_step n off [''EXEC''] x = Some x' \<and> stream_ready off x' s'"
    by (simp add: x stream_ready_def)
next
  fix x s assume a: "stream_ready off x s"
  obtain p bytes where x: "x = (p, bytes)" by fastforce
  let ?off = "off + of_nat (length bytes)"
  have f: "replica_fit ?off s p" "idle_client 0 p" using a(1) by (simp_all add: x stream_ready_def)
  from offset_fit [OF f(1), of n] obtain p2 where o: "acknowledged_offset (await_worker (Suc n)) getack p = (p2, Some (Some ?off))"
    "replica_fit ?off s p2" "transaction_part p2 = transaction_part p"
    by (auto simp: acknowledged_offset_def split: prod.splits)
  let ?p = "p2\<lparr>next_promise := Suc (next_promise p2)\<rparr>"
  have "\<exists>p3. (case apply_replication getack (length (serialize_command getack)) p2 of (p', q) \<Rightarrow> await_worker (Suc n) q p') =
      (p3, Some (Responded (SimpleString ''OK''))) \<and> replica_fit (?off + of_nat (length (serialize_command getack))) s p3 \<and>
      transaction_part p3 = transaction_part ?p"
    by (rule apply_fit [OF o(2) process_getack])
      (use replica_fit_next [OF o(2)] in \<open>simp_all add: response_is_error_def named_def\<close>)
  then obtain p3 where p3: "(case apply_replication getack (length (serialize_command getack)) p2 of (p', q) \<Rightarrow> await_worker (Suc n) q p') =
      (p3, Some (Responded (SimpleString ''OK'')))" "replica_fit (off + of_nat (length (bytes @ serialize_command getack))) s p3"
      "transaction_part p3 = transaction_part p2"
    by (auto simp: add.assoc transaction_part_def)
  have "stream_step n off getack (p, bytes) = Some (p3, bytes @ serialize_command getack)"
    using o(1) p3(1) by (auto simp: stream_step_def replicate_command_def response_is_error_def split: prod.splits)
  with p3 o(3) f(2) idle_client_cong [of p3 p 0] show "\<exists>x'. stream_step n off getack x = Some x' \<and> stream_ready off x' s"
    by (simp add: x stream_ready_def)
qed

section \<open>The stream through the socket\<close>

text \<open>The acknowledgements that a stream asks for.\<close>

fun acknowledgements :: "u64 \<Rightarrow> command list \<Rightarrow> string" where
  "acknowledgements off [] = []"
| "acknowledgements off (c # cs) =
     (if c = getack then serialize_command [''REPLCONF'', ''ACK'', dec_of_nat (unat off)] else []) @
     acknowledgements (off + of_nat (length (serialize_command c))) cs"

lemma acknowledgements_append:
  "acknowledgements off (cs @ ds) =
   acknowledgements off cs @ acknowledgements (off + of_nat (length (concat (map serialize_command cs)))) ds"
  by (induction cs arbitrary: off) (auto simp: add.assoc)

abbreviation no_guard :: "'s \<Rightarrow> 's \<times> 'r verdict" where
  "no_guard s \<equiv> (s, Proceed)"

lemma stream_stepD:
  assumes "stream_step n off d (p, bytes) = Some y"
  shows "\<exists>p1 a r. replicate_command (await_worker (Suc n)) d (length (serialize_command d)) p = (p1, Some (a, r)) \<and>
    \<not> response_is_error r \<and> a = (if d = getack then Some (off + of_nat (length bytes)) else None) \<and> y = (p1, bytes @ serialize_command d)"
proof -
  obtain p1 x where "replicate_command (await_worker (Suc n)) d (length (serialize_command d)) p = (p1, x)" by fastforce
  with assms show ?thesis by (cases x) (auto simp: stream_step_def split: if_splits)
qed

lemma handle_stream:
  assumes "replica_stream.consume n off cs (p, bytes) = Some x"
    and "in_order input out (length (acknowledgements (off + of_nat (length bytes)) cs) + m) c"
  shows "\<exists>p' c'. x = (p', bytes @ concat (map serialize_command cs)) \<and>
    handle_all no_guard (apply_replicated (await_worker (Suc n))) cs (p, c) = Some (p', c') \<and>
    in_order input (out @ acknowledgements (off + of_nat (length bytes)) cs) m c' \<and>
    input_buffer c' = input_buffer c \<and> recv_results c' = recv_results c \<and> stop_requests c' = stop_requests c"
  using assms
proof (induction cs arbitrary: p bytes c out)
  case (Cons d cs)
  let ?off = "off + of_nat (length bytes)"
  from Cons.prems(1) obtain y where y: "stream_step n off d (p, bytes) = Some y" "replica_stream.consume n off cs y = Some x"
    by (auto simp: Option.bind_eq_Some_conv)
  from stream_stepD [OF y(1)] obtain p1 a r where
    r: "replicate_command (await_worker (Suc n)) d (length (serialize_command d)) p = (p1, Some (a, r))"
      "\<not> response_is_error r" "a = (if d = getack then Some ?off else None)" and y1: "y = (p1, bytes @ serialize_command d)" by blast
  have rest: "replica_stream.consume n off cs (p1, bytes @ serialize_command d) = Some x" using y(2) y1 by simp
  let ?ack = "if d = getack then serialize_command [''REPLCONF'', ''ACK'', dec_of_nat (unat ?off)] else []"
  have "in_order input out (length ?ack + (length (acknowledgements (off + of_nat (length (bytes @ serialize_command d))) cs) + m)) c"
    using Cons.prems(2) by (simp add: add.assoc)
  from send_bytes_in_order [OF this] obtain c1 where c1: "send_bytes ?ack c = (c1, Some (Inr ()))"
    "in_order input (out @ ?ack) (length (acknowledgements (off + of_nat (length (bytes @ serialize_command d))) cs) + m) c1"
    "input_buffer c1 = input_buffer c" "recv_results c1 = recv_results c" "stop_requests c1 = stop_requests c" by blast
  have "send_bytes [] c = (c, Some (Inr ()))" by (simp add: send_bytes_def)
  then have "apply_replicated (await_worker (Suc n)) d (length (serialize_command d)) (p, c) = ((p1, c1), Proceed)"
    using r c1(1) by (cases r) (auto simp: apply_replicated_def send_command_def response_is_error_def)
  with Cons.IH [OF rest c1(2)] c1(3-5) show ?case by (auto simp: add.assoc)
qed simp

lemma unfinished_done:
  assumes "unfinished rest cs" "rest = concat (map serialize_command cs)"
  shows "cs = []"
proof (cases cs)
  case (Cons c ds)
  with assms have "strict_prefix (serialize_command c @ concat (map serialize_command ds)) (serialize_command c)"
    by (auto simp: unfinished_def)
  then show ?thesis by (auto simp: strict_prefix_def prefix_def)
qed simp

lemma stream_loop_consumes:
  assumes "replica_stream.consume n off cs (p, bytes) = Some x" "list_all sized cs"
    and "in_order (concat (map serialize_command cs)) out (length (acknowledgements (off + of_nat (length bytes)) cs) + m) c"
  shows "\<exists>p' c'. x = (p', bytes @ concat (map serialize_command cs)) \<and>
    stream_loop (await_worker (Suc n)) (p, c) = ((p', c'), None) \<and>
    in_order [] (out @ acknowledgements (off + of_nat (length bytes)) cs) m c'"
  using assms
proof (induction "length (recv_results c)" arbitrary: cs p bytes c out rule: less_induct)
  case less
  let ?get = "await_worker (Suc n)" and ?ser = "\<lambda>cs. concat (map serialize_command cs)"
  let ?c0 = "c\<lparr>stop_checks := Suc (stop_checks c)\<rparr>"
  have stop: "stop_requested c = (?c0, False)" using less(4) by (simp add: stop_requested_def in_order_def)
  have o0: "in_order (?ser cs) out (length (acknowledgements (off + of_nat (length bytes)) cs) + m) ?c0"
    using less(4) by (simp add: in_order_def arriving_def)
  from handle_stream [OF less(2) o0] obtain s' where all: "handle_all no_guard (apply_replicated ?get) cs (p, ?c0) = Some s'" by auto
  have pre: "prefix (input_buffer ?c0) (?ser cs)"
    by (rule prefixI [of _ _ "concat (map received (recv_results c))"]) (use o0 in \<open>simp add: in_order_def arriving_def\<close>)
  obtain ds ls rest s1 where cs: "cs = ds @ ls" and buf: "input_buffer ?c0 = ?ser ds @ rest" and unf: "unfinished rest ls"
    and ds: "handle_all no_guard (apply_replicated ?get) ds (p, ?c0) = Some s1"
    and loop: "command_loop no_guard (\<lambda>msg. Some (Inl (''Invalid command in replication stream: '' @ msg))) (apply_replicated ?get)
      (input_buffer ?c0) (p, ?c0) = (rest, s1, Proceed)"
    using command_loop_stream [OF less(3) pre all, of "\<lambda>_. True" "\<lambda>msg. Some (Inl (''Invalid command in replication stream: '' @ msg))"]
    unfolding fst_conv if_cancel snd_conv keeps_going_def by blast
  obtain y where y: "replica_stream.consume n off ds (p, bytes) = Some y" "replica_stream.consume n off ls y = Some x"
    using less(2) by (auto simp: cs replica_stream.consume_append Option.bind_eq_Some_conv)
  let ?acks = "acknowledgements (off + of_nat (length bytes)) ds"
  let ?bytes = "bytes @ ?ser ds"
  have "in_order (?ser cs) out (length ?acks + (length (acknowledgements (off + of_nat (length ?bytes)) ls) + m)) ?c0"
    using o0 by (simp add: cs acknowledgements_append add.assoc)
  from handle_stream [OF y(1) this] ds obtain p1 c1 where s1: "s1 = (p1, c1)" "y = (p1, ?bytes)"
    and o1: "in_order (?ser cs) (out @ ?acks) (length (acknowledgements (off + of_nat (length ?bytes)) ls) + m) c1"
    and k: "input_buffer c1 = input_buffer c" "recv_results c1 = recv_results c" "stop_requests c1 = stop_requests c"
    by auto
  let ?c1 = "c1\<lparr>input_buffer := rest\<rparr>"
  have applied: "apply_buffered ?get (p, ?c0) = ((p1, ?c1), Proceed)" using loop s1(1) by (simp add: apply_buffered_def)
  have rest: "rest @ concat (map received (recv_results c)) = ?ser ls"
    using less(4) buf by (simp add: in_order_def arriving_def cs)
  have out: "out @ acknowledgements (off + of_nat (length bytes)) cs = (out @ ?acks) @ acknowledgements (off + of_nat (length ?bytes)) ls"
    by (simp add: cs acknowledgements_append add.assoc)
  have serd: "bytes @ ?ser cs = ?bytes @ ?ser ls" by (simp add: cs)
  have cont: ?case if "recv_results c = r # rs" "stream_loop ?get (p, c) = stream_loop ?get (p1, c2)" "recv_results c2 = rs"
    "input_buffer c2 = rest @ received r" "sent c2 = sent c1" "send_results c2 = send_results c1" "stop_requests c2 = stop_requests c1" for r rs c2
  proof -
    have "in_order (?ser ls) (out @ ?acks) (length (acknowledgements (off + of_nat (length ?bytes)) ls) + m) c2"
      using o1 that rest k by (auto simp: in_order_def arriving_def flowing_def)
    from less(1) [of c2 ls p1 ?bytes "out @ ?acks", OF _ _ _ this] y(2) s1(2) less(3) cs that
    show ?thesis unfolding out serd by simp
  qed
  show ?case
  proof (cases "recv_results c")
    case Nil
    with unfinished_done [OF unf] rest have ls: "ls = []" "rest = []" by simp_all
    have "stream_loop ?get (p, c) = ((p1, ?c1), None)"
      using stop applied Nil k(2) by (simp add: stream_loop.simps [of ?get "(p, c)"])
    moreover have "in_order [] (out @ acknowledgements (off + of_nat (length bytes)) cs) m ?c1"
      using o1 ls Nil k(2) by (simp add: in_order_def arriving_def cs)
    ultimately show ?thesis using s1(2) y(2) ls cs by simp
  next
    case (Cons r rs)
    have fl: "flowing (r # rs)" using less(4) Cons by (simp add: in_order_def)
    show ?thesis
    proof (cases r)
      case (Received b)
      with fl have "stream_loop ?get (p, c) = stream_loop ?get (p1, ?c1\<lparr>recv_results := rs, input_buffer := rest @ b\<rparr>)"
        using stop applied Cons k(2) by (simp add: stream_loop.simps [of ?get "(p, c)"])
      from cont [OF Cons this] Received show ?thesis by simp
    next
      case RecvInterrupted
      with fl have "stream_loop ?get (p, c) = stream_loop ?get (p1, ?c1\<lparr>recv_results := rs\<rparr>)"
        using stop applied Cons k(2) by (simp add: stream_loop.simps [of ?get "(p, c)"])
      from cont [OF Cons this] RecvInterrupted show ?thesis by simp
    qed (use fl in simp)
  qed
qed

section \<open>The replica reaches its master\<close>

text \<open>A master that runs: any steps, as long as the tasks in its queue are the ones that the journal covers.\<close>

inductive master_run :: "processor \<Rightarrow> processor \<Rightarrow> bool" where
  still: "master_run p p"
| step: "master_run p0 p \<Longrightarrow> processor_step p p' \<Longrightarrow> list_all (admissible_task p') (tasks p') \<Longrightarrow> master_run p0 p'"

lemma master_run_journaled:
  "master_run p0 p \<Longrightarrow> journal_inv p0 \<Longrightarrow> journal_inv p \<and> (\<exists>es. journaled es p0 p)"
proof (induction rule: master_run.induct)
  case (still p)
  then show ?case using calm_journaled [OF calm_refl] by (auto simp: journal_inv_def)
next
  case (step p0 p p')
  with journal_step [OF step(2) _ step(3)] show ?case using journaled_trans by blast
qed

text \<open>The bytes that a session for a replica hands out: the frames behind those that were there when it registered.\<close>

definition streamed :: "processor \<Rightarrow> processor \<Rightarrow> string" where
  "streamed p0 p = concat (map payload (drop (length (replication_backlog p0)) (replication_backlog p)))"

lemma streamed_journal:
  assumes "journaled es p0 p" "is_master p0"
  shows "streamed p0 p = concat (map serialize_command (journal_commands es))"
    "offset (replication p) = offset (replication p0) + of_nat (length (streamed p0 p))"
proof -
  have "map payload (replication_backlog p) = map payload (replication_backlog p0) @ map entry_bytes es"
    using assms by (simp add: journaled_def)
  from arg_cong [OF this, of "drop (length (replication_backlog p0))"] have "streamed p0 p = journal_bytes es"
    by (simp add: streamed_def drop_map)
  with assms show "streamed p0 p = concat (map serialize_command (journal_commands es))"
    "offset (replication p) = offset (replication p0) + of_nat (length (streamed p0 p))"
    by (simp_all add: journal_bytes_commands journaled_def)
qed

lemma length_dec: "n < 10 ^ Suc k \<Longrightarrow> length (dec_of_nat n) \<le> Suc k"
proof (induction k arbitrary: n)
  case 0
  then show ?case by (simp add: dec_of_nat.simps [of n])
next
  case (Suc k)
  from Suc.IH [of "n div 10"] Suc.prems show ?case by (auto simp: dec_of_nat.simps [of n])
qed

lemma length_acknowledgements: "length (acknowledgements off cs) \<le> 2 * length (concat (map serialize_command cs))"
proof (induction cs arbitrary: off)
  case (Cons c cs)
  have "unat off < 10 ^ Suc 19" using unsigned_less [of off, where 'a = nat] by simp
  from length_dec [OF this] have d: "length (dec_of_nat (unat off)) \<le> 20" by simp
  have "length (dec_of_nat (length (dec_of_nat (unat off)))) \<le> Suc 1" by (rule length_dec) (use d in simp)
  with d have "length (serialize_command [''REPLCONF'', ''ACK'', dec_of_nat (unat off)]) \<le> 2 * length (serialize_command getack)"
    by (simp add: serialize_command_eq length_enc_bulk crlf_def)
  note add_mono [OF this Cons.IH [of "off + of_nat (length (serialize_command c))"]]
  then show ?case using Cons.IH [of "off + of_nat (length (serialize_command c))"] by (cases "c = getack") simp_all
qed simp

lemma generated_id: "length (generate_replication_id distribution) = 40" "list_all is_hexadecimal (generate_replication_id distribution)"
proof -
  have "list_all is_hexadecimal hexadecimal" by (simp add: hexadecimal_def is_hexadecimal_def is_digit_def)
  moreover have "length hexadecimal = 16" by (simp add: hexadecimal_def)
  ultimately show "list_all is_hexadecimal (generate_replication_id distribution)"
    by (auto simp: generate_replication_id_def list_all_iff)
qed (simp add: generate_replication_id_def)

lemma new_replica_fit:
  assumes "clock_running w"
  shows "replica_fit 0 Map.empty (new_processor w distribution (Some m) rdb aof password_hash)"
    "idle_client 0 (new_processor w distribution (Some m) rdb aof password_hash)"
  using assms by (simp_all add: replica_fit_def good_def holds_def idle_client_def new_processor_def orderly_def accounting)

lemma install_fit:
  assumes "replica_fit off s p"
  shows "\<exists>p2. (case install_replication_state new_id new_offset p of (p', q) \<Rightarrow> await_worker (Suc n) q p') = (p2, Some Completed) \<and>
    replica_fit new_offset s p2 \<and> transaction_part p2 = transaction_part p"
proof -
  let ?p = "p\<lparr>next_promise := Suc (next_promise p)\<rparr>" and ?new = "InstallReplicationStateTask new_id new_offset"
  let ?p1 = "process_replication_state_installation new_id new_offset (next_promise p) ?p"
  have p: "process (?new (next_promise p)) ?p = Some ?p1" by (simp add: process_def)
  have "\<exists>p2. await_worker (Suc n) (next_promise p) (fst (submit_task ?new p)) = (p2, Some Completed) \<and>
      replica_fit new_offset s p2 \<and> transaction_part p2 = transaction_part ?p1"
    by (rule await_fit [where new_task = ?new, OF assms p])
      (use assms in \<open>simp_all add: replica_fit_def holds_def good_def process_replication_state_installation_def\<close>)
  then show ?thesis
    by (simp add: install_replication_state_def submit_task_def transaction_part_def process_replication_state_installation_def)
qed

text \<open>What a master sends to a replica: the answers of the handshake, the answer to \<open>PSYNC\<close>, and the stream.\<close>

definition master_sends :: "processor \<Rightarrow> processor \<Rightarrow> ref \<Rightarrow> string" where
  "master_sends p0 p r =
     ''+PONG'' @ crlf @ ''+OK'' @ crlf @ ''+OK'' @ crlf @
     full_resync_bytes \<lparr>registration_id = replication_id (replication p0), registration_offset = offset (replication p0),
       registration_session = r\<rparr> @ streamed p0 p"

lemma stopped_in_order:
  assumes "in_order input out n c"
  shows "\<exists>c'. stopped (Some c) = (Some c', False) \<and> in_order input out n c'"
  using assms by (simp add: stopped_def stop_requested_def in_order_def arriving_def)


definition delivered_to :: "processor \<Rightarrow> processor \<Rightarrow> nat \<Rightarrow> connection" where
  "delivered_to p0 p n = new_connection [RecvInterrupted, Received (master_sends p0 p 0)] (replicate n (Sent 1)) (\<lambda>_. False)"


end
