(* ===== verification/Connections_Correct.thy ===== *)
theory Connections_Correct
  imports Connections Replica
begin

text \<open>
  What the threads of connections do to the rest of the server: they make only steps of the processor's
  state machine, so everything that is proved about its reachable states holds while they run.
\<close>

section \<open>The parts of the loops\<close>

lemma check_stopD: "check_stop th = (th', stop) \<Longrightarrow> server_processor th' = server_processor th"
  by (auto simp: check_stop_def split: prod.splits)

text \<open>What the parts of the loop over the acknowledgements keep, the loop keeps.\<close>

lemma acknowledgements_invariant:
  assumes "consume_replica_acknowledgements get client r s = (s', v)" "I s"
    and "\<And>p c. I (p, c) \<Longrightarrow> I (p, fst (stop_requested c))" "\<And>s p c. sender_runs r s = (p, c) \<Longrightarrow> I s \<Longrightarrow> I (p, c)"
    and "\<And>p c rs b. I (p, c) \<Longrightarrow> I (p, c\<lparr>recv_results := rs, input_buffer := b\<rparr>)"
    and "\<And>s s' w. acknowledge_buffered get client s = (s', w) \<Longrightarrow> I s \<Longrightarrow> I s'"
  shows "I s'"
  using assms(1,2)
proof (induction "length (filter (\<lambda>x. x \<noteq> Received []) (recv_results (snd s)))" arbitrary: s rule: less_induct)
  case less
  obtain c0 stop where c0: "stop_requested (snd s) = (c0, stop)" by fastforce
  have r0: "recv_results c0 = recv_results (snd s)" using c0 by (auto simp: stop_requested_def)
  have k0: "I (fst s, c0)" using assms(3) [of "fst s" "snd s"] less(3) c0 by simp
  obtain p c where pc: "sender_runs r (fst s, c0) = (p, c)" by fastforce
  have k: "I (p, c)" by (rule assms(4) [OF pc k0])
  have kr: "I (p, c\<lparr>recv_results := rs\<rparr>)" for rs using assms(5) [OF k, of "input_buffer c" rs] by simp
  note unfold = consume_replica_acknowledgements.simps [of get client r s]
  show ?case
  proof (cases "stop \<or> recv_results c = []")
    case True
    then have "(s', v) = ((fst s, c0), Some (Inr ())) \<or> (s', v) = ((p, c), None)"
      using less(2) [unfolded unfold] c0 pc by (cases stop) auto
    with k0 k show ?thesis by auto
  next
    case False
    then obtain x rest where x: "recv_results c = x # rest" by (cases "recv_results c") auto
    have m: "length (filter (\<lambda>x. x \<noteq> Received []) rest) < length (filter (\<lambda>x. x \<noteq> Received []) (recv_results (snd s)))"
      if "x \<noteq> Received []"
      using sender_runs_receives [OF pc]
    proof
      assume "recv_results c = recv_results (snd (fst s, c0))"
      with x r0 have "recv_results (snd s) = x # rest" by simp
      with that show ?thesis by simp
    qed (use x that in simp)
    show ?thesis
    proof (cases x)
      case (Received bytes)
      show ?thesis
      proof (cases "bytes = []")
        case True
        with less(2) False c0 pc x Received kr show ?thesis by (auto simp: unfold Let_def)
      next
        case nonempty: False
        obtain p2 c2 w where b: "acknowledge_buffered get client (p, c\<lparr>recv_results := rest, input_buffer := input_buffer c @ bytes\<rparr>) = ((p2, c2), w)"
          by (metis prod_cases3 surj_pair)
        have k2: "I (p2, c2)" using assms(6) [OF b assms(5) [OF k]] .
        have "recv_results c2 = rest" using acknowledge_buffered_receives [OF b] by simp
        with less(1) [of "(p2, c2)"] m k2 less(2) False c0 pc x Received nonempty b show ?thesis
          by (cases w) (auto simp: unfold Let_def)
      qed
    next
      case RecvInterrupted
      with less(1) [of "(p, c\<lparr>recv_results := rest\<rparr>)"] m kr less(2) False c0 pc x show ?thesis by (simp add: unfold Let_def)
    next
      case RecvError
      with less(2) False c0 pc x assms(3) [OF kr, of rest] show ?thesis by (auto simp: unfold Let_def unless_stopped_def split: prod.splits)
    qed
  qed
qed

lemma become_replica_stages:
  assumes "become_replica get client th = (th', v)"
  obtains (unregistering) "get_in get (unregister_client client) th = (th', None)" "v = Leave Waiting"
  | (registering) th1 a b where "get_in get (unregister_client client) th = (th1, Some a)"
      "get_in get (register_replica client) th1 = (th', b)" "\<nexists>registration. b = Some (Registered registration)" "v = Leave Waiting"
  | (serving) th1 a th2 registration p c where "get_in get (unregister_client client) th = (th1, Some a)"
      "get_in get (register_replica client) th1 = (th2, Some (Registered registration))"
      "run_replica_connection get client registration (server_processor th2, socket th2) = ((p, c), None)"
      "th' = th2\<lparr>server_processor := p, socket := c\<rparr>" "v = Leave Waiting"
  | (served) th1 a th2 registration p c e f where "get_in get (unregister_client client) th = (th1, Some a)"
      "get_in get (register_replica client) th1 = (th2, Some (Registered registration))"
      "run_replica_connection get client registration (server_processor th2, socket th2) = ((p, c), Some e)"
      "get_in get (unregister_client client) (th2\<lparr>server_processor := p, socket := c\<rparr>) = (th', f)"
      "v = Leave (if f = None then Waiting else Returned)"
proof -
  obtain th1 a where 1: "get_in get (unregister_client client) th = (th1, a)" by fastforce
  obtain th2 b where 2: "get_in get (register_replica client) th1 = (th2, b)" by fastforce
  show thesis
  proof (cases "a = None \<or> (\<nexists>registration. b = Some (Registered registration))")
    case True
    with assms 1 2 unregistering registering show ?thesis
      by (cases a) (auto simp: become_replica_def split: option.splits result.splits)
  next
    case False
    then obtain x registration where ab: "a = Some x" "b = Some (Registered registration)" by auto
    obtain p c e where 3: "run_replica_connection get client registration (server_processor th2, socket th2) = ((p, c), e)"
      by (metis prod_cases3 surj_pair)
    show ?thesis
    proof (cases e)
      case None
      with assms 1 2 3 ab serving show ?thesis by (auto simp: become_replica_def)
    next
      case (Some y)
      obtain th4 f where "get_in get (unregister_client client) (th2\<lparr>server_processor := p, socket := c\<rparr>) = (th4, f)" by fastforce
      with Some assms 1 2 3 ab served show ?thesis by (cases f) (auto simp: become_replica_def)
    qed
  qed
qed

section \<open>The threads make steps of the state machine\<close>

text \<open>
  A condition on the processor that every step of the state machine keeps. What the threads do on their own, to
  the sessions, keeps it.
\<close>

locale step_closed =
  fixes I :: "processor \<Rightarrow> bool"
  assumes step_keeps: "I p \<Longrightarrow> processor_step p p' \<Longrightarrow> I p'"
begin

text \<open>A step on the object at an address, written as an update of the state before.\<close>

lemma heap_step:
  "I (p\<lparr>pubsub_heap := (pubsub_heap p)(a \<mapsto> s)\<rparr>) \<Longrightarrow>
   connection_step (p\<lparr>pubsub_heap := (pubsub_heap p)(a \<mapsto> s)\<rparr>) q \<Longrightarrow> q = p\<lparr>pubsub_heap := (pubsub_heap p)(a \<mapsto> s')\<rparr> \<Longrightarrow>
   I (p\<lparr>pubsub_heap := (pubsub_heap p)(a \<mapsto> s')\<rparr>)"
  "I (p\<lparr>replica_heap := (replica_heap p)(a \<mapsto> t)\<rparr>) \<Longrightarrow>
   connection_step (p\<lparr>replica_heap := (replica_heap p)(a \<mapsto> t)\<rparr>) q \<Longrightarrow> q = p\<lparr>replica_heap := (replica_heap p)(a \<mapsto> t')\<rparr> \<Longrightarrow>
   I (p\<lparr>replica_heap := (replica_heap p)(a \<mapsto> t')\<rparr>)"
  using step_keeps processor_step.connection by blast+

lemma session_steps:
  assumes "send_session_frames s c = (s', c', r)" "I (p\<lparr>pubsub_heap := (pubsub_heap p)(a \<mapsto> s)\<rparr>)"
  shows "I (p\<lparr>pubsub_heap := (pubsub_heap p)(a \<mapsto> s')\<rparr>)"
  using assms
proof (induction s c rule: send_session_frames.induct)
  case (1 s c)
  obtain s1 f where f: "pop_frame s = (s1, f)" by fastforce
  have k: "I (p\<lparr>pubsub_heap := (pubsub_heap p)(a \<mapsto> s1)\<rparr>)"
    by (rule heap_step(1) [OF 1(3) take_frame [of _ a, OF _ f]]) simp_all
  show ?case
  proof (cases f)
    case None
    with 1(2) f have "s' = s1" by (simp add: send_session_frames.simps [of s])
    with k show ?thesis by (simp only:)
  next
    case (Some frame)
    obtain c1 x where c1: "send_bytes frame c = (c1, x)" by fastforce
    show ?thesis
    proof (cases "x = Some (Inr ())")
      case True
      with 1(1) [OF f [symmetric] Some c1 [symmetric] _ _ _ k] 1(2) f Some c1 show ?thesis
        by (simp add: send_session_frames.simps [of s])
    next
      case False
      with 1(2) f Some c1 have "s' = s1" by (cases x) (auto simp: send_session_frames.simps [of s] split: sum.splits)
      with k show ?thesis by (simp only:)
    qed
  qed
qed

lemma pubsub_frames_kept:
  assumes "send_pending_pubsub_frames th = (th', r)" "I (server_processor th)"
  shows "I (server_processor th')"
proof (cases "pubsub_heap (server_processor th) (session th)")
  case None
  with assms show ?thesis by (simp add: send_pending_pubsub_frames_def)
next
  case (Some s)
  obtain s1 x where x: "clear_notification (clear_io th (clear_calls th)) s = (s1, x)" by fastforce
  note k = step_keeps [OF assms(2) processor_step.connection [OF connection_step.clear [OF Some x]]]
  obtain s2 c y where y: "send_session_frames s1 (socket th) = (s2, c, y)" by (metis prod_cases3)
  from session_steps [OF y k] assms(1) Some x y k show ?thesis
    by (cases x) (auto simp: send_pending_pubsub_frames_def Let_def)
qed

lemma replica_steps:
  assumes "send_replication_frames stop s c = (s', c', r)" "I (p\<lparr>replica_heap := (replica_heap p)(a \<mapsto> s)\<rparr>)"
  shows "I (p\<lparr>replica_heap := (replica_heap p)(a \<mapsto> s')\<rparr>)"
  using assms
proof (induction stop s c rule: send_replication_frames.induct)
  case (1 stop s c)
  let ?at = "\<lambda>s. p\<lparr>replica_heap := (replica_heap p)(a \<mapsto> s)\<rparr>"
  show ?case
  proof (cases "wait_for_frame stop s")
    case None
    with 1(2,3) show ?thesis by (simp add: send_replication_frames.simps [of stop s])
  next
    case (Some x)
    obtain s1 f where x: "x = (s1, f)" by fastforce
    have k: "I (?at s1)"
      by (rule heap_step(2) [OF 1(3) take_replica_frame [of _ a, OF _ Some [unfolded x]]]) simp_all
    have z: "I (?at (close_session s1))"
      by (rule heap_step(2) [OF k close_replica [of _ a]]) simp_all
    show ?thesis
    proof (cases f)
      case None
      with 1(2) Some x have "s' = s1" by (simp add: send_replication_frames.simps [of stop s])
      with k show ?thesis by (simp only:)
    next
      case f: (Some frame)
      obtain c1 y where c1: "send_bytes (payload frame) c = (c1, y)" by fastforce
      show ?thesis
      proof (cases "y = Some (Inr ())")
        case True
        with 1(1) [OF Some x [symmetric] f c1 [symmetric] _ _ _ k] 1(2) Some x f c1 show ?thesis
          by (simp add: send_replication_frames.simps [of stop s])
      next
        case False
        with 1(2) Some x f c1 have "s' = s1 \<or> s' = close_session s1"
          by (cases y) (auto simp: send_replication_frames.simps [of stop s] split: sum.splits)
        then show ?thesis by (rule disjE) (simp_all only: k z)
      qed
    qed
  qed
qed

lemma sender_runs_kept:
  assumes "sender_runs r s = (p', c')" "I (fst s)"
  shows "I p'"
proof (cases "replica_heap (fst s) r")
  case (Some x)
  obtain x1 c1 e where "send_replication_frames False x (snd s) = (x1, c1, e)" by (metis prod_cases3)
  with replica_steps [OF this, of "fst s" r] Some assms show ?thesis by (auto simp: sender_runs_def fun_upd_idem split: prod.splits)
qed (use assms in \<open>auto simp: sender_runs_def split: prod.splits\<close>)

lemma close_replica_kept: "I p \<Longrightarrow> I (close_replica_session r p)"
proof (cases "replica_heap p r")
  case (Some s)
  assume "I p"
  from step_keeps [OF this processor_step.connection [OF close_replica [OF Some]]] Some show ?thesis
    by (simp add: close_replica_session_def)
next
  case None
  assume "I p"
  with None show ?thesis by (simp add: close_replica_session_def fun_upd_idem)
qed

lemma release_kept:
  "I p \<Longrightarrow> I (release_session r p)"
  "I p \<Longrightarrow> I (release_replica_session r p)"
  unfolding release_session_def release_replica_session_def
  using step_keeps processor_step.connection connection_step.drop_session connection_step.drop_replica by blast+

end

text \<open>
  What a thread relies on when it waits for the processor: the other threads keep the condition, too.
\<close>

locale processor_access = step_closed +
  fixes get :: future_get
  assumes get_keeps: "I p \<Longrightarrow> I (fst (get q p))"
begin

lemma requested:
  assumes "I p" "submitted p p1" "get q p1 = (p2, r)"
  shows "I p2"
  using get_keeps [OF step_keeps [OF assms(1) processor_step.submission [OF assms(2)]], of q] assms(3) by simp

lemma get_in_kept:
  assumes "get_in get request th = (th', r)" "I (server_processor th)"
    and "\<And>p p1 q. request p = (p1, q) \<Longrightarrow> submitted p p1"
  shows "I (server_processor th')"
proof -
  obtain p1 q where "request (server_processor th) = (p1, q)" by fastforce
  with assms requested [OF assms(2) assms(3) [OF this]] show ?thesis by (auto simp: get_in_def split: prod.splits)
qed

lemma acknowledge_kept:
  assumes "acknowledge_command get client command n s = (s', v)" "I (fst s)"
  shows "I (fst s')"
  using assms requested [OF _ submitted.intros(5)]
  by (auto simp: acknowledge_command_def split: prod.splits if_splits option.splits)

lemma acknowledge_buffered_kept:
  assumes "acknowledge_buffered get client s = (s', v)" "I (fst s)"
  shows "I (fst s')"
proof -
  obtain buffer t w where l: "command_loop (\<lambda>s. (s, Proceed)) (\<lambda>msg. Some (Inl (''Invalid response from replica: '' @ msg)))
      (acknowledge_command get client) (input_buffer (snd s)) s = (buffer, t, w)" by (metis prod_cases3)
  have "I (fst t)"
    by (rule command_loop_invariant [of "\<lambda>s. (s, Proceed)" "\<lambda>s. I (fst s)", OF _ _ l assms(2)])
      (auto dest: acknowledge_kept)
  with l assms(1) show ?thesis by (cases t) (auto simp: acknowledge_buffered_def)
qed

lemma acknowledgements_kept:
  assumes "consume_replica_acknowledgements get client r s = (s', v)" "I (fst s)"
  shows "I (fst s')"
  by (rule acknowledgements_invariant [where I = "\<lambda>t. I (fst t)", OF assms])
    (auto dest: sender_runs_kept acknowledge_buffered_kept)

lemma replica_connection_kept:
  assumes "run_replica_connection get client registration s = (s', v)" "I (fst s)"
  shows "I (fst s')"
proof -
  obtain c1 x where c1: "send_full_resync registration (snd s) = (c1, x)" by fastforce
  let ?r = "registration_session registration"
  obtain p2 c2 y where y: "consume_replica_acknowledgements get client ?r
      (fst s, c1\<lparr>input_buffer := [], stop_requests := \<lambda>_. False, stop_checks := 0\<rparr>) = ((p2, c2), y)"
    by (metis prod_cases3 surj_pair)
  have "I p2" using acknowledgements_kept [OF y] assms(2) by simp
  with assms c1 y close_replica_kept release_kept(2) show ?thesis
    by (auto simp: run_replica_connection_def Let_def split: prod.splits option.splits sum.splits)
qed

lemma become_replica_kept:
  assumes "become_replica get client th = (th', v)" "I (server_processor th)"
  shows "I (server_processor th')"
proof -
  have u: "I (server_processor t')"
    if "get_in get (unregister_client client) t = (t', x)" "I (server_processor t)" for t t' x
    by (rule get_in_kept [OF that]) (rule submitted.intros)
  have r: "I (server_processor t')"
    if "get_in get (register_replica client) t = (t', x)" "I (server_processor t)" for t t' x
    by (rule get_in_kept [OF that]) (rule submitted.intros)
  from assms(1) show ?thesis
  proof (cases rule: become_replica_stages)
    case unregistering
    with u assms(2) show ?thesis by blast
  next
    case registering
    with u r assms(2) show ?thesis by blast
  next
    case (serving th1 a th2 registration p c)
    with replica_connection_kept [OF serving(3)] u r assms(2) show ?thesis by auto
  next
    case (served th1 a th2 registration p c e f)
    have "I p" using replica_connection_kept [OF served(3)] u r assms(2) served(1,2) by auto
    with u [OF served(4)] show ?thesis by simp
  qed
qed

lemma serve_command_kept:
  assumes "serve_command get client command n th = (th', v)" "I (server_processor th)"
    and "client \<noteq> 0" "client \<noteq> aof_client_id"
  shows "I (server_processor th')"
proof (cases "length command = 3 \<and> hd command = ''PSYNC''")
  case True
  with assms(1,2) become_replica_kept show ?thesis by (auto simp: serve_command_def)
next
  case False
  obtain th1 r where 1: "get_in get (submit client command) th = (th1, r)" by fastforce
  have k1: "I (server_processor th1)"
    by (rule get_in_kept [OF 1 assms(2)]) (use assms(3,4) in \<open>auto intro: submitted.intros\<close>)
  obtain th2 stop where 2: "check_stop th1 = (th2, stop)" by fastforce
  have k2: "I (server_processor th2)" using k1 check_stopD [OF 2] by simp
  have "I (server_processor (fst (send_response response th2)))" for response
    using k2 pubsub_frames_kept
    by (auto simp: send_response_def split: prod.splits option.splits sum.splits)
  moreover have "th' = th1 \<or> th' = th2 \<or> (\<exists>response. th' = fst (send_response response th2))"
    using assms(1) False 1 2
    by (cases stop) (auto simp: serve_command_def split: option.splits result.splits if_splits, (metis fst_conv)+)
  ultimately show ?thesis using k1 k2 by auto
qed

lemma serve_buffered_kept:
  assumes "serve_buffered get client th = (th', v)" "I (server_processor th)"
    and "client \<noteq> 0" "client \<noteq> aof_client_id"
  shows "I (server_processor th')"
proof -
  obtain buffer t w where l: "command_loop stop_guard (\<lambda>_. ConnectionClosed) (serve_command get client) (input_buffer (socket th)) th =
      (buffer, t, w)" by (metis prod_cases3)
  have "I (server_processor t)"
  proof (rule command_loop_invariant [of stop_guard "\<lambda>th. I (server_processor th)", OF _ _ l assms(2)])
    fix a a' x assume "stop_guard a = (a', x)" "I (server_processor a)"
    then show "I (server_processor a')"
      by (auto simp: stop_guard_def split: prod.splits dest: check_stopD)
  qed (use serve_command_kept assms(3,4) in blast)
  with l assms(1) show ?thesis by (auto simp: serve_buffered_def)
qed

lemma serve_poll_kept:
  assumes "serve_poll get client result th = (th', v)" "I (server_processor th)"
    and "client \<noteq> 0" "client \<noteq> aof_client_id"
  shows "I (server_processor th')"
proof (cases result)
  case (Polled client_events session_events)
  obtain th1 r where 1: "(if readable session_events then send_pending_pubsub_frames th else (th, Some (Inr ()))) = (th1, r)" by fastforce
  have k1: "I (server_processor th1)" using 1 assms(2) pubsub_frames_kept by (auto split: if_splits)
  obtain th2 w where 2: "receive_and_serve get client th1 = (th2, w)" by fastforce
  have "I (server_processor th2)"
    using 2 k1 serve_buffered_kept [OF _ _ assms(3,4)]
    by (auto simp: receive_and_serve_def Let_def split: list.splits recv_result.splits if_splits)
  with assms(1) Polled 1 2 k1 show ?thesis
    by (auto simp: serve_poll_def split: option.splits sum.splits if_splits verdict.splits leaving.splits)
qed (use assms in \<open>simp_all add: serve_poll_def\<close>)

lemma connection_loop_kept:
  assumes "connection_loop get client polls th = (th', why)" "I (server_processor th)"
    and "client \<noteq> 0" "client \<noteq> aof_client_id"
    and "\<And>others result p. (others, result) \<in> set polls \<Longrightarrow> I p \<Longrightarrow> I (others p)"
  shows "I (server_processor th')"
  using assms(1,2,5)
proof (induction polls arbitrary: th)
  case Nil
  then show ?case by (auto split: prod.splits dest: check_stopD)
next
  case (Cons x polls)
  obtain others result where x: "x = (others, result)" by fastforce
  obtain th0 stop where 0: "check_stop th = (th0, stop)" by fastforce
  then have k0: "I (server_processor th0)" using check_stopD [OF 0] Cons.prems(2) by simp
  then have "I (others (server_processor th0))" using Cons.prems(3) x by auto
  obtain th1 v where 1: "serve_poll get client result (th0\<lparr>server_processor := others (server_processor th0)\<rparr>) = (th1, v)" by fastforce
  have k1: "I (server_processor th1)"
    by (rule serve_poll_kept [OF 1 _ assms(3,4)]) (simp add: \<open>I (others (server_processor th0))\<close>)
  from Cons.IH [of th1] Cons.prems k0 k1 x 0 1 show ?case
    by (cases stop; cases v) auto
qed

lemma leave_connection_kept:
  assumes "leave_connection get client r th = (p', c', returned)" "I (server_processor th)"
  shows "I p'"
proof -
  obtain th1 x where 1: "get_in get (unregister_client client) th = (th1, x)" by fastforce
  have "I (server_processor th1)" by (rule get_in_kept [OF 1 assms(2)]) (rule submitted.intros)
  with assms(1) 1 release_kept(1) show ?thesis by (auto simp: leave_connection_def split: option.splits)
qed

lemma handle_connection_kept:
  assumes "handle_connection get client r created clears polls c p = (p', c', returned)" "I p"
    and "pubsub_heap p r = None" "client \<noteq> 0" "client \<noteq> aof_client_id"
    and "\<And>others result p. (others, result) \<in> set polls \<Longrightarrow> I p \<Longrightarrow> I (others p)"
  shows "I p'"
proof (cases created)
  case (Inr outcomes)
  let ?th = "\<lparr>server_processor = p\<lparr>pubsub_heap := (pubsub_heap p)(r \<mapsto> new_session outcomes)\<rparr>,
    socket = c\<lparr>input_buffer := []\<rparr>, session = r, clear_io = clears, clear_calls = 0\<rparr>"
  have k0: "I (server_processor ?th)"
    using step_keeps [OF assms(2) processor_step.connection [OF open_session [OF assms(3)]]] by simp
  obtain th1 x where 1: "get_in get (register_client client r) ?th = (th1, x)" by fastforce
  have k1: "I (server_processor th1)"
    by (rule get_in_kept [OF 1 k0]) (rule submitted.intros(9) [OF _ assms(4,5)])
  obtain th2 stop where 2: "check_stop th1 = (th2, stop)" by fastforce
  have k2: "I (server_processor th2)" using k1 check_stopD [OF 2] by simp
  obtain th3 why where 3: "connection_loop get client polls th2 = (th3, why)" by fastforce
  have k3: "I (server_processor th3)"
    by (rule connection_loop_kept [OF 3 k2 assms(4,5)]) (rule assms(6))
  have leave: "I (fst (leave_connection get client r t))" if "I (server_processor t)" for t
  proof -
    obtain q d x where "leave_connection get client r t = (q, d, x)" by (metis prod_cases3)
    with leave_connection_kept [OF this that] show ?thesis by simp
  qed
  from assms(1) Inr 1 2 3 have "p' = server_processor th1 \<or> p' = fst (leave_connection get client r th2) \<or>
      p' = server_processor th3 \<or> p' = release_session r (server_processor th3) \<or> p' = fst (leave_connection get client r th3)"
    by (cases x; cases stop; cases why) (auto simp: handle_connection_def Let_def)
  with k1 k3 leave [OF k2] leave [OF k3] release_kept(1) [OF k3] show ?thesis by auto
qed (use assms(1,2) in \<open>simp add: handle_connection_def\<close>)

end

text \<open>A worker that runs alone gives such an access.\<close>

lemma await_worker_steps: "processor_step\<^sup>*\<^sup>* p (fst (await_worker n q p))"
proof (induction n arbitrary: p)
  case 0
  show ?case by (simp add: await_worker.simps split: option.splits)
next
  case (Suc n)
  have "processor_step p p'" if "run_iteration p = Some p'" "tasks p \<noteq> [] \<or> next_pending_deadline p \<noteq> None" for p'
    using that processor_step.iteration processor_step.deadline by (cases "tasks p = []") blast+
  with Suc.IH converse_rtranclp_into_rtranclp [of processor_step] show ?case
    by (auto simp: await_worker.simps [of "Suc n"] split: option.splits)
qed

lemma steps_reachable: "processor_step\<^sup>*\<^sup>* p p' \<Longrightarrow> processor_reachable p \<Longrightarrow> processor_reachable p'"
  by (induction rule: rtranclp_induct) (blast intro: processor_reachable.step)+

interpretation steps_from: step_closed "\<lambda>p'. processor_step\<^sup>*\<^sup>* p p'" for p
  by unfold_locales (rule rtranclp.rtrancl_into_rtrancl)

interpretation worker_alone: processor_access "\<lambda>p'. processor_step\<^sup>*\<^sup>* p p'" "await_worker n" for p n
  by unfold_locales (rule rtranclp_trans [OF _ await_worker_steps])



end
