(* ===== verification/Connection_Service.thy ===== *)
theory Connection_Service
  imports Connections_Correct Processor_Pubsub
begin

text \<open>
  What a client gets from its connection: its commands are executed once, in order, and answered in order,
  however the network cuts them into pieces.
\<close>

section \<open>Commands in sequence\<close>

text \<open>The commands of a client one after the other, with the replies: what the connection is to do.\<close>

fun execute_all :: "future_get \<Rightarrow> client_id \<Rightarrow> command list \<Rightarrow> processor \<Rightarrow> (processor \<times> string) option" where
  "execute_all get client [] p = Some (p, [])"
| "execute_all get client (command # commands) p =
     (case submit client command p of
        (p1, q) \<Rightarrow>
          (case get q p1 of
             (p2, Some (Responded response)) \<Rightarrow>
               if response = NoResponse then None
               else
                 (case execute_all get client commands p2 of
                    None \<Rightarrow> None
                  | Some (p3, replies) \<Rightarrow> Some (p3, serialize_response response @ replies))
           | _ \<Rightarrow> None))"

definition starts_replication :: "command \<Rightarrow> bool" where
  "starts_replication command \<longleftrightarrow> length command = 3 \<and> hd command = ''PSYNC''"

lemma execute_all_append:
  "execute_all get client (cs @ ds) p =
     (case execute_all get client cs p of
        None \<Rightarrow> None
      | Some (p1, out) \<Rightarrow>
          (case execute_all get client ds p1 of None \<Rightarrow> None | Some (p2, out2) \<Rightarrow> Some (p2, out @ out2)))"
  by (induction cs arbitrary: p) (auto split: prod.splits option.splits result.splits)

text \<open>A thread that nobody asks to stop.\<close>

definition undisturbed :: "client_thread \<Rightarrow> bool" where
  "undisturbed th \<longleftrightarrow> stop_requests (socket th) = (\<lambda>_. False)"

lemma check_stop_undisturbed:
  "undisturbed th \<Longrightarrow>
   check_stop th = (th\<lparr>socket := (socket th)\<lparr>stop_checks := Suc (stop_checks (socket th))\<rparr>\<rparr>, False)"
  by (simp add: check_stop_def stop_requested_def undisturbed_def)

lemma serve_command_replies:
  assumes "submit client command (server_processor th) = (p1, q)" "get q p1 = (p2, Some (Responded response))"
    and "response \<noteq> NoResponse" "\<not> starts_replication command"
    and "in_order input out (length (serialize_response response) + n) (socket th)"
  shows "\<exists>th'. serve_command get client command k th = (th', Proceed) \<and> server_processor th' = p2 \<and>
    in_order input (out @ serialize_response response) n (socket th') \<and> input_buffer (socket th') = input_buffer (socket th) \<and>
    recv_results (socket th') = recv_results (socket th)"
proof -
  let ?th1 = "th\<lparr>server_processor := p2\<rparr>"
  let ?c = "(socket th)\<lparr>stop_checks := Suc (stop_checks (socket th))\<rparr>"
  have "undisturbed ?th1" using assms(5) by (simp add: undisturbed_def in_order_def)
  from check_stop_undisturbed [OF this] have stop: "check_stop ?th1 = (?th1\<lparr>socket := ?c\<rparr>, False)" by simp
  have "in_order input out (length (serialize_response response) + n) ?c" using assms(5) by (simp add: in_order_def arriving_def)
  from send_bytes_in_order [OF this] obtain c' where "send_bytes (serialize_response response) ?c = (c', Some (Inr ()))"
    "in_order input (out @ serialize_response response) n c'" "input_buffer c' = input_buffer ?c" "recv_results c' = recv_results ?c"
    by blast
  with assms(1-4) stop show ?thesis
    by (intro exI [of _ "?th1\<lparr>socket := c'\<rparr>"]) (auto simp: serve_command_def starts_replication_def get_in_def send_response_def)
qed

lemma handle_all_executes:
  assumes "execute_all get client cs (server_processor th) = Some (p', replies)" "\<forall>d \<in> set cs. \<not> starts_replication d"
    and "in_order input out (length replies + n) (socket th)"
  shows "\<exists>th'. handle_all stop_guard (serve_command get client) cs th = Some th' \<and> server_processor th' = p' \<and>
    in_order input (out @ replies) n (socket th') \<and> input_buffer (socket th') = input_buffer (socket th) \<and>
    recv_results (socket th') = recv_results (socket th)"
  using assms
proof (induction cs arbitrary: th out replies)
  case (Cons d cs)
  obtain p1 q where s: "submit client d (server_processor th) = (p1, q)" by fastforce
  from Cons.prems(1) s obtain p2 response out2 where g: "get q p1 = (p2, Some (Responded response))" "response \<noteq> NoResponse"
    and e: "execute_all get client cs p2 = Some (p', out2)" "replies = serialize_response response @ out2"
    by (auto split: prod.splits option.splits result.splits if_splits)
  let ?th = "th\<lparr>socket := (socket th)\<lparr>stop_checks := Suc (stop_checks (socket th))\<rparr>\<rparr>"
  have "undisturbed th" using Cons.prems(3) by (simp add: undisturbed_def in_order_def)
  then have guard: "stop_guard th = (?th, Proceed)" by (simp add: stop_guard_def check_stop_undisturbed)
  have "in_order input out (length (serialize_response response) + (length out2 + n)) (socket ?th)"
    using Cons.prems(3) e(2) by (simp add: in_order_def arriving_def add.assoc)
  from serve_command_replies [of client d ?th p1 q get, OF _ g(1,2) _ this] s Cons.prems(2) obtain th1 where
    th1: "serve_command get client d (length (serialize_command d)) ?th = (th1, Proceed)" "server_processor th1 = p2"
      "in_order input (out @ serialize_response response) (length out2 + n) (socket th1)"
      "input_buffer (socket th1) = input_buffer (socket th)" "recv_results (socket th1) = recv_results (socket th)"
    by auto
  from Cons.IH [of th1 out2 "out @ serialize_response response"] e th1 Cons.prems(2) guard show ?case by auto
qed simp

lemma send_bytes_stop [simp]: "stop_requests (fst (send_bytes bytes c)) = stop_requests c"
  by (simp add: send_bytes_def split: prod.splits)

lemma stop_requested_stop [simp]: "stop_requests (fst (stop_requested c)) = stop_requests c"
  by (simp add: stop_requested_def)

lemma sender_stop:
  "send_replication_frames stop s c = (s', c', ended) \<Longrightarrow> stop_requests c' = stop_requests c"
proof (induction stop s c rule: send_replication_frames.induct)
  case (1 stop s c)
  show ?case
  proof (cases "\<exists>s1 f. wait_for_frame stop s = Some (s1, Some f)")
    case True
    then obtain s1 f where w: "wait_for_frame stop s = Some (s1, Some f)" by blast
    obtain c1 r where c1: "send_bytes (payload f) c = (c1, r)" by fastforce
    then have k: "stop_requests c1 = stop_requests c" using send_bytes_stop [of "payload f" c] by simp
    show ?thesis
    proof (cases "r = Some (Inr ())")
      case r: True
      with 1(1) [OF w refl refl c1 [symmetric] r refl] 1(2) w c1 k show ?thesis by (simp add: send_replication_frames.simps [of stop s])
    next
      case False
      with 1(2) w c1 k show ?thesis
        by (cases r) (auto simp: send_replication_frames.simps [of stop s] shutdown_socket_def split: sum.splits)
    qed
  qed (use 1(2) in \<open>auto simp: send_replication_frames.simps [of stop s] split: option.splits\<close>)
qed

lemma sender_runs_stop: "sender_runs r s = (p', c') \<Longrightarrow> stop_requests c' = stop_requests (snd s)"
  by (auto simp: sender_runs_def split: prod.splits option.splits dest: sender_stop)

lemma acknowledge_buffered_stop:
  assumes "acknowledge_buffered get client s = (s', w)"
  shows "stop_requests (snd s') = stop_requests (snd s)"
proof -
  obtain buffer t v where l: "command_loop (\<lambda>s. (s, Proceed)) (\<lambda>msg. Some (Inl (''Invalid response from replica: '' @ msg)))
      (acknowledge_command get client) (input_buffer (snd s)) s = (buffer, t, v)" by (metis prod_cases3)
  have "stop_requests (snd t) = stop_requests (snd s)"
    by (rule command_loop_invariant [of "\<lambda>s. (s, Proceed)" "\<lambda>t. stop_requests (snd t) = stop_requests (snd s)", OF _ _ l])
      (auto simp: acknowledge_command_def split: prod.splits if_splits option.splits)
  with l assms show ?thesis by (cases t) (auto simp: acknowledge_buffered_def)
qed

lemma acknowledgements_stop:
  assumes "consume_replica_acknowledgements get client r s = (s', v)"
  shows "stop_requests (snd s') = stop_requests (snd s)"
  by (rule acknowledgements_invariant [where I = "\<lambda>t. stop_requests (snd t) = stop_requests (snd s)", OF assms])
    (auto dest: sender_runs_stop acknowledge_buffered_stop)

lemma full_resync_stop: "send_full_resync registration c = (c', v) \<Longrightarrow> stop_requests c' = stop_requests c"
  by (auto simp: send_full_resync_def and_then_def split: prod.splits option.splits sum.splits)
    (metis send_bytes_stop fst_conv)+

lemma replica_connection_undisturbed:
  assumes "run_replica_connection get client registration s = (s', v)" "stop_requests (snd s) = (\<lambda>_. False)"
  shows "stop_requests (snd s') = (\<lambda>_. False)"
proof -
  obtain c1 x where c1: "send_full_resync registration (snd s) = (c1, x)" by fastforce
  obtain p2 c2 y where y: "consume_replica_acknowledgements get client (registration_session registration)
      (fst s, c1\<lparr>input_buffer := [], stop_requests := \<lambda>_. False, stop_checks := 0\<rparr>) = ((p2, c2), y)"
    by (metis prod_cases3 surj_pair)
  from acknowledgements_stop [OF y] full_resync_stop [OF c1] assms c1 y show ?thesis
    by (auto simp: run_replica_connection_def Let_def shutdown_socket_def split: prod.splits option.splits sum.splits)
qed

lemma session_frames_stop:
  "send_session_frames s c = (s', c', v) \<Longrightarrow> stop_requests c' = stop_requests c"
proof (induction s c rule: send_session_frames.induct)
  case (1 s c)
  obtain s1 f where f: "pop_frame s = (s1, f)" by fastforce
  show ?case
  proof (cases f)
    case None
    with 1(2) f show ?thesis by (simp add: send_session_frames.simps [of s])
  next
    case (Some frame)
    obtain c1 x where c1: "send_bytes frame c = (c1, x)" by fastforce
    then have k: "stop_requests c1 = stop_requests c" using send_bytes_stop [of frame c] by simp
    show ?thesis
    proof (cases "x = Some (Inr ())")
      case True
      with 1(1) [OF f [symmetric] Some c1 [symmetric] _ refl] 1(2) f Some c1 k show ?thesis
        by (simp add: send_session_frames.simps [of s])
    qed (use 1(2) f Some c1 k in \<open>auto simp: send_session_frames.simps [of s] split: option.splits sum.splits\<close>)
  qed
qed

lemma pubsub_frames_stop: "send_pending_pubsub_frames th = (th', v) \<Longrightarrow> stop_requests (socket th') = stop_requests (socket th)"
  by (auto simp: send_pending_pubsub_frames_def Let_def split: option.splits prod.splits sum.splits dest: session_frames_stop)

lemma serve_command_undisturbed:
  assumes "undisturbed th"
  shows "undisturbed (fst (serve_command get client command n th))"
proof -
  have get_in: "socket th' = socket t" if "get_in get request t = (th', v)" for request t th' v
    using that by (auto simp: get_in_def split: prod.splits)
  have "undisturbed (fst (become_replica get client th))"
  proof -
    obtain th' v where b: "become_replica get client th = (th', v)" by fastforce
    from b have "undisturbed th'"
    proof (cases rule: become_replica_stages)
      case (serving th1 a th2 registration p c)
      with replica_connection_undisturbed [OF serving(3)] assms show ?thesis by (auto simp: undisturbed_def dest!: get_in)
    next
      case (served th1 a th2 registration p c e f)
      with replica_connection_undisturbed [OF served(3)] assms show ?thesis by (auto simp: undisturbed_def dest!: get_in)
    qed (use assms in \<open>auto simp: undisturbed_def dest!: get_in\<close>)
    with b show ?thesis by simp
  qed
  moreover have "undisturbed (fst (send_response response t))" if "undisturbed t" for response t
  proof -
    obtain c1 x where c1: "send_bytes (serialize_response response) (socket t) = (c1, x)" by fastforce
    then have "stop_requests c1 = (\<lambda>_. False)"
      using send_bytes_stop [of "serialize_response response" "socket t"] that by (simp add: undisturbed_def)
    with c1 show ?thesis
      by (auto simp: send_response_def undisturbed_def split: prod.splits option.splits sum.splits dest!: pubsub_frames_stop)
  qed
  moreover obtain th1 x where 1: "get_in get (submit client command) th = (th1, x)" by fastforce
  moreover have "undisturbed th1" using get_in [OF 1] assms by (simp add: undisturbed_def)
  moreover from this have "undisturbed (th1\<lparr>socket := (socket th1)\<lparr>stop_checks := Suc (stop_checks (socket th1))\<rparr>\<rparr>)"
    by (simp add: undisturbed_def)
  ultimately show ?thesis
    using check_stop_undisturbed [OF \<open>undisturbed th1\<close>] by (auto simp: serve_command_def split: option.splits result.splits)
qed

lemma undisturbed_keeps_going: "keeps_going undisturbed stop_guard (serve_command get client)"
  using serve_command_undisturbed by (auto simp: keeps_going_def stop_guard_def check_stop_undisturbed) (simp add: undisturbed_def)

lemma in_order_undisturbed: "in_order input out n (socket th) \<Longrightarrow> undisturbed th"
  by (simp add: undisturbed_def in_order_def)

lemma serve_buffered_executes:
  assumes "execute_all get client cs (server_processor th) = Some (p', replies)" "\<forall>d \<in> set cs. \<not> starts_replication d"
    and "in_order (concat (map serialize_command cs)) out (length replies + n) (socket th)" "list_all sized cs"
  shows "\<exists>th1 ds ls out1 replies1. serve_buffered get client th = (th1, Proceed) \<and> cs = ds @ ls \<and>
    execute_all get client ls (server_processor th1) = Some (p', replies1) \<and> replies = out1 @ replies1 \<and>
    in_order (concat (map serialize_command ls)) (out @ out1) (length replies1 + n) (socket th1) \<and>
    unfinished (input_buffer (socket th1)) ls \<and> recv_results (socket th1) = recv_results (socket th)"
proof -
  let ?ser = "\<lambda>cs. concat (map serialize_command cs)" and ?h = "serve_command get client"
  from handle_all_executes [OF assms(1-3)] obtain s' where all: "handle_all stop_guard ?h cs th = Some s'" by blast
  have pre: "prefix (input_buffer (socket th)) (?ser cs)"
    by (rule prefixI [of _ _ "concat (map received (recv_results (socket th)))"]) (use assms(3) in \<open>simp add: in_order_def arriving_def\<close>)
  from command_loop_stream [OF assms(4) pre all undisturbed_keeps_going in_order_undisturbed [OF assms(3)], of "\<lambda>_. ConnectionClosed"]
  obtain ds ls rest s1 where cs: "cs = ds @ ls" "input_buffer (socket th) = ?ser ds @ rest" "unfinished rest ls"
    and ds: "handle_all stop_guard ?h ds th = Some s1"
    and loop: "command_loop stop_guard (\<lambda>_. ConnectionClosed) ?h (input_buffer (socket th)) th =
      (rest, if rest = [] then s1 else fst (stop_guard s1), Proceed)" by blast
  from assms(1) cs(1) obtain p1 out1 replies1 where e: "execute_all get client ds (server_processor th) = Some (p1, out1)"
    "execute_all get client ls p1 = Some (p', replies1)" "replies = out1 @ replies1"
    by (auto simp: execute_all_append split: option.splits prod.splits)
  have "in_order (?ser cs) out (length out1 + (length replies1 + n)) (socket th)" using assms(3) e(3) by (simp add: add.assoc)
  from handle_all_executes [OF e(1) _ this] ds assms(2) cs(1) have s1: "server_processor s1 = p1"
    "in_order (?ser cs) (out @ out1) (length replies1 + n) (socket s1)" "recv_results (socket s1) = recv_results (socket th)" by auto
  let ?s2 = "if rest = [] then s1 else fst (stop_guard s1)"
  let ?th1 = "?s2\<lparr>socket := (socket ?s2)\<lparr>input_buffer := rest\<rparr>\<rparr>"
  have g: "fst (stop_guard s1) = s1\<lparr>socket := (socket s1)\<lparr>stop_checks := Suc (stop_checks (socket s1))\<rparr>\<rparr>"
    using check_stop_undisturbed [OF in_order_undisturbed [OF s1(2)]] by (simp add: stop_guard_def)
  have "rest @ concat (map received (recv_results (socket th))) = ?ser ls"
    using assms(3) cs(1,2) by (simp add: in_order_def arriving_def)
  then have "in_order (?ser ls) (out @ out1) (length replies1 + n) (socket ?th1)"
    using s1(2,3) g by (auto simp: in_order_def arriving_def)
  moreover have "serve_buffered get client th = (?th1, Proceed)" using loop by (simp add: serve_buffered_def)
  ultimately show ?thesis
    using cs(1,3) e(2,3) s1 g by (intro exI [of _ ?th1] exI [of _ ds] exI [of _ ls] exI [of _ out1] exI [of _ replies1]) auto
qed

text \<open>A \<open>poll\<close> that reports input on the socket.\<close>

definition data_ready :: poll where
  "data_ready = (id, Polled \<lparr>readable = True, broken = False\<rparr> \<lparr>readable = False, broken = False\<rparr>)"

lemma connection_loop_executes:
  assumes "execute_all get client cs (server_processor th) = Some (p', replies)" "\<forall>d \<in> set cs. \<not> starts_replication d"
    and "in_order (concat (map serialize_command cs)) out (length replies + n) (socket th)" "list_all sized cs"
    and "unfinished (input_buffer (socket th)) cs" "recv_results (socket th) = map Received chunks"
  shows "\<exists>th'. connection_loop get client (replicate (length chunks) data_ready) th = (th', Waiting) \<and>
    server_processor th' = p' \<and> in_order [] (out @ replies) n (socket th')"
  using assms
proof (induction chunks arbitrary: th cs out replies)
  case Nil
  from Nil.prems(3,6) have "input_buffer (socket th) = concat (map serialize_command cs)" by (simp add: in_order_def arriving_def)
  with unfinished_done [OF Nil.prems(5)] have "cs = []" .
  with Nil.prems(1,3) check_stop_undisturbed [OF in_order_undisturbed [OF Nil.prems(3)]] show ?case
    by (auto simp: in_order_def arriving_def)
next
  case (Cons chunk chunks)
  note stop = check_stop_undisturbed [OF in_order_undisturbed [OF Cons.prems(3)]]
  let ?c = "(socket th)\<lparr>stop_checks := Suc (stop_checks (socket th)), recv_results := map Received chunks,
    input_buffer := input_buffer (socket th) @ chunk\<rparr>"
  let ?th = "th\<lparr>socket := ?c\<rparr>"
  have "in_order (concat (map serialize_command cs)) out (length replies + n) (socket ?th)" "chunk \<noteq> []"
    using Cons.prems(3,6) by (auto simp: in_order_def arriving_def)
  from serve_buffered_executes [of get client cs ?th, OF _ Cons.prems(2) this(1) Cons.prems(4)] Cons.prems(1) obtain th1 ds ls out1 replies1 where
    s: "serve_buffered get client ?th = (th1, Proceed)" "cs = ds @ ls" "replies = out1 @ replies1"
      "execute_all get client ls (server_processor th1) = Some (p', replies1)"
      "in_order (concat (map serialize_command ls)) (out @ out1) (length replies1 + n) (socket th1)"
      "unfinished (input_buffer (socket th1)) ls" "recv_results (socket th1) = map Received chunks" by auto
  have "connection_loop get client (replicate (length (chunk # chunks)) data_ready) th =
      connection_loop get client (replicate (length chunks) data_ready) th1"
    using stop s(1) Cons.prems(6) \<open>chunk \<noteq> []\<close> by (simp add: data_ready_def serve_poll_def receive_and_serve_def Let_def)
  with Cons.IH [OF s(4) _ s(5) _ s(6,7)] Cons.prems(2,4) s(2,3) show ?case by simp
qed

text \<open>
  C7: The commands of a client are executed once, in the order in which it sent them, and answered in that
  order, however the network cuts the bytes into pieces. If the bytes of a sequence of commands arrive in
  any non-empty chunks, also chunks that end in the middle of a command or hold several, then the thread of the
  connection leaves the processor in the state that results from registering the client and executing its
  commands one after the other, and has sent the replies to them, one behind the other, and nothing else. This
  holds whatever other threads do while the thread waits for the processor. Replication requests and
  commands that are answered through the client's session are not covered.
\<close>

theorem pipelined_commands_served_in_order:
  assumes "concat chunks = concat (map serialize_command commands)" "[] \<notin> set chunks" "list_all sized commands"
    and "\<forall>command \<in> set commands. \<not> starts_replication command"
    and "register_client client r (p\<lparr>pubsub_heap := (pubsub_heap p)(r \<mapsto> new_session outcomes)\<rparr>) = (p1, q)"
    and "get q p1 = (p2, Some registered)" "execute_all get client commands p2 = Some (p3, replies)"
    and "accepting (length replies) sends"
  shows "\<exists>c. handle_connection get client r (Inr outcomes) clears (replicate (length chunks) data_ready)
      (new_connection (map Received chunks) sends (\<lambda>_. False)) p = (p3, c, False) \<and> sent c = replies \<and> arriving c = []"
proof -
  let ?c = "new_connection (map Received chunks) sends (\<lambda>_. False)"
  let ?th = "\<lparr>server_processor = p\<lparr>pubsub_heap := (pubsub_heap p)(r \<mapsto> new_session outcomes)\<rparr>,
    socket = ?c\<lparr>input_buffer := []\<rparr>, session = r, clear_io = clears, clear_calls = 0\<rparr>"
  let ?th1 = "?th\<lparr>server_processor := p2\<rparr>"
  let ?th2 = "?th1\<lparr>socket := (socket ?th1)\<lparr>stop_checks := Suc 0\<rparr>\<rparr>"
  have get: "get_in get (register_client client r) ?th = (?th1, Some registered)" using assms(5,6) by (simp add: get_in_def)
  have "concat (map (received \<circ> Received) chunks) = concat chunks" "flowing (map Received chunks)"
    using assms(2) by (auto simp: flowing_def list_all_iff intro!: arg_cong [where f = concat] map_idI)
  then have o: "in_order (concat (map serialize_command commands)) [] (length replies + 0) (socket ?th2)"
    using assms(1,8) by (simp add: in_order_def arriving_def new_connection_def)
  have stop: "check_stop ?th1 = (?th2, False)" by (simp add: check_stop_def stop_requested_def new_connection_def)
  from connection_loop_executes [of get client commands ?th2, OF _ assms(4) o assms(3), of p3 chunks] assms(7) obtain th' where
    "connection_loop get client (replicate (length chunks) data_ready) ?th2 = (th', Waiting)" "server_processor th' = p3"
    "in_order [] replies 0 (socket th')" by (auto simp: unfinished_def new_connection_def)
  with get stop show ?thesis by (simp add: handle_connection_def Let_def in_order_def)
qed

text \<open>A client that sends two commands, of which the first arrives in two pieces.\<close>

lemma registration_answered:
  "await_worker 9 0 (fst (register_client 7 0 session_opened)) = (client_registered, Some Completed)"
proof -
  have "fulfilled client_registered = [(0, Completed)]"
    by (simp add: client_registered_def session_opened_def worker_simps register_client_def process_client_registration_def
        fresh_processor_def new_processor_def make_default_acl_user_def Let_def)
  moreover have "fulfilled (fst (register_client 7 0 session_opened)) = []" "tasks (fst (register_client 7 0 session_opened)) \<noteq> []"
    by (simp_all add: register_client_def submit_task_def session_opened_def fresh_processor_def new_processor_def)
  ultimately show ?thesis
    using client_registered_fields(1) by (simp add: await_worker.simps)
qed

lemma two_commands_executed:
  "\<exists>p. execute_all (await_worker 9) 7 [[''PING''], [''MULTI'']] client_registered =
     Some (p, serialize_response (SimpleString ''PONG'') @ serialize_response (SimpleString ''OK''))"
proof -
  have f: "fulfilled client_registered = [(0, Completed)]" "next_promise client_registered = 1"
    by (simp_all add: client_registered_def session_opened_def worker_simps register_client_def process_client_registration_def
        fresh_processor_def new_processor_def make_default_acl_user_def Let_def)
  show ?thesis
    by (simp add: await_worker.simps f worker_simps client_registered_fields named_def is_authenticated_def execute_task_def
        process_command_def run_dispatch_def dispatch_table ping_def
        log_direct_write_def advance_offset_def deliver_def response_is_error_def is_write_command_iff Let_def)
qed

theorem pipelined_commands_served_in_order_witness:
  "\<exists>p c. handle_connection (await_worker 9) 7 0 (Inr (\<lambda>_. Written)) (\<lambda>_. Written) [data_ready, data_ready]
     (new_connection [Received (take 5 (serialize_command [''PING''])),
        Received (drop 5 (serialize_command [''PING'']) @ serialize_command [''MULTI''])] (replicate 12 (Sent 1)) (\<lambda>_. False))
     fresh_processor = (p, c, False) \<and> sent c = serialize_response (SimpleString ''PONG'') @ serialize_response (SimpleString ''OK'')"
proof -
  let ?chunks = "[take 5 (serialize_command [''PING'']), drop 5 (serialize_command [''PING'']) @ serialize_command [''MULTI'']]"
  let ?replies = "serialize_response (SimpleString ''PONG'') @ serialize_response (SimpleString ''OK'')"
  have promise: "register_client 7 0 (fresh_processor\<lparr>pubsub_heap := (pubsub_heap fresh_processor)(0 \<mapsto> new_session (\<lambda>_. Written))\<rparr>) =
      (fst (register_client 7 0 session_opened), 0)"
    by (simp add: register_client_def submit_task_def session_opened_def fresh_processor_def new_processor_def)
  obtain p where p: "execute_all (await_worker 9) 7 [[''PING''], [''MULTI'']] client_registered = Some (p, ?replies)"
    using two_commands_executed by blast
  have "concat ?chunks = concat (map serialize_command [[''PING''], [''MULTI'']])"
    by (simp flip: append_assoc)
  moreover have "[] \<notin> set ?chunks" by (simp add: serialize_command_def append_bulk_string_eq enc_bulk_def)
  moreover have "accepting (length ?replies) (replicate 12 (Sent 1))"
    by (simp add: accepting_def list_all_iff serialize_response_def crlf_def)
  ultimately have "\<exists>c. handle_connection (await_worker 9) 7 0 (Inr (\<lambda>_. Written)) (\<lambda>_. Written) (replicate (length ?chunks) data_ready)
      (new_connection (map Received ?chunks) (replicate 12 (Sent 1)) (\<lambda>_. False)) fresh_processor = (p, c, False) \<and>
      sent c = ?replies \<and> arriving c = []"
    by (intro pipelined_commands_served_in_order [OF _ _ _ _ promise registration_answered p])
      (simp_all add: starts_replication_def sized_def)
  then show ?thesis by (auto simp: numeral_2_eq_2)
qed

end
