(* ===== verification/Processor_Results.thy ===== *)
theory Processor_Results
  imports Processor_Promises
begin

text \<open>
  What the promises are fulfilled with: the value of a future has the type that the function promises
  which returned the future.
\<close>

section \<open>Answers to blocked commands\<close>

text \<open>
  What is true of the blocked commands and of the answers given so far, and is kept by answering blocked
  commands.
\<close>

locale blocked_invariant =
  fixes admits :: "task \<Rightarrow> bool" and fits :: "promise \<Rightarrow> result \<Rightarrow> bool"
  assumes answer_fits: "admits t \<Longrightarrow> fits (task_promise t) (Responded r)"
begin

definition holds :: "processor \<Rightarrow> bool" where
  "holds p \<longleftrightarrow> (\<forall>x \<in> set (pending_list_pops p). admits (pop_task x)) \<and>
     (\<forall>x \<in> set (pending_stream_reads p). admits (read_task x)) \<and>
     (\<forall>x \<in> set (pending_waits p). admits (wait_task x)) \<and> (\<forall>(q, r) \<in> set (fulfilled p). fits q r)"

lemma holds_bookkeeping: "bookkeeping p' = bookkeeping p \<Longrightarrow> holds p' = holds p"
  by (simp add: holds_def bookkeeping_def)

lemma holds_fulfil: "holds p \<Longrightarrow> fits q r \<Longrightarrow> holds (fulfil q r p)"
  by (simp add: holds_def)

lemma holds_tick [simp]: "holds (tick p) = holds p"
  by (simp add: holds_def)

lemma holds_updates [simp]:
  "holds (p\<lparr>database := db\<rparr>) = holds p" "holds (p\<lparr>replica_sessions := rs\<rparr>) = holds p"
  "holds (p\<lparr>pubsub_heap := h\<rparr>) = holds p" "holds (p\<lparr>replica_heap := g\<rparr>) = holds p"
  "holds (p\<lparr>replication := s\<rparr>) = holds p" "holds (p\<lparr>transactions := ts\<rparr>) = holds p"
  "holds (p\<lparr>tasks := tks\<rparr>) = holds p" "holds (p\<lparr>next_promise := n\<rparr>) = holds p"
  by (simp_all add: holds_def)

lemma holds_less:
  "holds p \<Longrightarrow> (\<And>x. x \<in> set xs \<Longrightarrow> admits (pop_task x)) \<Longrightarrow> holds (p\<lparr>pending_list_pops := xs\<rparr>)"
  "holds p \<Longrightarrow> (\<And>x. x \<in> set ys \<Longrightarrow> admits (read_task x)) \<Longrightarrow> holds (p\<lparr>pending_stream_reads := ys\<rparr>)"
  "holds p \<Longrightarrow> (\<And>x. x \<in> set zs \<Longrightarrow> admits (wait_task x)) \<Longrightarrow> holds (p\<lparr>pending_waits := zs\<rparr>)"
  by (auto simp: holds_def)

lemma holds_respond: "holds p \<Longrightarrow> admits t \<Longrightarrow> holds (respond t r p)"
  by (simp add: holds_fulfil answer_fits)

lemma holds_answer_pop: "holds p \<Longrightarrow> admits t \<Longrightarrow> holds (answer_pop t k v p)"
proof -
  assume h: "holds p" "admits t"
  obtain p1 r where b: "persist_blocking_pop t k p = (p1, r)" by fastforce
  with holds_bookkeeping [OF persist_blocking_pop_frame(1) [OF b]] h holds_respond show ?thesis
    by (auto simp: answer_pop_def split: sum.splits)
qed

lemma retry_list_pops_holds:
  "retry_list_pops xs p = (p', left) \<Longrightarrow> holds p \<Longrightarrow> (\<And>x. x \<in> set xs \<Longrightarrow> admits (pop_task x)) \<Longrightarrow>
   holds p' \<and> set left \<subseteq> set xs"
proof (induction xs arbitrary: p p' left)
  case (Cons x xs)
  obtain p1 r where pop: "pop_for (pending_key x) p = (p1, r)" by fastforce
  have k: "holds p1" using holds_bookkeeping [OF pop_for_bookkeeping [OF pop]] Cons.prems(2) by simp
  have a: "admits (pop_task x)" using Cons.prems(3) by simp
  show ?case
  proof (cases r)
    case (Inr v)
    from Cons.IH [of "answer_pop (pop_task x) (pending_key x) v p1" p' left, OF _ holds_answer_pop [OF k a]] Cons.prems(1,3) pop Inr show ?thesis by auto
  next
    case (Inl e)
    show ?thesis
    proof (cases "e = WRONG_TYPE")
      case True
      from Cons.IH [OF _ holds_respond [OF k a]] Cons.prems(1,3) pop Inl True show ?thesis by auto
    next
      case False
      obtain p2 left2 where r2: "retry_list_pops xs p1 = (p2, left2)" by fastforce
      from Cons.IH [OF r2 k] Cons.prems(1,3) pop Inl False r2 show ?thesis by auto
    qed
  qed
qed simp

lemma retry_stream_reads_holds:
  "retry_stream_reads xs p = (p', left) \<Longrightarrow> holds p \<Longrightarrow> (\<And>x. x \<in> set xs \<Longrightarrow> admits (read_task x)) \<Longrightarrow>
   holds p' \<and> read_task ` set left \<subseteq> read_task ` set xs"
proof (induction xs arbitrary: p p' left)
  case (Cons x xs)
  obtain p1 requests r where read: "read_for (pending_requests x) p = (p1, requests, r)" by (metis prod_cases3)
  have k: "holds p1" using holds_bookkeeping [OF read_for_bookkeeping [OF read]] Cons.prems(2) by simp
  have a: "holds (respond (read_task x) response p1)" for response by (rule holds_respond [OF k]) (simp add: Cons.prems(3))
  obtain p2 left2 where r2: "retry_stream_reads xs p1 = (p2, left2)" by fastforce
  consider (answered) response where "retry_stream_reads xs (respond (read_task x) response p1) = (p', left)"
    | (kept) "p' = p2" "left = x\<lparr>pending_requests := requests\<rparr> # left2"
    using Cons.prems(1) read r2 by (auto split: sum.splits if_splits)
  then show ?case
  proof cases
    case answered
    from Cons.IH [OF this a] Cons.prems(3) show ?thesis by auto
  next
    case kept
    with Cons.IH [OF r2 k] Cons.prems(3) show ?thesis by auto
  qed
qed simp

lemma retry_waits_holds:
  "retry_waits xs p = (p', left) \<Longrightarrow> holds p \<Longrightarrow> (\<And>x. x \<in> set xs \<Longrightarrow> admits (wait_task x)) \<Longrightarrow>
   holds p' \<and> set left \<subseteq> set xs"
proof (induction xs arbitrary: p p' left)
  case (Cons x xs)
  obtain p1 n where c: "count_acknowledged_replicas (target_offset x) p = (p1, n)" by fastforce
  have k: "holds p1" using c Cons.prems(2) by (auto simp: count_acknowledged_replicas_def Let_def)
  have a: "holds (respond (wait_task x) response p1)" for response by (rule holds_respond [OF k]) (simp add: Cons.prems(3))
  obtain p2 left2 where r2: "retry_waits xs p1 = (p2, left2)" by fastforce
  show ?case
  proof (cases "n < pending_replicas x")
    case True
    with Cons.IH [OF r2 k] Cons.prems(1,3) c r2 show ?thesis by auto
  next
    case False
    with Cons.IH [OF _ a] Cons.prems(1,3) c show ?thesis by auto
  qed
qed simp

lemma expire_waits_holds:
  "expire_waits now xs p = (p', left) \<Longrightarrow> holds p \<Longrightarrow> (\<And>x. x \<in> set xs \<Longrightarrow> admits (wait_task x)) \<Longrightarrow>
   holds p' \<and> set left \<subseteq> set xs"
proof (induction xs arbitrary: p p' left)
  case (Cons x xs)
  obtain p1 n where c: "count_acknowledged_replicas (target_offset x) p = (p1, n)" by fastforce
  have k: "holds p1" using c Cons.prems(2) by (auto simp: count_acknowledged_replicas_def Let_def)
  have a: "holds (respond (wait_task x) response p1)" for response by (rule holds_respond [OF k]) (simp add: Cons.prems(3))
  obtain p2 left2 where r2: "expire_waits now xs p = (p2, left2)" by fastforce
  show ?case
  proof (cases "overdue now (wait_deadline x)")
    case False
    with Cons.IH [OF r2 Cons.prems(2)] Cons.prems(1,3) r2 show ?thesis by auto
  next
    case True
    with Cons.IH [OF _ a] Cons.prems(1,3) c show ?thesis by auto
  qed
qed simp

lemma after_task_holds:
  assumes "holds p"
  shows "holds (expire_all (retry_all p))" "holds (expire_all p)"
proof -
  have pops: "holds (retry_pending_list_pops p)" if "holds p" for p
  proof -
    obtain p1 left where r: "retry_list_pops (pending_list_pops p) p = (p1, left)" by fastforce
    from retry_list_pops_holds [OF r that] that have "holds p1" "set left \<subseteq> set (pending_list_pops p)" by (auto simp: holds_def)
    with that r show ?thesis by (auto simp: retry_pending_list_pops_def holds_def)
  qed
  have reads: "holds (retry_pending_stream_reads p)" if "holds p" for p
  proof -
    obtain p1 left where r: "retry_stream_reads (pending_stream_reads p) p = (p1, left)" by fastforce
    from retry_stream_reads_holds [OF r that] that have "holds p1" "read_task ` set left \<subseteq> read_task ` set (pending_stream_reads p)"
      by (auto simp: holds_def)
    with that r show ?thesis by (auto simp: retry_pending_stream_reads_def holds_def)
  qed
  have waits: "holds (retry_pending_waits p)" if "holds p" for p
  proof -
    obtain p1 left where r: "retry_waits (pending_waits p) p = (p1, left)" by fastforce
    from retry_waits_holds [OF r that] that have "holds p1" "set left \<subseteq> set (pending_waits p)" by (auto simp: holds_def)
    with that r show ?thesis by (auto simp: retry_pending_waits_def holds_def)
  qed
  have expire_waits: "holds (expire_pending_waits p)" if "holds p" for p
  proof -
    obtain p1 left where r: "expire_waits (steady_clock (current_env p) 0) (pending_waits p) p = (p1, left)" by fastforce
    from expire_waits_holds [OF r that] that have "holds p1" "set left \<subseteq> set (pending_waits p)" by (auto simp: holds_def)
    with that r show ?thesis by (auto simp: expire_pending_waits_def holds_def)
  qed
  have "holds (expire_pending_list_pops p)" if "holds p" for p
    using that answer_fits by (auto simp: expire_pending_list_pops_def Let_def holds_def)
  moreover have "holds (expire_pending_stream_reads p)" if "holds p" for p
    using that answer_fits by (auto simp: expire_pending_stream_reads_def Let_def holds_def)
  ultimately have e: "holds (expire_all p)" if "holds p" for p using that expire_waits by (simp add: expire_all_def)
  show "holds (expire_all (retry_all p))" using e pops reads waits assms by (simp add: retry_all_def)
  show "holds (expire_all p)" using e assms .
qed

lemma process_task_holds:
  assumes "process_task t p = Some p'" "holds p" "admits t"
  shows "holds p'"
  using assms(1)
proof (cases rule: process_task_cases)
  case (refused r p1)
  with holds_bookkeeping [OF rest_partD(1) [OF refused(1)]] assms(2,3) holds_respond show ?thesis by simp
next
  case (readonly p1)
  then have "holds p1" using assms(2) by (simp split: option.splits)
  with readonly(5) assms(3) holds_respond show ?thesis by simp
next
  case blpop
  from blpop(2) show ?thesis
  proof (cases rule: process_blpop_cases)
    case (popped r p1 v)
    with holds_bookkeeping [OF pop_for_bookkeeping [OF popped(2)]] assms holds_answer_pop show ?thesis by simp
  next
    case (wrong_type r p1)
    with holds_bookkeeping [OF pop_for_bookkeeping [OF wrong_type(2)]] assms holds_respond show ?thesis by simp
  next
    case (blocked r p1 e d)
    with holds_bookkeeping [OF pop_for_bookkeeping [OF blocked(2)]] assms show ?thesis by (auto simp: holds_def)
  qed (use assms holds_respond in simp)
next
  case xread
  then show ?thesis
  proof (cases rule: process_xread_cases)
    case (answered c p1 requests result r)
    with holds_bookkeeping [OF read_for_bookkeeping [OF answered(2)]] assms holds_respond show ?thesis by simp
  next
    case (blocked c p1 requests d)
    with holds_bookkeeping [OF read_for_bookkeeping [OF blocked(2)]] assms show ?thesis by (auto simp: holds_def)
  qed (use assms holds_respond in simp)
next
  case wait
  have f: "bookkeeping (append_replication_frame bytes q) = bookkeeping q" for bytes q by simp
  have w: "\<forall>x \<in> set (pending_waits q). admits (wait_task x)" if "holds q" for q using that by (simp add: holds_def)
  from wait show ?thesis
    using assms(2,3) holds_respond w [OF assms(2)]
    by (cases rule: process_wait_cases)
      (auto simp: count_acknowledged_replicas_state holds_bookkeeping [OF f] bookkeeping_eqs(4) [OF f] intro!: holds_less(3))
next
  case execute
  from execute(1) show ?thesis
  proof (cases rule: execute_task_stages)
    case (1 p1 response p2 response2 p3 response3 rep per)
    have "bookkeeping p3 = bookkeeping p"
      using process_command_bookkeeping [OF 1(3)] log_direct_write_frame [OF 1(4)] rest_partD(1) [OF deliver_rest [OF 1(5)]]
      by simp
    from holds_bookkeeping [OF this] 1(6) assms(2,3) holds_respond show ?thesis by simp
  qed
qed

end

section \<open>The types of the futures\<close>

text \<open>The types of the values, as the signatures of the processor's functions name them.\<close>

datatype value_type = ResponseValue | NoValue | OffsetValue | RegistrationValue | AofValue

fun type_of_task :: "processor_task \<Rightarrow> value_type" where
  "type_of_task (CommandTask t) = ResponseValue"
| "type_of_task (RegisterReplicaTask client q) = RegistrationValue"
| "type_of_task (InstallReplicationStateTask new_id new_offset q) = NoValue"
| "type_of_task (GetReplicationOffsetTask q) = OffsetValue"
| "type_of_task (AcknowledgeReplicaTask client acknowledged q) = NoValue"
| "type_of_task (LoadRdbTask es q) = NoValue"
| "type_of_task (InitializeAofTask file commands q) = AofValue"
| "type_of_task (RegisterClientTask client r q) = NoValue"
| "type_of_task (UnregisterClientTask client q) = NoValue"

fun type_of_result :: "result \<Rightarrow> value_type" where
  "type_of_result (Responded response) = ResponseValue"
| "type_of_result Completed = NoValue"
| "type_of_result (OffsetIs n) = OffsetValue"
| "type_of_result (Registered registration) = RegistrationValue"
| "type_of_result (AofInitialized r) = AofValue"

interpretation typed_answers:
  blocked_invariant "\<lambda>t. K (task_promise t) = ResponseValue" "\<lambda>q r. type_of_result r = K q" for K
  by unfold_locales simp

text \<open>A typing of the promises, and that the tasks and the answers respect it.\<close>

definition well_typed :: "(promise \<Rightarrow> value_type) \<Rightarrow> processor \<Rightarrow> bool" where
  "well_typed K p \<longleftrightarrow> typed_answers.holds K p \<and> (\<forall>t \<in> set (tasks p). type_of_task t = K (promise_of t))"

lemma process_typed:
  assumes "process t p = Some p'" "typed_answers.holds K p" "type_of_task t = K (promise_of t)"
  shows "typed_answers.holds K p'"
proof (cases t)
  case (CommandTask c)
  with assms typed_answers.process_task_holds show ?thesis by (simp add: process_def)
next
  case (LoadRdbTask es q)
  with assms show ?thesis by (auto simp: process_def process_rdb_load_def Option.bind_eq_Some_conv intro!: typed_answers.holds_fulfil)
next
  case (InitializeAofTask f commands q)
  with assms(1) obtain p1 failure where c: "replay_commands commands p = Some (p1, failure)"
    by (auto simp: process_def process_aof_initialization_def Option.bind_eq_Some_conv)
  have k: "bookkeeping (forget_transaction client p1) = bookkeeping p" for client
    using replay_commands_bookkeeping [OF c] by simp
  have g: "typed_answers.holds K (x\<lparr>aof_log := l\<rparr>) = typed_answers.holds K x" for x l by (simp add: typed_answers.holds_def)
  from assms InitializeAofTask c typed_answers.holds_bookkeeping [OF k] g show ?thesis
    by (auto simp: process_def process_aof_initialization_def split: option.splits if_splits intro!: typed_answers.holds_fulfil)
next
  case (UnregisterClientTask client q)
  have "typed_answers.holds K (cancel_pending_commands client p)"
    using assms(2) by (auto simp: typed_answers.holds_def cancel_pending_commands_def cancel_def)
  with assms(1,3) UnregisterClientTask show ?thesis
    by (auto simp: process_def process_client_unregistration_def Let_def typed_answers.holds_def split: option.splits)
qed (use assms in \<open>auto simp: process_def process_replica_registration_def process_replication_state_installation_def
    process_replication_offset_request_def process_replica_acknowledgement_def process_client_registration_def Let_def
    typed_answers.holds_def\<close>)

lemma run_iteration_typed:
  assumes "run_iteration p = Some p'" "well_typed K p"
  shows "well_typed K p'"
  using assms(1)
proof (cases rule: run_iteration_cases)
  case idle
  with assms(2) typed_answers.after_task_holds(2) quiet_partD(2) [OF expire_all_quiet] show ?thesis by (simp add: well_typed_def)
next
  case (task t ts p1)
  have "typed_answers.holds K p1" using process_typed [OF task(2)] assms(2) task(1) by (simp add: well_typed_def)
  moreover have "tasks p' = ts"
    using task(3) quiet_partD(2) [of "expire_all (retry_all p1)" p1] process_fixed [OF task(2)] by simp
  ultimately show ?thesis using assms(2) task(1,3) typed_answers.after_task_holds(1) by (simp add: well_typed_def)
qed

text \<open>Every submission makes the next promise, for a task of its type.\<close>

lemma submittedE:
  assumes "submitted p p'"
  obtains new_task where "submit_task new_task p = (p', next_promise p)" "promise_of (new_task (next_promise p)) = next_promise p"
  using assms
  by (cases rule: submitted.cases)
    (auto simp: submit_def enqueue_def apply_replication_def install_replication_state_def replication_offset_def
      acknowledge_replica_def register_replica_def load_rdb_entries_def initialize_aof_def register_client_def
      unregister_client_def submit_task_def)

lemma promises_made:
  assumes "processor_reachable p"
  shows "(q, r) \<in> set (fulfilled p) \<Longrightarrow> q < next_promise p" "t \<in> set (tasks p) \<Longrightarrow> promise_of t < next_promise p"
    "x \<in> set (pending_list_pops p) \<Longrightarrow> task_promise (pop_task x) < next_promise p"
    "y \<in> set (pending_stream_reads p) \<Longrightarrow> task_promise (read_task y) < next_promise p"
    "z \<in> set (pending_waits p) \<Longrightarrow> task_promise (wait_task z) < next_promise p"
proof -
  have "set_mset (accounted p) = {0..<next_promise p}"
    using processor_reachable_accounted [OF assms] by (metis set_mset_mset set_upt)
  then have *: "n \<in># accounted p \<Longrightarrow> n < next_promise p" for n by auto
  show "(q, r) \<in> set (fulfilled p) \<Longrightarrow> q < next_promise p" "t \<in> set (tasks p) \<Longrightarrow> promise_of t < next_promise p"
    "x \<in> set (pending_list_pops p) \<Longrightarrow> task_promise (pop_task x) < next_promise p"
    "y \<in> set (pending_stream_reads p) \<Longrightarrow> task_promise (read_task y) < next_promise p"
    "z \<in> set (pending_waits p) \<Longrightarrow> task_promise (wait_task z) < next_promise p"
    by (rule *, simp add: accounting image_iff, fastforce)+
qed

lemma submit_typed:
  assumes "processor_reachable p" "well_typed K p" "submit_task new_task p = (p', q)"
    and "promise_of (new_task (next_promise p)) = next_promise p"
  shows "well_typed (K(q := type_of_task (new_task q))) p'"
proof -
  define K' where "K' = K(q := type_of_task (new_task q))"
  have q: "q = next_promise p" "p' = p\<lparr>tasks := tasks p @ [new_task q], next_promise := Suc q\<rparr>"
    using assms(3) by (auto simp: submit_task_def)
  have other: "n < next_promise p \<Longrightarrow> K' n = K n" for n by (simp add: q(1) K'_def)
  have "typed_answers.holds K' p"
    using assms(2) promises_made [OF assms(1)] by (auto simp: well_typed_def typed_answers.holds_def other)
  then have "typed_answers.holds K' p'" unfolding q(2) by simp
  moreover have "type_of_task t = K' (promise_of t)" if "t \<in> set (tasks p')" for t
    using that assms(2,4) other promises_made(2) [OF assms(1), of t] q(1)
    by (cases "t = new_task q") (auto simp: well_typed_def q(2), simp add: K'_def)
  ultimately show ?thesis unfolding K'_def by (simp add: well_typed_def)
qed

lemma step_typed:
  assumes "processor_reachable p" "well_typed K p" "processor_step p p'"
  shows "\<exists>K'. well_typed K' p' \<and> (\<forall>q < next_promise p. K' q = K q) \<and> next_promise p \<le> next_promise p'"
  using assms(3)
proof cases
  case submission
  then obtain new_task where s: "submit_task new_task p = (p', next_promise p)"
    "promise_of (new_task (next_promise p)) = next_promise p" by (rule submittedE)
  from submit_typed [OF assms(1,2) s] s(1) show ?thesis by (auto simp: submit_task_def intro!: exI)
next
  case connection
  then have "well_typed K p' = well_typed K p" "next_promise p' = next_promise p"
    by (auto elim!: connection_step.cases simp: well_typed_def)
  with assms(2) show ?thesis by auto
next
  case iteration
  from run_iteration_typed [OF iteration(2) assms(2)] fixed_partD(1) [OF run_iteration_fixed [OF iteration(2)]] show ?thesis by auto
next
  case deadline
  from run_iteration_typed [OF deadline(3) assms(2)] fixed_partD(1) [OF run_iteration_fixed [OF deadline(3)]] show ?thesis by auto
qed

lemma reachable_typed: "processor_reachable p \<Longrightarrow> \<exists>K. well_typed K p"
proof (induction rule: processor_reachable.induct)
  case (start w distribution master rdb aof password_hash)
  show ?case by (simp add: well_typed_def typed_answers.holds_def new_processor_def)
next
  case (step p p')
  then show ?case using step_typed by blast
qed

lemma steps_typed:
  assumes "processor_step\<^sup>*\<^sup>* p1 p'" "processor_reachable p1" "well_typed K p1" "q < next_promise p1"
  shows "\<exists>K'. well_typed K' p' \<and> K' q = K q \<and> processor_reachable p' \<and> q < next_promise p'"
  using assms
proof (induction rule: rtranclp_induct)
  case (step p p')
  then obtain K' where K': "well_typed K' p" "K' q = K q" "processor_reachable p" "q < next_promise p" by blast
  from step_typed [OF K'(3,1) step(2)] K' processor_reachable.step [OF K'(3) step(2)] show ?case by fastforce
qed blast

lemma submitted_task_typed:
  assumes "processor_reachable p" "submit_task new_task p = (p1, q)" "submitted p p1" "promise_of (new_task q) = q"
    and "processor_step\<^sup>*\<^sup>* p1 p'" "(q, r) \<in> set (fulfilled p')"
  shows "type_of_result r = type_of_task (new_task q)"
proof -
  obtain K where "well_typed K p" using reachable_typed [OF assms(1)] by blast
  moreover have q: "q = next_promise p" "next_promise p1 = Suc q" using assms(2) by (auto simp: submit_task_def)
  ultimately have "well_typed (K(q := type_of_task (new_task q))) p1" using submit_typed assms by blast
  from steps_typed [OF assms(5) processor_reachable.step [OF assms(1) processor_step.submission [OF assms(3)]] this, of q] q
  obtain K' where "well_typed K' p'" "K' q = type_of_task (new_task q)" by auto
  with assms(6) show ?thesis by (auto simp: well_typed_def typed_answers.holds_def)
qed



end
