(* ===== verification/Connection_End.thy ===== *)
theory Connection_End
  imports Connection_Service Processor_Results
begin

text \<open>
  The end of a connection: a thread that returns leaves nothing of its client in the processor.
\<close>

section \<open>What the processor knows of a client\<close>

definition forgotten :: "client_id \<Rightarrow> processor \<Rightarrow> bool" where
  "forgotten client p \<longleftrightarrow>
     clients p client = None \<and> transactions p client = None \<and> watched_keys p client = None \<and>
     client_subscriptions p client = None \<and> (\<forall>channel. client \<notin> members (channel_subscribers p) channel) \<and>
     client_write_offsets p client = None \<and> replica_acknowledged_offsets p client = None \<and>
     (\<forall>x \<in> set (pending_list_pops p). task_client (pop_task x) \<noteq> client) \<and>
     (\<forall>x \<in> set (pending_stream_reads p). task_client (read_task x) \<noteq> client) \<and>
     (\<forall>x \<in> set (pending_waits p). task_client (wait_task x) \<noteq> client)"

interpretation others_blocked: blocked_invariant "\<lambda>t. task_client t \<noteq> client" "\<lambda>_ _. True" for client
  by unfold_locales simp

text \<open>The offsets kept for a client change when one of its commands is answered, and not otherwise.\<close>

definition offsets_of :: "client_id \<Rightarrow> processor \<Rightarrow> u64 option \<times> u64 option" where
  "offsets_of client p = (client_write_offsets p client, replica_acknowledged_offsets p client)"

lemma answer_pop_offsets:
  assumes "task_client t \<noteq> client"
  shows "offsets_of client (answer_pop t k v p) = offsets_of client p"
proof -
  have "offsets_of client (fst (append_log bytes q)) = offsets_of client q" for bytes q
    by (simp add: append_log_def offsets_of_def split: option.splits prod.splits)
  moreover have "offsets_of client (append_client_replication_frame (task_client t) bytes q) = offsets_of client q" for bytes q
    using assms by (simp add: append_client_replication_frame_def append_replication_frame_def offsets_of_def Let_def)
  ultimately have "offsets_of client (fst (persist_blocking_pop t k p)) = offsets_of client p"
    by (auto simp: persist_blocking_pop_def Let_def split: prod.splits sum.splits) (metis fst_conv)+
  then show ?thesis by (auto simp: answer_pop_def offsets_of_def split: prod.splits sum.splits)
qed

lemma retry_list_pops_offsets:
  "\<forall>x \<in> set xs. task_client (pop_task x) \<noteq> client \<Longrightarrow> offsets_of client (fst (retry_list_pops xs p)) = offsets_of client p"
proof (induction xs arbitrary: p)
  case (Cons x xs)
  obtain p1 r where pop: "pop_for (pending_key x) p = (p1, r)" by fastforce
  have k: "offsets_of client p1 = offsets_of client p" using pop by (auto simp: pop_for_def offsets_of_def split: prod.splits)
  have w: "offsets_of client (respond (pop_task x) e p1) = offsets_of client p1" for e by (simp add: offsets_of_def)
  from Cons.IH [of p1] Cons.IH [of "answer_pop (pop_task x) (pending_key x) _ p1"] Cons.IH [of "respond (pop_task x) wrong_type_error p1"]
    Cons.prems answer_pop_offsets [of "pop_task x" client] pop k w show ?case by (cases r) (auto split: prod.splits)
qed simp

lemma other_retries_offsets:
  "offsets_of client (fst (retry_stream_reads reads p)) = offsets_of client p"
  "offsets_of client (fst (retry_waits waits p)) = offsets_of client p"
  "offsets_of client (fst (expire_waits now waits p)) = offsets_of client p"
proof -
  show "offsets_of client (fst (retry_stream_reads reads p)) = offsets_of client p"
  proof (induction reads arbitrary: p)
    case (Cons x xs)
    obtain p1 rs r where read: "read_for (pending_requests x) p = (p1, rs, r)" by (metis prod_cases3)
    have "offsets_of client p1 = offsets_of client p" using read by (auto simp: read_for_def offsets_of_def split: prod.splits)
    moreover have "offsets_of client (respond t e p1) = offsets_of client p1" for t e by (simp add: offsets_of_def)
    ultimately show ?case using Cons.IH [of p1] Cons.IH [of "respond (read_task x) _ p1"] read by (cases r) (auto split: prod.splits)
  qed simp
  have count: "offsets_of client p1 = offsets_of client q" if "count_acknowledged_replicas n q = (p1, m)" for n q p1 m
    using that by (auto simp: count_acknowledged_replicas_def offsets_of_def)
  have respond: "offsets_of client (respond t e q) = offsets_of client q" for t e q by (simp add: offsets_of_def)
  show "offsets_of client (fst (retry_waits waits p)) = offsets_of client p"
  proof (induction waits arbitrary: p)
    case (Cons x xs)
    obtain p1 m where c: "count_acknowledged_replicas (target_offset x) p = (p1, m)" by fastforce
    with Cons.IH [of p1] Cons.IH [of "respond (wait_task x) _ p1"] count [OF c] respond show ?case by (auto split: prod.splits)
  qed simp
  show "offsets_of client (fst (expire_waits now waits p)) = offsets_of client p"
  proof (induction waits arbitrary: p)
    case (Cons x xs)
    obtain p1 m where c: "count_acknowledged_replicas (target_offset x) p = (p1, m)" by fastforce
    with Cons.IH [of p] Cons.IH [of "respond (wait_task x) _ p1"] count [OF c] respond show ?case by (auto split: prod.splits)
  qed simp
qed

lemma after_task_offsets:
  assumes "\<forall>x \<in> set (pending_list_pops p). task_client (pop_task x) \<noteq> client"
  shows "offsets_of client (expire_all (retry_all p)) = offsets_of client p"
proof -
  have 1: "offsets_of client (retry_pending_list_pops p) = offsets_of client p"
    using retry_list_pops_offsets [OF assms, of p] by (auto simp: retry_pending_list_pops_def offsets_of_def split: prod.splits)
  have 2: "offsets_of client (retry_pending_stream_reads q) = offsets_of client q"
    "offsets_of client (retry_pending_waits q) = offsets_of client q" for q
    using other_retries_offsets(1) [of client "pending_stream_reads q" q] other_retries_offsets(2) [of client "pending_waits q" q]
    by (auto simp: retry_pending_stream_reads_def retry_pending_waits_def offsets_of_def split: prod.splits)
  have 3: "offsets_of client (expire_all q) = offsets_of client q" for q
  proof -
    let ?q = "expire_pending_stream_reads (expire_pending_list_pops q)"
    have "offsets_of client ?q = offsets_of client q"
      by (simp add: expire_pending_stream_reads_def expire_pending_list_pops_def offsets_of_def Let_def)
    with other_retries_offsets(3) [of client "steady_clock (current_env ?q) 0" "pending_waits ?q" ?q] show ?thesis
      by (auto simp: expire_all_def expire_pending_waits_def offsets_of_def split: prod.splits)
  qed
  show ?thesis by (simp add: retry_all_def 1 2 3)
qed

lemma after_task_forgotten:
  assumes "forgotten client p"
  shows "forgotten client (expire_all (retry_all p))"
proof -
  let ?q = "expire_all (retry_all p)"
  have "others_blocked.holds client p" using assms by (simp add: forgotten_def others_blocked.holds_def)
  from others_blocked.after_task_holds(1) [OF this] have "others_blocked.holds client ?q" .
  moreover have "quiet_part ?q = quiet_part p" by simp
  moreover have "offsets_of client ?q = offsets_of client p" by (rule after_task_offsets) (use assms in \<open>simp add: forgotten_def\<close>)
  ultimately show ?thesis
    using assms quiet_partD(3,4) [of ?q p]
    by (simp add: forgotten_def others_blocked.holds_def offsets_of_def client_part_def transaction_part_def)
qed

lemma unregistration_forgets:
  assumes "tables p" "hash_orders (outside p)"
  shows "forgotten client (process_client_unregistration client q p)"
  using unregistration_tables(2,3) [OF assms, of client q]
  by (auto simp: forgotten_def process_client_unregistration_def cancel_pending_commands_def Let_def split: option.splits)

text \<open>The worker, from the moment at which the task is in its queue until the promise is fulfilled.\<close>

lemma queued_unfulfilled:
  assumes "processor_reachable p" "t \<in> set (tasks p)"
  shows "map_of (fulfilled p) (promise_of t) = None"
proof -
  have "count (accounted p) (promise_of t) \<le> 1"
    unfolding processor_reachable_accounted [OF assms(1)] count_upt by simp
  moreover have "1 \<le> count (outstanding p) (promise_of t)"
    using assms(2) by (auto simp: outstanding_def count_eq_zero_iff intro!: Suc_leI gr0I)
  ultimately have "count (answered p) (promise_of t) = 0" unfolding accounted_def count_union by linarith
  then show ?thesis by (simp add: answered_def count_eq_zero_iff map_of_eq_None_iff)
qed

lemma await_unregistration:
  "await_worker n q p = (p', Some r) \<Longrightarrow> processor_reachable p \<Longrightarrow> hash_orders (outside p) \<Longrightarrow>
   UnregisterClientTask client q \<in> set (tasks p) \<Longrightarrow> forgotten client p'"
proof (induction n arbitrary: p)
  case 0
  then show ?case using queued_unfulfilled [OF 0(2,4)] by (simp add: await_worker.simps)
next
  case (Suc n)
  note unfulfilled = queued_unfulfilled [OF Suc.prems(2,4), simplified]
  then obtain p1 where run: "run_iteration p = Some p1" and next_: "await_worker n q p1 = (p', Some r)"
    using Suc.prems(1,4) by (auto simp: await_worker.simps [of "Suc n"] split: option.splits if_splits)
  have ne: "tasks p \<noteq> []" using Suc.prems(4) by auto
  have reach: "processor_reachable p1" by (rule processor_reachable.step [OF Suc.prems(2) processor_step.iteration [OF ne run]])
  have out: "outside p1 = outside p" using run_iteration_fixed [OF run] by (simp add: fixed_part_def)
  obtain t ts p2 where t: "tasks p = t # ts" "process t (p\<lparr>tasks := ts\<rparr>) = Some p2" "p1 = expire_all (retry_all p2)"
    using run ne by (cases rule: run_iteration_cases) auto
  have ts: "tasks p1 = ts"
    using t(3) quiet_partD(2) [of "expire_all (retry_all p2)" p2] process_fixed [OF t(2)] by simp
  show ?case
  proof (cases "t = UnregisterClientTask client q")
    case True
    have "tables (p\<lparr>tasks := ts\<rparr>)"
      using processor_reachable_tables [OF Suc.prems(2,3)] tables_cong [of "p\<lparr>tasks := ts\<rparr>" p] by (simp add: table_part_def)
    with t(2) True unregistration_forgets [of "p\<lparr>tasks := ts\<rparr>" client q] Suc.prems(3) have "forgotten client p2"
      by (simp add: process_def)
    then have "forgotten client p1" using after_task_forgotten t(3) by simp
    moreover have "map_of (fulfilled p1) q \<noteq> None"
    proof -
      have "(q, Completed) \<in> set (fulfilled p2)" using t(2) True by (auto simp: process_def process_client_unregistration_def Let_def)
      then have "(q, Completed) \<in> set (fulfilled p1)" using fulfilled_after t(3) by blast
      then show ?thesis using weak_map_of_SomeI by fastforce
    qed
    then have "p' = p1" using next_ by (auto simp: await_worker.simps split: option.splits)
    ultimately show ?thesis by simp
  next
    case False
    with Suc.IH [OF next_ reach] Suc.prems(3,4) out ts t(1) show ?thesis by simp
  qed
qed

section \<open>The last thing a thread does\<close>

text \<open>A thread that returns has unregistered its client before, and got the answer.\<close>

context processor_access
begin

definition left :: "client_id \<Rightarrow> processor \<Rightarrow> bool" where
  "left client p \<longleftrightarrow> (\<exists>p0 p1 q r. I p0 \<and> unregister_client client p0 = (p1, q) \<and> get q p1 = (p, Some r))"

lemma get_in_left:
  assumes "get_in get (unregister_client client) th = (th', Some r)" "I (server_processor th)"
  shows "left client (server_processor th')"
  using assms by (auto simp: get_in_def left_def split: prod.splits)

lemma become_replica_left:
  assumes "become_replica get client th = (th', Leave Returned)" "I (server_processor th)"
  shows "left client (server_processor th')"
  using assms(1)
proof (cases rule: become_replica_stages)
  case (served th1 a th2 registration p c e f)
  have u: "I (server_processor t')"
    if "get_in get (unregister_client client) t = (t', x)" "I (server_processor t)" for t t' x
    by (rule get_in_kept [OF that]) (rule submitted.intros)
  have r: "I (server_processor t')"
    if "get_in get (register_replica client) t = (t', x)" "I (server_processor t)" for t t' x
    by (rule get_in_kept [OF that]) (rule submitted.intros)
  have "I p" using replica_connection_kept [OF served(3)] u r assms(2) served(1,2) by auto
  with get_in_left served(4,5) show ?thesis by (cases f) auto
qed simp_all

lemma serve_command_left:
  assumes "serve_command get client command n th = (th', v)" "v = Leave Returned \<or> v = EraseAndLeave Returned" "I (server_processor th)"
  shows "left client (server_processor th')"
proof (cases "length command = 3 \<and> hd command = ''PSYNC''")
  case True
  with assms become_replica_stages [of get client th th' v] become_replica_left show ?thesis
    by (auto simp: serve_command_def)
next
  case False
  have "snd (send_response response t) \<noteq> Leave Returned \<and> snd (send_response response t) \<noteq> EraseAndLeave Returned" for response t
    by (auto simp: send_response_def split: prod.splits option.splits sum.splits)
  with assms(1,2) False show ?thesis
    by (auto simp: serve_command_def split: prod.splits option.splits result.splits bool.splits) (metis snd_conv)+
qed

lemma serve_buffered_left:
  assumes "serve_buffered get client th = (th', v)" "v = Leave Returned \<or> v = EraseAndLeave Returned" "I (server_processor th)" "client \<noteq> 0" "client \<noteq> aof_client_id"
  shows "left client (server_processor th')"
proof -
  obtain buffer t w where l: "command_loop stop_guard (\<lambda>_. ConnectionClosed) (serve_command get client) (input_buffer (socket th)) th =
      (buffer, t, w)" by (metis prod_cases3)
  with assms(1,2) have w: "w = Leave Returned \<or> w = EraseAndLeave Returned" "server_processor th' = server_processor t"
    by (auto simp: serve_buffered_def)
  have guard: "I (server_processor s')" if "stop_guard s = (s', Proceed)" "I (server_processor s)" for s s'
    using that by (auto simp: stop_guard_def split: prod.splits dest: check_stopD)
  have handle: "I (server_processor s')" if "serve_command get client command n s = (s', Proceed)" "I (server_processor s)" for command n s s'
    using serve_command_kept [OF that assms(4,5)] .
  have "w = Proceed \<and> I (server_processor t) \<or>
      (\<exists>s0 x r. I (server_processor s0) \<and> stop_guard s0 = (t, x) \<and> (x = Leave r \<or> x = EraseAndLeave r) \<and> w = Leave r) \<or>
      (\<exists>msg :: string. w = Leave ConnectionClosed) \<or>
      (\<exists>command n s0 x r. I (server_processor s0) \<and> serve_command get client command n s0 = (t, x) \<and>
        (x = Leave r \<or> x = EraseAndLeave r) \<and> w = Leave r)"
    by (rule command_loop_outcome [OF l, of "\<lambda>th. I (server_processor th)"]) (use assms(3) guard handle in blast)+
  then show ?thesis
    using w serve_command_left by (elim disjE exE conjE) (auto simp: stop_guard_def split: prod.splits if_splits)
qed

lemma connection_loop_left:
  assumes "connection_loop get client polls th = (th', Returned)" "I (server_processor th)" "client \<noteq> 0" "client \<noteq> aof_client_id"
    and "\<And>others result p. (others, result) \<in> set polls \<Longrightarrow> I p \<Longrightarrow> I (others p)"
  shows "left client (server_processor th')"
  using assms(1,2,5)
proof (induction polls arbitrary: th)
  case (Cons x polls)
  obtain others result where x: "x = (others, result)" by fastforce
  obtain th0 stop where 0: "check_stop th = (th0, stop)" by fastforce
  let ?th = "th0\<lparr>server_processor := others (server_processor th0)\<rparr>"
  have k0: "I (server_processor ?th)" using check_stopD [OF 0] Cons.prems x by auto
  obtain th1 v where 1: "serve_poll get client result ?th = (th1, v)" by fastforce
  have k1: "I (server_processor th1)" by (rule serve_poll_kept [OF 1 k0 assms(3,4)])
  show ?case
  proof (cases "v = Proceed")
    case True
    with Cons.IH [of th1] Cons.prems k1 x 0 1 show ?thesis by (cases stop) auto
  next
    case False
    with Cons.prems x 0 1 have v: "th' = th1" "v = Leave Returned \<or> v = EraseAndLeave Returned" by (cases stop; cases v; auto)+
    then obtain th2 w where 2: "receive_and_serve get client th2 = (th1, w)" "w = Leave Returned \<or> w = EraseAndLeave Returned" "I (server_processor th2)"
      using 1 k0 pubsub_frames_kept [of ?th]
      by (auto simp: serve_poll_def split: poll_result.splits prod.splits option.splits sum.splits if_splits verdict.splits leaving.splits)
    from 2(1,2) obtain th3 where "serve_buffered get client th3 = (th1, w)" "server_processor th3 = server_processor th2"
      by (auto simp: receive_and_serve_def Let_def split: list.splits recv_result.splits if_splits)
    with serve_buffered_left [of client th3 th1 w] 2(2,3) assms(3,4) v(1) show ?thesis by simp
  qed
qed (auto split: prod.splits if_splits)

lemma handle_connection_left:
  assumes "handle_connection get client r (Inr outcomes) clears polls c p = (p', c', True)" "I p"
    and "pubsub_heap p r = None" "client \<noteq> 0" "client \<noteq> aof_client_id"
    and "\<And>others result p. (others, result) \<in> set polls \<Longrightarrow> I p \<Longrightarrow> I (others p)"
  shows "\<exists>p0. left client p0 \<and> p' = release_session r p0"
proof -
  let ?th = "\<lparr>server_processor = p\<lparr>pubsub_heap := (pubsub_heap p)(r \<mapsto> new_session outcomes)\<rparr>,
    socket = c\<lparr>input_buffer := []\<rparr>, session = r, clear_io = clears, clear_calls = 0\<rparr>"
  have k0: "I (server_processor ?th)"
    using step_keeps [OF assms(2) processor_step.connection [OF open_session [OF assms(3)]]] by simp
  obtain th1 x where 1: "get_in get (register_client client r) ?th = (th1, x)" by fastforce
  have k1: "I (server_processor th1)"
    by (rule get_in_kept [OF 1 k0]) (rule submitted.intros(9) [OF _ assms(4,5)])
  obtain th2 stop where 2: "check_stop th1 = (th2, stop)" by fastforce
  have k2: "I (server_processor th2)" using k1 check_stopD [OF 2] by simp
  obtain th3 why where 3: "connection_loop get client polls th2 = (th3, why)" by fastforce
  have k3: "I (server_processor th3)"
    by (rule connection_loop_kept [OF 3 k2 assms(4,5)]) (rule assms(6))
  have leave: "\<exists>p0. left client p0 \<and> p' = release_session r p0"
    if "leave_connection get client r t = (p', c', True)" "I (server_processor t)" for t
  proof -
    obtain t' y where "get_in get (unregister_client client) t = (t', y)" by fastforce
    then show ?thesis using that get_in_left [of client t t'] by (cases y) (auto simp: leave_connection_def)
  qed
  show ?thesis
  proof (cases "x = None")
    case True
    with assms(1) 1 show ?thesis by (simp add: handle_connection_def Let_def)
  next
    case False
    then obtain y where x: "x = Some y" by blast
    show ?thesis
    proof (cases stop)
      case True
      with assms(1) 1 2 x leave [OF _ k2] show ?thesis by (simp add: handle_connection_def Let_def)
    next
      case False
      with assms(1) 1 2 3 x leave [OF _ k3] connection_loop_left [OF _ k2 assms(4,5), of polls th3] assms(6)
      show ?thesis by (cases why) (auto simp: handle_connection_def Let_def)
    qed
  qed
qed

end

lemma steps_outside: "processor_step\<^sup>*\<^sup>* p p' \<Longrightarrow> outside p' = outside p"
proof (induction rule: rtranclp_induct)
  case (step p' p'')
  from step(2) have "outside p'' = outside p'"
  proof cases
    case submission
    then show ?thesis by (auto elim!: submittedE simp: submit_task_def)
  next
    case connection
    then show ?thesis by (auto elim!: connection_step.cases)
  qed (auto dest!: run_iteration_fixed simp: fixed_part_def)
  with step(3) show ?case by simp
qed simp

text \<open>
  C8: A connection that ends leaves nothing behind. When the thread of a connection returns, for whatever
  reason and after whatever commands, also after it has served a replica, the processor has forgotten the
  client: its registration, its open transaction and its watched keys, its subscriptions in both tables, its
  offsets and its blocked commands, and its session is gone. This holds whatever other threads do while this
  one waits for input; while it waits for the processor, the worker runs alone.
\<close>

theorem ended_connection_forgotten:
  assumes "handle_connection (await_worker n) client r (Inr outcomes) clears polls c p = (p', c', True)"
    and "processor_reachable p" "hash_orders (outside p)" "pubsub_heap p r = None" "client \<noteq> 0" "client \<noteq> aof_client_id"
    and "\<And>others result p. (others, result) \<in> set polls \<Longrightarrow> processor_step\<^sup>*\<^sup>* p (others p)"
  shows "forgotten client p' \<and> pubsub_heap p' r = None"
proof -
  have "\<exists>p0. worker_alone.left p n client p0 \<and> p' = release_session r p0"
    by (rule worker_alone.handle_connection_left [OF assms(1) _ assms(4-6)]) (auto intro: rtranclp_trans assms(7))
  then obtain p0 p1 q x p2 where s: "processor_step\<^sup>*\<^sup>* p p0" "unregister_client client p0 = (p1, q)"
    "await_worker n q p1 = (p2, Some x)" "p' = release_session r p2" by (auto simp: worker_alone.left_def)
  have r0: "processor_reachable p0" using steps_reachable [OF s(1) assms(2)] .
  have "processor_reachable p1"
    using processor_reachable.step [OF r0 processor_step.submission [OF submitted.intros(10) [OF s(2)]]] .
  moreover have "outside p1 = outside p" "UnregisterClientTask client q \<in> set (tasks p1)"
    using s(2) steps_outside [OF s(1)] by (auto simp: unregister_client_def submit_task_def)
  ultimately have "forgotten client p2" using await_unregistration [OF s(3)] assms(3) by simp
  then show ?thesis by (simp add: s(4) release_session_def forgotten_def)
qed

theorem ended_connection_forgotten_witness:
  "\<exists>p c. handle_connection (await_worker 9) 7 0 (Inr (\<lambda>_. Written)) (\<lambda>_. Written) [data_ready]
     (new_connection [Received []] [] (\<lambda>_. False)) fresh_processor = (p, c, True) \<and> forgotten 7 p \<and> pubsub_heap p 0 = None"
proof -
  have "\<exists>p c. handle_connection (await_worker 9) 7 0 (Inr (\<lambda>_. Written)) (\<lambda>_. Written) [data_ready]
      (new_connection [Received []] [] (\<lambda>_. False)) fresh_processor = (p, c, True)"
  proof -
    have "register_client 7 0 session_opened = (fst (register_client 7 0 session_opened), 0)"
      by (simp add: register_client_def submit_task_def session_opened_def fresh_processor_def new_processor_def)
    with registration_answered obtain p1 where r: "register_client 7 0 session_opened = (p1, 0)"
      "await_worker 9 0 p1 = (client_registered, Some Completed)" by metis
    have f: "fulfilled client_registered = [(0, Completed)]" "next_promise client_registered = 1"
      by (simp_all add: client_registered_def session_opened_def worker_simps register_client_def process_client_registration_def
          fresh_processor_def new_processor_def make_default_acl_user_def Let_def)
    have "\<exists>p2 p3. unregister_client 7 client_registered = (p2, 1) \<and> await_worker 9 1 p2 = (p3, Some Completed)"
      by (simp add: await_worker.simps f worker_simps client_registered_fields unregister_client_def process_client_unregistration_def
          cancel_pending_commands_def cancel_def Let_def)
    then obtain p2 p3 where u: "unregister_client 7 client_registered = (p2, 1)" "await_worker 9 1 p2 = (p3, Some Completed)" by blast
    have o: "fresh_processor\<lparr>pubsub_heap := (pubsub_heap fresh_processor)(0 \<mapsto> new_session (\<lambda>_. Written))\<rparr> = session_opened"
      by (simp add: session_opened_def)
    show ?thesis
      by (simp add: handle_connection_def Let_def get_in_def o r u u(2) [unfolded One_nat_def] check_stop_def stop_requested_def new_connection_def data_ready_def
          serve_poll_def receive_and_serve_def leave_connection_def)
  qed
  then obtain p c where h: "handle_connection (await_worker 9) 7 0 (Inr (\<lambda>_. Written)) (\<lambda>_. Written) [data_ready]
      (new_connection [Received []] [] (\<lambda>_. False)) fresh_processor = (p, c, True)" by blast
  have "hash_orders (outside fresh_processor)" using still_world_orders by (simp add: fresh_processor_def new_processor_def)
  from ended_connection_forgotten [OF h fresh_processor_reachable this] have "forgotten 7 p \<and> pubsub_heap p 0 = None"
    by (simp add: fresh_processor_def new_processor_def aof_client_id_def data_ready_def)
  with h show ?thesis by blast
qed

end
