(* ===== verification/Connection_Stop.thy ===== *)
theory Connection_Stop
  imports Connection_End
begin

text \<open>
  A thread that is asked to stop returns, provided that the processor answers its requests and the calls on its
  socket come to an end, which is what \<open>stop_connection_workers\<close> sees to by shutting the socket down.
\<close>

section \<open>Sockets that come to an end\<close>

text \<open>
  After finitely many results, \<open>recv\<close> reports the end of the stream and \<open>send\<close> fails, as they do once the socket
  has been shut down.
\<close>

definition ending :: "connection \<Rightarrow> bool" where
  "ending c \<longleftrightarrow> Received [] \<in> set (recv_results c) \<and> (\<exists>e. SendError e \<in> set (send_results c))"

definition goes_on :: "connection \<Rightarrow> connection \<Rightarrow> bool" where
  "goes_on c c' \<longleftrightarrow> stop_requests c' = stop_requests c \<and> stop_checks c \<le> stop_checks c' \<and> ending c'"

lemma goes_on_trans: "goes_on c c' \<Longrightarrow> goes_on c' c'' \<Longrightarrow> goes_on c c''"
  by (auto simp: goes_on_def)

lemma send_loop_ends:
  "send_loop bytes rs = (out, rs', r) \<Longrightarrow> SendError e \<in> set rs \<Longrightarrow>
   r \<noteq> None \<and> (r = Some (Inr ()) \<longrightarrow> SendError e \<in> set rs')"
proof (induction bytes rs arbitrary: out rs' r rule: send_loop.induct)
  case (5 b bytes n rs)
  then show ?case by (cases "n = 0") (auto split: prod.splits)
qed auto

lemma send_bytes_ends:
  assumes "send_bytes bytes c = (c', r)" "ending c"
  shows "r \<noteq> None" "r = Some (Inr ()) \<Longrightarrow> goes_on c c' \<and> recv_results c' = recv_results c"
proof -
  from assms(2) obtain e where e: "SendError e \<in> set (send_results c)" by (auto simp: ending_def)
  obtain out rs x where l: "send_loop bytes (send_results c) = (out, rs, x)" by (metis prod_cases3)
  from send_loop_ends [OF l e] assms l show "r \<noteq> None" "r = Some (Inr ()) \<Longrightarrow> goes_on c c' \<and> recv_results c' = recv_results c"
    by (auto simp: send_bytes_def goes_on_def ending_def)
qed

lemma send_outcomes:
  fixes r :: "(string + unit) option"
  obtains (waits) "r = None" | (failed) e where "r = Some (Inl e)" | (sent) "r = Some (Inr ())"
proof (cases r)
  case (Some x)
  then show thesis using failed sent by (cases x) auto
qed (rule waits)

lemma session_frames_end:
  "send_session_frames s c = (s', c', r) \<Longrightarrow> ending c \<Longrightarrow> r \<noteq> None \<and> (r = Some (Inr ()) \<longrightarrow> goes_on c c')"
proof (induction s c rule: send_session_frames.induct)
  case (1 s c)
  obtain s1 f where f: "pop_frame s = (s1, f)" by fastforce
  show ?case
  proof (cases f)
    case None
    with 1(2,3) f show ?thesis by (auto simp: send_session_frames.simps [of s] goes_on_def)
  next
    case (Some frame)
    obtain c1 x where c1: "send_bytes frame c = (c1, x)" by fastforce
    note k = send_bytes_ends [OF c1 1(3)]
    show ?thesis
    proof (cases rule: send_outcomes [of x])
      case sent
      with k(2) have g: "goes_on c c1" by blast
      then have "ending c1" by (simp add: goes_on_def)
      with 1(1) [OF f [symmetric] Some c1 [symmetric] _ refl] sent 1(2) f Some c1 goes_on_trans [OF g] show ?thesis
        by (auto simp: send_session_frames.simps [of s])
    qed (use 1(2) f Some c1 k(1) in \<open>auto simp: send_session_frames.simps [of s]\<close>)
  qed
qed

lemma pubsub_frames_end:
  assumes "send_pending_pubsub_frames th = (th', r)" "ending (socket th)"
  shows "r \<noteq> None" "r = Some (Inr ()) \<Longrightarrow> goes_on (socket th) (socket th')"
proof -
  have "r \<noteq> None \<and> (r = Some (Inr ()) \<longrightarrow> goes_on (socket th) (socket th'))"
  proof (cases "pubsub_heap (server_processor th) (session th)")
    case None
    with assms show ?thesis by (auto simp: send_pending_pubsub_frames_def goes_on_def)
  next
    case (Some s)
    obtain s1 x where x: "clear_notification (clear_io th (clear_calls th)) s = (s1, x)" by fastforce
    obtain s2 c y where y: "send_session_frames s1 (socket th) = (s2, c, y)" by (metis prod_cases3)
    from session_frames_end [OF y assms(2)] assms(1) Some x y show ?thesis
      by (cases x) (auto simp: send_pending_pubsub_frames_def Let_def)
  qed
  then show "r \<noteq> None" "r = Some (Inr ()) \<Longrightarrow> goes_on (socket th) (socket th')" by auto
qed

lemma shutdown_ending: "ending (shutdown_socket c)"
  by (simp add: ending_def shutdown_socket_def)

lemma sender_ends:
  "send_replication_frames stop s c = (s', c', ended) \<Longrightarrow> ending c \<Longrightarrow> ending c'"
proof (induction stop s c rule: send_replication_frames.induct)
  case (1 stop s c)
  show ?case
  proof (cases "\<exists>s1 f. wait_for_frame stop s = Some (s1, Some f)")
    case True
    then obtain s1 f where w: "wait_for_frame stop s = Some (s1, Some f)" by blast
    obtain c1 r where c1: "send_bytes (payload f) c = (c1, r)" by fastforce
    note k = send_bytes_ends [OF c1 1(3)]
    show ?thesis
    proof (cases rule: send_outcomes [of r])
      case sent
      with k(2) have "ending c1" by (simp add: goes_on_def)
      with 1(1) [OF w refl refl c1 [symmetric] sent refl] 1(2) w c1 sent show ?thesis by (simp add: send_replication_frames.simps [of stop s])
    qed (use 1(2) w c1 k(1) shutdown_ending in \<open>auto simp: send_replication_frames.simps [of stop s]\<close>)
  qed (use 1(2,3) in \<open>auto simp: send_replication_frames.simps [of stop s] split: option.splits\<close>)
qed

lemma sender_runs_ends: "sender_runs r s = (p', c') \<Longrightarrow> ending (snd s) \<Longrightarrow> ending c'"
  by (auto simp: sender_runs_def split: prod.splits option.splits dest: sender_ends)

text \<open>An operation that returns on such a socket, and leaves one behind when it succeeds.\<close>

definition returns :: "'a io \<Rightarrow> bool" where
  "returns m \<longleftrightarrow> (\<forall>c. ending c \<longrightarrow> snd (m c) \<noteq> None \<and> (\<forall>x. snd (m c) = Some (Inr x) \<longrightarrow> ending (fst (m c))))"

lemma returns_send: "returns (send_bytes bytes)"
  unfolding returns_def
proof (intro allI impI)
  fix c assume e: "ending c"
  obtain c' r where c': "send_bytes bytes c = (c', r)" by fastforce
  from send_bytes_ends [OF c' e] c' show "snd (send_bytes bytes c) \<noteq> None \<and>
      (\<forall>x. snd (send_bytes bytes c) = Some (Inr x) \<longrightarrow> ending (fst (send_bytes bytes c)))"
    by (auto simp: goes_on_def)
qed

lemma returns_and_then:
  assumes "returns m" "\<And>x. returns (f x)"
  shows "returns (and_then m f)"
  unfolding returns_def
proof (intro allI impI)
  fix c assume e: "ending c"
  obtain c' r where c': "m c = (c', r)" by fastforce
  from assms(1) e c' have r: "r \<noteq> None" "\<And>x. r = Some (Inr x) \<Longrightarrow> ending c'"
    by (auto simp: returns_def) (metis fst_conv snd_conv)
  then consider (failed) msg where "r = Some (Inl msg)" | (went) x where "r = Some (Inr x)" "ending c'"
    by (metis not_Some_eq sum.exhaust)
  then show "snd (and_then m f c) \<noteq> None \<and> (\<forall>x. snd (and_then m f c) = Some (Inr x) \<longrightarrow> ending (fst (and_then m f c)))"
  proof cases
    case went
    with assms(2) [of x] c' show ?thesis by (auto simp: and_then_def returns_def)
  qed (simp add: and_then_def c')
qed

lemma returns_full_resync: "returns (send_full_resync registration)"
  unfolding send_full_resync_def by (intro returns_and_then returns_send)

section \<open>A processor that answers\<close>

text \<open>
  In the given state the processor answers each request that the thread of a client may make, with a
  result of the type of its promise.
\<close>

definition answers :: "future_get \<Rightarrow> client_id \<Rightarrow> processor \<Rightarrow> bool" where
  "answers get client p \<longleftrightarrow>
     (\<forall>command p1 q. submit client command p = (p1, q) \<longrightarrow> (\<exists>response. snd (get q p1) = Some (Responded response))) \<and>
     (\<forall>r p1 q. register_client client r p = (p1, q) \<longrightarrow> snd (get q p1) \<noteq> None) \<and>
     (\<forall>p1 q. unregister_client client p = (p1, q) \<longrightarrow> snd (get q p1) \<noteq> None) \<and>
     (\<forall>p1 q. register_replica client p = (p1, q) \<longrightarrow> (\<exists>registration. snd (get q p1) = Some (Registered registration))) \<and>
     (\<forall>n p1 q. acknowledge_replica client n p = (p1, q) \<longrightarrow> snd (get q p1) \<noteq> None)"

lemma get_in_answered:
  assumes "get_in get request th = (th', x)" "answers get client (server_processor th)"
  shows "request = submit client command \<Longrightarrow> \<exists>response. x = Some (Responded response)"
    "request = register_client client r \<Longrightarrow> x \<noteq> None"
    "request = unregister_client client \<Longrightarrow> x \<noteq> None"
    "request = register_replica client \<Longrightarrow> \<exists>registration. x = Some (Registered registration)"
proof -
  obtain p1 q where "request (server_processor th) = (p1, q)" by fastforce
  moreover obtain p2 y where "get q p1 = (p2, y)" by fastforce
  ultimately have "request (server_processor th) = (p1, q)" "x = snd (get q p1)" using assms(1) by (auto simp: get_in_def)
  with assms(2) show "request = submit client command \<Longrightarrow> \<exists>response. x = Some (Responded response)"
    "request = register_client client r \<Longrightarrow> x \<noteq> None"
    "request = unregister_client client \<Longrightarrow> x \<noteq> None"
    "request = register_replica client \<Longrightarrow> \<exists>registration. x = Some (Registered registration)"
    unfolding answers_def by blast+
qed

lemma get_in_socket: "get_in get request th = (th', x) \<Longrightarrow> socket th' = socket th"
  by (auto simp: get_in_def split: prod.splits)

lemma check_stop_goes_on: "check_stop th = (th', stop) \<Longrightarrow> ending (socket th) \<Longrightarrow> goes_on (socket th) (socket th')"
  by (auto simp: check_stop_def stop_requested_def goes_on_def ending_def)

lemma serve_command_not_stop:
  "serve_command get client command n th = (th', v) \<Longrightarrow> v \<noteq> Leave StopSeen \<and> v \<noteq> EraseAndLeave StopSeen"
  by (auto simp: serve_command_def become_replica_def send_response_def
      split: prod.splits option.splits sum.splits result.splits if_splits bool.splits)

context processor_access
begin

lemma acknowledge_answered:
  assumes "acknowledge_command get client command n s = (s', v)" "answers get client (fst s)"
  shows "v = Leave r \<or> v = EraseAndLeave r \<Longrightarrow> r \<noteq> None" "snd s' = snd s"
proof -
  obtain p c where s: "s = (p, c)" by fastforce
  have a: "y \<noteq> None" if "acknowledge_replica client m p = (p1, q)" "get q p1 = (p2, y)" for m p1 q p2 y
    using assms(2) that unfolding s answers_def by (metis fst_conv snd_conv)
  from assms(1) [unfolded s] s show "v = Leave r \<or> v = EraseAndLeave r \<Longrightarrow> r \<noteq> None" "snd s' = snd s"
    by (auto simp: acknowledge_command_def split: prod.splits if_splits option.splits dest: a)
qed

lemma acknowledge_buffered_answered:
  assumes "acknowledge_buffered get client s = (s', v)" "I (fst s)" "\<And>p. I p \<Longrightarrow> answers get client p" "ending (snd s)"
  shows "v \<noteq> Leave None" "v \<noteq> EraseAndLeave None" "v = Proceed \<Longrightarrow> ending (snd s')"
proof -
  obtain buffer t w where l: "command_loop (\<lambda>s. (s, Proceed)) (\<lambda>msg. Some (Inl (''Invalid response from replica: '' @ msg)))
      (acknowledge_command get client) (input_buffer (snd s)) s = (buffer, t, w)" by (metis prod_cases3)
  have o: "w = Proceed \<and> (I (fst t) \<and> snd t = snd s) \<or>
    (\<exists>s0 x r. (I (fst s0) \<and> snd s0 = snd s) \<and> (s0, Proceed) = (t, x) \<and> (x = Leave r \<or> x = EraseAndLeave r) \<and> w = Leave r) \<or>
    (\<exists>msg. w = Leave (Some (Inl (''Invalid response from replica: '' @ msg)))) \<or>
    (\<exists>command n s0 x r. (I (fst s0) \<and> snd s0 = snd s) \<and> acknowledge_command get client command n s0 = (t, x) \<and>
      (x = Leave r \<or> x = EraseAndLeave r) \<and> w = Leave r)"
    by (rule command_loop_outcome [OF l, where I = "\<lambda>t. I (fst t) \<and> snd t = snd s"])
      (use assms(2,3) in \<open>auto dest: acknowledge_kept acknowledge_answered(2)\<close>)
  have "w \<noteq> Leave None \<and> w \<noteq> EraseAndLeave None \<and> (w = Proceed \<longrightarrow> snd t = snd s)"
    using o
  proof (elim disjE exE conjE)
    fix command n s0 x r
    assume "acknowledge_command get client command n s0 = (t, x)" "I (fst s0)" "w = Leave r" "x = Leave r"
    with acknowledge_answered(1) assms(3) show ?thesis by auto
  next
    fix command n s0 x r
    assume "acknowledge_command get client command n s0 = (t, x)" "I (fst s0)" "w = Leave r" "x = EraseAndLeave r"
    with acknowledge_answered(1) assms(3) show ?thesis by auto
  qed simp_all
  with l assms(1,4) show "v \<noteq> Leave None" "v \<noteq> EraseAndLeave None" "v = Proceed \<Longrightarrow> ending (snd s')"
    by (cases t; auto simp: acknowledge_buffered_def ending_def)+
qed

lemma acknowledgements_end:
  assumes "I (fst s)" "\<And>p. I p \<Longrightarrow> answers get client p" "ending (snd s)"
  shows "snd (consume_replica_acknowledgements get client r s) \<noteq> None"
  using assms(1,3)
proof (induction "length (filter (\<lambda>x. x \<noteq> Received []) (recv_results (snd s)))" arbitrary: s rule: less_induct)
  case less
  obtain c0 stop where c0: "stop_requested (snd s) = (c0, stop)" by fastforce
  have r0: "recv_results c0 = recv_results (snd s)" "ending c0" using c0 less(3) by (auto simp: stop_requested_def ending_def)
  obtain p c where pc: "sender_runs r (fst s, c0) = (p, c)" by fastforce
  have k: "I p" "ending c" using sender_runs_kept [OF pc] sender_runs_ends [OF pc] less(2) r0(2) by simp_all
  note unfold = consume_replica_acknowledgements.simps [of get client r s]
  from k(2) obtain x rest where x: "recv_results c = x # rest" by (cases "recv_results c") (auto simp: ending_def)
  have m: "length (filter (\<lambda>x. x \<noteq> Received []) rest) < length (filter (\<lambda>x. x \<noteq> Received []) (recv_results (snd s)))"
    if "x \<noteq> Received []"
    using sender_runs_receives [OF pc]
  proof
    assume "recv_results c = recv_results (snd (fst s, c0))"
    with x r0 have "recv_results (snd s) = x # rest" by simp
    with that show ?thesis by simp
  qed (use x that in simp)
  have e: "ending (c\<lparr>recv_results := rest, input_buffer := b\<rparr>)" "ending (c\<lparr>recv_results := rest\<rparr>)" if "x \<noteq> Received []" for b
    using k(2) x that by (auto simp: ending_def)
  show ?case
  proof (cases stop)
    case True
    with c0 show ?thesis by (simp add: unfold)
  next
    case going: False
    show ?thesis
    proof (cases x)
      case (Received bytes)
      show ?thesis
      proof (cases "bytes = []")
        case True
        with going c0 pc x Received show ?thesis by (simp add: unfold Let_def)
      next
        case False
        obtain p2 c2 w where b: "acknowledge_buffered get client (p, c\<lparr>recv_results := rest, input_buffer := input_buffer c @ bytes\<rparr>) = ((p2, c2), w)"
          by (metis prod_cases3 surj_pair)
        have n: "x \<noteq> Received []" using False Received by simp
        have a: "w \<noteq> Leave None" "w \<noteq> EraseAndLeave None" "w = Proceed \<Longrightarrow> ending c2"
          using acknowledge_buffered_answered [OF b _ assms(2)] k(1) e(1) [OF n] by simp_all
        have i2: "I p2" using acknowledge_buffered_kept [OF b] k(1) by simp
        have "recv_results c2 = rest" using acknowledge_buffered_receives [OF b] by simp
        with less(1) [of "(p2, c2)"] m [OF n] i2 a going c0 pc x Received False b show ?thesis
          by (cases w) (auto simp: unfold Let_def)
      qed
    next
      case RecvInterrupted
      with less(1) [of "(p, c\<lparr>recv_results := rest\<rparr>)"] m e(2) k going c0 pc x show ?thesis by (simp add: unfold Let_def)
    next
      case RecvError
      with going c0 pc x show ?thesis by (auto simp: unfold Let_def unless_stopped_def split: prod.splits)
    qed
  qed
qed

lemma replica_connection_ends:
  assumes "run_replica_connection get client registration s = (s', v)"
    and "I (fst s)" "\<And>p. I p \<Longrightarrow> answers get client p" "ending (snd s)"
  shows "v \<noteq> None"
proof -
  obtain c1 x where c1: "send_full_resync registration (snd s) = (c1, x)" by fastforce
  let ?c = "c1\<lparr>input_buffer := [], stop_requests := \<lambda>_. False, stop_checks := 0\<rparr>"
  obtain p2 c2 y where y: "consume_replica_acknowledgements get client (registration_session registration) (fst s, ?c) = ((p2, c2), y)"
    by (metis prod_cases3 surj_pair)
  from returns_full_resync [of registration] assms(4) c1 have x: "x \<noteq> None" "x = Some (Inr ()) \<Longrightarrow> ending c1"
    unfolding returns_def by (metis fst_conv snd_conv)+
  have "y \<noteq> None" if "x = Some (Inr ())"
    using acknowledgements_end [of "(fst s, ?c)" client "registration_session registration"] assms(2,3) x(2) [OF that] y
    by (simp add: ending_def)
  with x(1) assms(1) c1 y show ?thesis
    by (cases rule: send_outcomes [of x]) (auto simp: run_replica_connection_def Let_def split: prod.splits option.splits)
qed

lemma become_replica_ends:
  assumes "become_replica get client th = (th', v)"
    and "I (server_processor th)" "\<And>p. I p \<Longrightarrow> answers get client p" "ending (socket th)"
  shows "v = Leave Returned"
proof -
  have u: "I (server_processor t')" if "get_in get (unregister_client client) t = (t', x)" "I (server_processor t)" for t t' x
    by (rule get_in_kept [OF that]) (rule submitted.intros)
  have r: "I (server_processor t')" if "get_in get (register_replica client) t = (t', x)" "I (server_processor t)" for t t' x
    by (rule get_in_kept [OF that]) (rule submitted.intros)
  note ua = get_in_answered(3) [OF _ assms(3) refl] and ra = get_in_answered(4) [OF _ assms(3) refl]
  from assms(1) show ?thesis
  proof (cases rule: become_replica_stages)
    case unregistering
    with ua assms(2) show ?thesis by blast
  next
    case registering
    with u ra assms(2) show ?thesis by blast
  next
    case (serving th1 a th2 registration p c)
    have "socket th2 = socket th" using get_in_socket serving(1,2) by metis
    with replica_connection_ends [OF serving(3)] u r serving(1,2) assms(2-4) show ?thesis by auto
  next
    case (served th1 a th2 registration p c e f)
    have "I p" using replica_connection_kept [OF served(3)] u r assms(2) served(1,2) by auto
    with ua [OF served(4)] served(5) show ?thesis by simp
  qed
qed

lemma response_ends:
  assumes "send_response response th = (th', v)" "ending (socket th)"
  shows "v \<noteq> Leave Waiting" "v \<noteq> EraseAndLeave Waiting" "v = Proceed \<Longrightarrow> goes_on (socket th) (socket th')"
proof -
  obtain c1 x where c1: "send_bytes (serialize_response response) (socket th) = (c1, x)" by fastforce
  note k = send_bytes_ends [OF c1 assms(2)]
  have "v \<noteq> Leave Waiting \<and> v \<noteq> EraseAndLeave Waiting \<and> (v = Proceed \<longrightarrow> goes_on (socket th) (socket th'))"
  proof (cases rule: send_outcomes [of x])
    case sent
    then have g: "goes_on (socket th) c1" using k(2) by blast
    then have e: "ending (socket (th\<lparr>socket := c1\<rparr>))" by (simp add: goes_on_def)
    obtain th1 y where y: "send_pending_pubsub_frames (th\<lparr>socket := c1\<rparr>) = (th1, y)" by fastforce
    from pubsub_frames_end [OF y e] goes_on_trans [OF g] assms(1) c1 sent y g show ?thesis
      by (cases rule: send_outcomes [of y]) (auto simp: send_response_def split: if_splits)
  qed (use assms(1) c1 k(1) in \<open>auto simp: send_response_def\<close>)
  then show "v \<noteq> Leave Waiting" "v \<noteq> EraseAndLeave Waiting" "v = Proceed \<Longrightarrow> goes_on (socket th) (socket th')" by auto
qed

lemma serve_command_ends:
  assumes "serve_command get client command n th = (th', v)"
    and "I (server_processor th)" "\<And>p. I p \<Longrightarrow> answers get client p" "ending (socket th)"
  shows "v \<noteq> Leave Waiting" "v \<noteq> EraseAndLeave Waiting" "v = Proceed \<Longrightarrow> goes_on (socket th) (socket th')"
proof -
  have "v \<noteq> Leave Waiting \<and> v \<noteq> EraseAndLeave Waiting \<and> (v = Proceed \<longrightarrow> goes_on (socket th) (socket th'))"
  proof (cases "length command = 3 \<and> hd command = ''PSYNC''")
    case True
    with become_replica_ends [OF _ assms(2-4)] assms(1) show ?thesis by (auto simp: serve_command_def)
  next
    case False
    obtain th1 x where 1: "get_in get (submit client command) th = (th1, x)" by fastforce
    from get_in_answered(1) [OF 1 assms(3) [OF assms(2)] refl] obtain response where x: "x = Some (Responded response)" by blast
    obtain th2 stop where 2: "check_stop th1 = (th2, stop)" by fastforce
    have g: "goes_on (socket th) (socket th2)" using check_stop_goes_on [OF 2] get_in_socket [OF 1] assms(4) by simp
    then have "ending (socket th2)" by (simp add: goes_on_def)
    with response_ends [of response th2 th' v] goes_on_trans [OF g] assms(1) False 1 2 x show ?thesis
      by (cases stop) (auto simp: serve_command_def)
  qed
  then show "v \<noteq> Leave Waiting" "v \<noteq> EraseAndLeave Waiting" "v = Proceed \<Longrightarrow> goes_on (socket th) (socket th')" by auto
qed

lemma serve_buffered_ends:
  assumes "serve_buffered get client th = (th', v)"
    and "I (server_processor th)" "\<And>p. I p \<Longrightarrow> answers get client p" "ending (socket th)" "client \<noteq> 0" "client \<noteq> aof_client_id"
  shows "v \<noteq> Leave Waiting" "v \<noteq> EraseAndLeave Waiting"
    "v = Proceed \<or> v = Leave StopSeen \<Longrightarrow> goes_on (socket th) (socket th')"
proof -
  obtain buffer t w where l: "command_loop stop_guard (\<lambda>_. ConnectionClosed) (serve_command get client) (input_buffer (socket th)) th =
      (buffer, t, w)" by (metis prod_cases3)
  let ?J = "\<lambda>t. I (server_processor t) \<and> goes_on (socket th) (socket t)"
  have j0: "?J th" using assms(2,4) by (simp add: goes_on_def)
  have guard: "?J a'" "x = Proceed \<or> x = Leave StopSeen" if "stop_guard a = (a', x)" "?J a" for a a' x
  proof -
    obtain a1 stop where a1: "check_stop a = (a1, stop)" by fastforce
    have "ending (socket a)" using that(2) by (simp add: goes_on_def)
    from check_stop_goes_on [OF a1 this] check_stopD [OF a1] that a1 goes_on_trans show "?J a'" by (auto simp: stop_guard_def)
    from that a1 show "x = Proceed \<or> x = Leave StopSeen" by (auto simp: stop_guard_def)
  qed
  have handle: "x \<noteq> Leave Waiting" "x \<noteq> EraseAndLeave Waiting" "x = Proceed \<Longrightarrow> ?J a'"
    "x \<noteq> Leave StopSeen" "x \<noteq> EraseAndLeave StopSeen"
    if "serve_command get client command n a = (a', x)" "?J a" for command n a a' x
  proof -
    have e: "ending (socket a)" "I (server_processor a)" using that(2) by (simp_all add: goes_on_def)
    note k = serve_command_ends [OF that(1) e(2) assms(3) e(1)]
    show "x \<noteq> Leave Waiting" "x \<noteq> EraseAndLeave Waiting" by (simp_all only: k(1,2) not_False_eq_True)
    show "x = Proceed \<Longrightarrow> ?J a'" using k(3) serve_command_kept [OF that(1) e(2) assms(5,6)] goes_on_trans that(2) by blast
    show "x \<noteq> Leave StopSeen" "x \<noteq> EraseAndLeave StopSeen" using serve_command_not_stop [OF that(1)] by auto
  qed
  have o: "w = Proceed \<and> ?J t \<or>
    (\<exists>s0 x r. ?J s0 \<and> stop_guard s0 = (t, x) \<and> (x = Leave r \<or> x = EraseAndLeave r) \<and> w = Leave r) \<or>
    (\<exists>msg::string. w = Leave ConnectionClosed) \<or>
    (\<exists>command n s0 x r. ?J s0 \<and> serve_command get client command n s0 = (t, x) \<and> (x = Leave r \<or> x = EraseAndLeave r) \<and> w = Leave r)"
  proof (rule command_loop_outcome [OF l, where I = ?J])
    show "?J th" by (rule j0)
    show "?J a'" if "stop_guard a = (a', Proceed)" "?J a" for a a' by (rule guard(1) [OF that])
    show "?J a'" if "serve_command get client command n a = (a', Proceed)" "?J a" for command n a a'
      by (rule handle(3) [OF that refl])
  qed
  have "w \<noteq> Leave Waiting \<and> w \<noteq> EraseAndLeave Waiting \<and> (w = Proceed \<or> w = Leave StopSeen \<longrightarrow> goes_on (socket th) (socket t))"
    using o
  proof (elim disjE exE)
    fix s0 x r assume a: "?J s0 \<and> stop_guard s0 = (t, x) \<and> (x = Leave r \<or> x = EraseAndLeave r) \<and> w = Leave r"
    then have j: "?J t" and x: "x = Proceed \<or> x = Leave StopSeen" using guard by blast+
    from a x have "w = Leave StopSeen" by (elim conjE disjE) simp_all
    with j show ?thesis by simp
  next
    fix command n s0 x r
    assume a: "?J s0 \<and> serve_command get client command n s0 = (t, x) \<and> (x = Leave r \<or> x = EraseAndLeave r) \<and> w = Leave r"
    then have h: "serve_command get client command n s0 = (t, x)" "?J s0" by simp_all
    note handle(1,2,4,5) [OF h]
    moreover from a have "x = Leave r \<or> x = EraseAndLeave r" "w = Leave r" by blast+
    ultimately show ?thesis by auto
  qed auto
  with l assms(1) show "v \<noteq> Leave Waiting" "v \<noteq> EraseAndLeave Waiting"
    "v = Proceed \<or> v = Leave StopSeen \<Longrightarrow> goes_on (socket th) (socket th')"
    by (auto simp: serve_buffered_def goes_on_def ending_def)
qed

lemma serve_poll_ends:
  assumes "serve_poll get client result th = (th', v)"
    and "I (server_processor th)" "\<And>p. I p \<Longrightarrow> answers get client p" "ending (socket th)" "client \<noteq> 0" "client \<noteq> aof_client_id"
  shows "v \<noteq> Leave Waiting \<and> v \<noteq> EraseAndLeave Waiting \<and> (v = Proceed \<longrightarrow> goes_on (socket th) (socket th'))"
proof (cases result)
  case (Polled client_events session_events)
  obtain th1 x where 1: "(if readable session_events then send_pending_pubsub_frames th else (th, Some (Inr ()))) = (th1, x)" by fastforce
  have x: "x \<noteq> None" "x = Some (Inr ()) \<Longrightarrow> goes_on (socket th) (socket th1)"
  proof (atomize (full), cases "readable session_events")
    case True
    with 1 have "send_pending_pubsub_frames th = (th1, x)" by simp
    from pubsub_frames_end [OF this assms(4)] show "x \<noteq> None \<and> (x = Some (Inr ()) \<longrightarrow> goes_on (socket th) (socket th1))" by blast
  next
    case False
    with 1 assms(4) show "x \<noteq> None \<and> (x = Some (Inr ()) \<longrightarrow> goes_on (socket th) (socket th1))" by (auto simp: goes_on_def)
  qed
  have k1: "I (server_processor th1)" using 1 assms(2) pubsub_frames_kept by (auto split: if_splits)
  show ?thesis
  proof (cases "x = Some (Inr ())")
    case True
    then have g: "goes_on (socket th) (socket th1)" using x(2) by blast
    then have "ending (socket th1)" by (simp add: goes_on_def)
    then obtain y rs where y: "recv_results (socket th1) = y # rs" by (cases "recv_results (socket th1)") (auto simp: ending_def)
    let ?c = "\<lambda>bytes. (socket th1)\<lparr>recv_results := rs, input_buffer := input_buffer (socket th1) @ bytes\<rparr>"
    obtain th2 w where 2: "receive_and_serve get client th1 = (th2, w)" by fastforce
    have w: "w \<noteq> Leave Waiting \<and> w \<noteq> EraseAndLeave Waiting \<and> (w = Proceed \<or> w = Leave StopSeen \<longrightarrow> goes_on (socket th) (socket th2))"
    proof (cases "\<exists>bytes. y = Received bytes \<and> bytes \<noteq> []")
      case True
      then obtain bytes where b: "y = Received bytes" "bytes \<noteq> []" by blast
      have c: "goes_on (socket th1) (?c bytes)" using \<open>ending (socket th1)\<close> y b by (auto simp: goes_on_def ending_def)
      let ?th = "th1\<lparr>socket := ?c bytes\<rparr>"
      have s: "serve_buffered get client ?th = (th2, w)" using 2 y b by (simp add: receive_and_serve_def Let_def)
      have i: "I (server_processor ?th)" "ending (socket ?th)" using k1 c by (simp_all add: goes_on_def)
      have "w \<noteq> Leave Waiting" "w \<noteq> EraseAndLeave Waiting"
        by (rule serve_buffered_ends(1,2) [OF s i(1) _ i(2) assms(5,6)], erule assms(3))+
      moreover have "goes_on (socket ?th) (socket th2)" if "w = Proceed \<or> w = Leave StopSeen"
        by (rule serve_buffered_ends(3) [OF s i(1) _ i(2) assms(5,6) that]) (erule assms(3))
      then have "goes_on (socket th) (socket th2)" if "w = Proceed \<or> w = Leave StopSeen"
        using goes_on_trans [OF g goes_on_trans [OF c]] that by simp
      ultimately show ?thesis by blast
    next
      case False
      with 2 y show ?thesis by (auto simp: receive_and_serve_def Let_def split: recv_result.splits if_splits)
    qed
    have "(th', v) =
      (if broken session_events then (th1, Leave ConnectionClosed)
       else if \<not> readable client_events then (th1, if broken client_events then Leave ConnectionClosed else Proceed)
       else if w = Proceed \<or> w = Leave StopSeen then (th2, if broken client_events then Leave ConnectionClosed else Proceed)
       else (th2, w))"
      using assms(1) [symmetric] unfolding serve_poll_def Polled poll_result.case 1 True
      by (cases w) (simp_all add: 2 split: leaving.splits)
    with w g show ?thesis by (auto split: if_splits)
  next
    case False
    with x(1) assms(1) Polled 1 show ?thesis
      by (cases rule: send_outcomes [of x]) (auto simp: serve_poll_def)
  qed
qed (use assms in \<open>auto simp: serve_poll_def goes_on_def\<close>)

lemma connection_loop_ends:
  assumes "connection_loop get client polls th = (th', why)"
    and "I (server_processor th)" "\<And>p. I p \<Longrightarrow> answers get client p" "ending (socket th)" "client \<noteq> 0" "client \<noteq> aof_client_id"
    and "\<And>others result p. (others, result) \<in> set polls \<Longrightarrow> I p \<Longrightarrow> I (others p)"
    and "\<And>i. k \<le> i \<Longrightarrow> stop_requests (socket th) i" "k \<le> stop_checks (socket th) + length polls"
  shows "why \<noteq> Waiting"
  using assms(1,2,4,7-)
proof (induction polls arbitrary: th)
  case Nil
  then show ?case by (auto simp: check_stop_def stop_requested_def)
next
  case (Cons x polls)
  obtain others result where x: "x = (others, result)" by fastforce
  obtain th0 stop where 0: "check_stop th = (th0, stop)" by fastforce
  have s0: "stop_requests (socket th0) = stop_requests (socket th)" "stop_checks (socket th0) = Suc (stop_checks (socket th))"
    using 0 by (auto simp: check_stop_def stop_requested_def)
  have g0: "goes_on (socket th) (socket th0)" using check_stop_goes_on [OF 0 Cons.prems(3)] .
  let ?th = "th0\<lparr>server_processor := others (server_processor th0)\<rparr>"
  have i: "I (server_processor ?th)" using check_stopD [OF 0] Cons.prems(2,4) x by auto
  have e: "ending (socket ?th)" using g0 by (simp add: goes_on_def)
  obtain th1 v where 1: "serve_poll get client result ?th = (th1, v)" by fastforce
  have v: "v \<noteq> Leave Waiting" "v \<noteq> EraseAndLeave Waiting" "v = Proceed \<Longrightarrow> goes_on (socket th0) (socket th1)"
    using serve_poll_ends [OF 1 i assms(3) e assms(5,6)] by auto
  have i1: "I (server_processor th1)" by (rule serve_poll_kept [OF 1 i assms(5,6)])
  show ?case
  proof (cases "\<not> stop \<and> v = Proceed")
    case True
    then have "goes_on (socket th0) (socket th1)" using v(3) by blast
    then have g: "stop_requests (socket th1) = stop_requests (socket th)" "Suc (stop_checks (socket th)) \<le> stop_checks (socket th1)"
      "ending (socket th1)" using s0 by (auto simp: goes_on_def)
    have "connection_loop get client polls th1 = (th', why)" using True Cons.prems(1) x 0 1 by simp
    from Cons.IH [OF this i1 g(3)] Cons.prems(4-6) g(1,2) show ?thesis by fastforce
  next
    case False
    with v(1,2) Cons.prems(1) x 0 1 show ?thesis by (cases stop; cases v) auto
  qed
qed

lemma handle_connection_ends:
  assumes "I p" "pubsub_heap p r = None" "client \<noteq> 0" "client \<noteq> aof_client_id"
    and "\<And>others result p. (others, result) \<in> set polls \<Longrightarrow> I p \<Longrightarrow> I (others p)"
    and "\<And>p. I p \<Longrightarrow> answers get client p" "ending c"
    and "\<And>i. k \<le> i \<Longrightarrow> stop_requests c i" "k \<le> stop_checks c + length polls"
  shows "snd (snd (handle_connection get client r created clears polls c p))"
proof (cases created)
  case (Inr outcomes)
  let ?th = "\<lparr>server_processor = p\<lparr>pubsub_heap := (pubsub_heap p)(r \<mapsto> new_session outcomes)\<rparr>,
    socket = c\<lparr>input_buffer := []\<rparr>, session = r, clear_io = clears, clear_calls = 0\<rparr>"
  have i0: "I (server_processor ?th)"
    using step_keeps [OF assms(1) processor_step.connection [OF open_session [OF assms(2)]]] by simp
  obtain th1 x where 1: "get_in get (register_client client r) ?th = (th1, x)" by fastforce
  have i1: "I (server_processor th1)"
    by (rule get_in_kept [OF 1 i0]) (rule submitted.intros(9) [OF _ assms(3,4)])
  have "x \<noteq> None" using get_in_answered(2) [OF 1 assms(6) [OF i0] refl] .
  then obtain y where x: "x = Some y" by blast
  have c1: "socket th1 = c\<lparr>input_buffer := []\<rparr>" using get_in_socket [OF 1] by simp
  obtain th2 stop where 2: "check_stop th1 = (th2, stop)" by fastforce
  have i2: "I (server_processor th2)" using i1 check_stopD [OF 2] by simp
  have c2: "ending (socket th2)" "stop_requests (socket th2) = stop_requests c" "stop_checks (socket th2) = Suc (stop_checks c)"
    using 2 c1 assms(7) by (auto simp: check_stop_def stop_requested_def ending_def)
  obtain th3 why where 3: "connection_loop get client polls th2 = (th3, why)" by fastforce
  have i3: "I (server_processor th3)" by (rule connection_loop_kept [OF 3 i2 assms(3,4)]) (rule assms(5))
  have w: "why \<noteq> Waiting"
    by (rule connection_loop_ends [OF 3 i2 _ c2(1) assms(3,4), of k])
      (erule assms(6), erule (1) assms(5), use c2 assms(8,9) in auto)
  have leave: "snd (snd (leave_connection get client r t))" if "I (server_processor t)" for t
  proof -
    obtain t' z where z: "get_in get (unregister_client client) t = (t', z)" by fastforce
    from get_in_answered(3) [OF z assms(6) [OF that] refl] z show ?thesis by (auto simp: leave_connection_def)
  qed
  from Inr 1 2 3 x w leave [OF i2] leave [OF i3] show ?thesis
    by (cases stop; cases why) (auto simp: handle_connection_def Let_def)
qed (simp add: handle_connection_def)

end


text \<open>A processor that answers at once, without a look at the command.\<close>

definition answered_at_once :: future_get where
  "answered_at_once q p =
     (p, Some (case last (tasks p) of
        CommandTask c \<Rightarrow> Responded NullBulkString
      | RegisterReplicaTask client promise \<Rightarrow>
          Registered \<lparr>registration_id = ''8371b4fb'', registration_offset = 0, registration_session = 0\<rparr>
      | _ \<Rightarrow> Completed))"


end
