(* ===== verification/Server_Correct.thy ===== *)
theory Server_Correct
  imports Server Connection_Stop Processor_Recovery
begin

text \<open>
  The properties of the server as a whole: the identifiers of its clients, the descriptors it
  opens and closes, and the state after a restart.
\<close>

section \<open>Identifiers of clients\<close>

abbreviation worker_ids :: "tcp_server \<Rightarrow> client_id list" where
  "worker_ids s \<equiv> map worker_client (connection_workers s)"

text \<open>The threads have increasing identifiers, between 1 and the next one to be given.\<close>

definition ids_below :: "nat \<Rightarrow> tcp_server \<Rightarrow> bool" where
  "ids_below n s \<longleftrightarrow>
     sorted_wrt (<) (worker_ids s) \<and> (\<forall>client \<in> set (worker_ids s). 0 < client \<and> client < next_client_id s) \<and>
     0 < next_client_id s \<and> unat (next_client_id s) \<le> n"

lemma called_fields [simp]:
  "connection_workers (called cs s) = connection_workers s" "next_client_id (called cs s) = next_client_id s"
  "server_fd (called cs s) = server_fd s" "master_fd (called cs s) = master_fd s" "stopping (called cs s) = stopping s"
  "replication_joinable (called cs s) = replication_joinable s" "command_processor (called cs s) = command_processor s"
  "descriptor_calls (called cs s) = descriptor_calls s @ cs"
  by (simp_all add: called_def)

lemma worker_ids_changes:
  "worker_ids (worker_returns client s) = worker_ids s" "worker_ids (fst (signal_workers s)) = worker_ids s"
  "connection_workers (stop_begins s) = connection_workers s"
  "next_client_id (worker_returns client s) = next_client_id s" "next_client_id (fst (signal_workers s)) = next_client_id s"
  "next_client_id (stop_begins s) = next_client_id s"
  by (simp_all add: worker_returns_def signal_workers_def stop_begins_def Let_def comp_def if_distrib cong: if_cong)

text \<open>The other threads give no identifiers, and start no threads.\<close>

lemma server_event_ids:
  "next_client_id (server_event e s) = next_client_id s \<and>
   (worker_ids (server_event e s) = worker_ids s \<or> worker_ids (server_event e s) = [])"
  by (cases e) (simp_all add: server_event_def worker_ids_changes clear_workers_def)

lemma server_events_ids:
  "next_client_id (server_events es s) = next_client_id s \<and>
   (worker_ids (server_events es s) = worker_ids s \<or> worker_ids (server_events es s) = [])"
  unfolding server_events_def
proof (induction es arbitrary: s)
  case (Cons e es)
  from Cons.IH [of "server_event e s"] server_event_ids [of e s] show ?case by auto
qed simp

lemma server_events_ids_below: "ids_below n s \<Longrightarrow> ids_below n (server_events es s)"
  using server_events_ids [of es s] by (elim conjE disjE) (simp_all only: ids_below_def, simp_all)

lemma reap_ids: "ids_below n s \<Longrightarrow> ids_below n (reap_completed_connections s)"
  by (auto simp: ids_below_def reap_completed_connections_def sorted_wrt_map sorted_wrt_filter)

lemma next_id:
  assumes "ids_below n s" "n < 2 ^ 64 - 1"
  shows "unat (next_client_id s + 1) = Suc (unat (next_client_id s))" "next_client_id s < next_client_id s + 1"
proof -
  have "unat (next_client_id s) < 2 ^ 64 - 1" using assms by (simp add: ids_below_def)
  then show u: "unat (next_client_id s + 1) = Suc (unat (next_client_id s))" by (simp add: unat_word_ariths)
  then show "next_client_id s < next_client_id s + 1" by (simp add: word_less_nat_alt)
qed

lemma accept_ids:
  assumes "ids_below n s" "n < 2 ^ 64 - 1"
  shows "ids_below (Suc n) (start_connection fd (next_client_id s)
    (server_events es ((called cs s)\<lparr>next_client_id := next_client_id s + 1\<rparr>)))"
proof -
  define t where "t = server_events es ((called cs s)\<lparr>next_client_id := next_client_id s + 1\<rparr>)"
  have t: "next_client_id t = next_client_id s + 1" "worker_ids t = worker_ids s \<or> worker_ids t = []"
    using server_events_ids [of es "(called cs s)\<lparr>next_client_id := next_client_id s + 1\<rparr>"] by (auto simp: t_def)
  note i = assms(1) [unfolded ids_below_def] and u = next_id [OF assms]
  have below: "client < next_client_id s + 1" if "client < next_client_id s" for client using that u(2) by (rule order.strict_trans)
  have p: "0 < next_client_id s + 1" using u(1) by (simp add: word_less_nat_alt)
  have ids: "worker_ids (start_connection fd (next_client_id s) t) = worker_ids t \<or>
      worker_ids (start_connection fd (next_client_id s) t) = worker_ids t @ [next_client_id s]"
    "next_client_id (start_connection fd (next_client_id s) t) = next_client_id s + 1"
    using t(1) by (simp_all add: start_connection_def)
  have srt: "sorted_wrt (<) (worker_ids t)" and old: "\<And>client. client \<in> set (worker_ids t) \<Longrightarrow> 0 < client \<and> client < next_client_id s"
    using t(2) i by (auto simp del: set_map)
  have "sorted_wrt (<) (worker_ids (start_connection fd (next_client_id s) t)) \<and>
      (\<forall>client \<in> set (worker_ids (start_connection fd (next_client_id s) t)). 0 < client \<and> client < next_client_id s + 1)"
    using ids(1)
  proof
    assume e: "worker_ids (start_connection fd (next_client_id s) t) = worker_ids t"
    show ?thesis unfolding e using srt old below by blast
  next
    assume e: "worker_ids (start_connection fd (next_client_id s) t) = worker_ids t @ [next_client_id s]"
    show ?thesis unfolding e using srt old below i u(2) by (auto simp del: set_map simp: sorted_wrt_append)
  qed
  with i p u(1) show ?thesis unfolding t_def [symmetric] ids_below_def ids(2) by simp
qed

lemma ids_below_mono: "ids_below n s \<Longrightarrow> n \<le> m \<Longrightarrow> ids_below m s"
  by (auto simp: ids_below_def)

text \<open>An iteration that accepts a connection, and how the loop goes on after any iteration.\<close>

definition accepted_state :: "server_event list \<Rightarrow> descriptor \<Rightarrow> tcp_server \<Rightarrow> tcp_server" where
  "accepted_state es fd s =
     start_connection fd (next_client_id s) (server_events es ((called [Opened fd] s)\<lparr>next_client_id := next_client_id s + 1\<rparr>))"

lemma run_connection_loop_step:
  assumes "run_connection_loop ((meanwhile, result, before_start) # iterations) s = (s', ended)"
  defines "s1 \<equiv> server_events meanwhile (reap_completed_connections s)"
  shows "s' = s \<or> s' = s1 \<or> run_connection_loop iterations s1 = (s', ended) \<or>
    (\<exists>fd. run_connection_loop iterations (accepted_state before_start fd s1) = (s', ended))"
  using assms
  by (cases "stopping s"; cases result)
    (auto simp: Let_def accepted_state_def split: if_splits accept_result.splits)

lemma run_connection_loop_ids:
  "run_connection_loop iterations s = (s', ended) \<Longrightarrow> ids_below n s \<Longrightarrow> n + length iterations < 2 ^ 64 \<Longrightarrow>
   ids_below (n + length iterations) s'"
proof (induction iterations arbitrary: s n)
  case (Cons x iterations)
  obtain meanwhile result before_start where x: "x = (meanwhile, result, before_start)" by (metis prod_cases3)
  define s1 where "s1 = server_events meanwhile (reap_completed_connections s)"
  have i1: "ids_below n s1" using Cons.prems(2) unfolding s1_def by (intro server_events_ids_below reap_ids)
  have i2: "ids_below (Suc n) (accepted_state before_start fd s1)" for fd
    unfolding accepted_state_def by (rule accept_ids [OF i1]) (use Cons.prems(3) in simp)
  from run_connection_loop_step [OF Cons.prems(1) [unfolded x]] show ?case
    unfolding s1_def [symmetric]
  proof (elim disjE exE)
    assume "run_connection_loop iterations s1 = (s', ended)"
    from Cons.IH [OF this i1] Cons.prems(3) show ?thesis by (auto intro: ids_below_mono)
  next
    fix fd assume "run_connection_loop iterations (accepted_state before_start fd s1) = (s', ended)"
    from Cons.IH [OF this i2] Cons.prems(3) show ?thesis by simp
  qed (use i1 Cons.prems(2) in \<open>auto intro: ids_below_mono\<close>)
qed simp

text \<open>
  C11: The clients of a server have different identifiers, and none of them is the identifier 0 of the master or the
  one that is reserved for the log. This holds for up to 2 to the power of 64 minus 2 turns of the loop that accepts
  connections, however these end, whatever threads return meanwhile, and also while the server stops: the
  identifiers of the running threads increase, and all lie below the next one to be given, which counts the turns at most.
\<close>

theorem client_ids_distinct:
  assumes "run_connection_loop iterations s = (s', ended)" "length iterations < 2 ^ 64 - 1"
    and "next_client_id s = 1" "connection_workers s = []"
  shows "sorted_wrt (<) (map worker_client (connection_workers s')) \<and>
    list_all (\<lambda>w. worker_client w \<noteq> 0 \<and> worker_client w \<noteq> aof_client_id \<and> worker_client w < next_client_id s') (connection_workers s') \<and>
    unat (next_client_id s') \<le> Suc (length iterations)"
proof -
  have "ids_below 1 s" using assms(3,4) by (simp add: ids_below_def)
  from run_connection_loop_ids [OF assms(1) this] assms(2) have i: "ids_below (Suc (length iterations)) s'" by simp
  have "client \<noteq> aof_client_id" if "client < next_client_id s'" for client
    using that word_order.extremum_strict by (auto simp: aof_client_id_def)
  with i show ?thesis by (auto simp: ids_below_def list_all_iff)
qed

definition idle_server :: tcp_server where
  "idle_server = new_server still_world (\<lambda>_. 0) default_config"

text \<open>A turn that accepts the connection with the given descriptor.\<close>

definition accepts_client :: "descriptor \<Rightarrow> accept_iteration" where
  "accepts_client fd = ([], ListenReady \<lparr>readable = True, broken = False\<rparr> (Accepted fd), [])"

theorem client_ids_distinct_witness:
  "map worker_client (connection_workers (fst (run_connection_loop [accepts_client 5, accepts_client 6] idle_server))) = [1, 2] \<and>
   sorted_wrt (<) (map worker_client (connection_workers (fst (run_connection_loop [accepts_client 5, accepts_client 6] idle_server))))"
proof -
  obtain s ended where s: "run_connection_loop [accepts_client 5, accepts_client 6] idle_server = (s, ended)" by fastforce
  have "next_client_id idle_server = 1" "connection_workers idle_server = []" by (simp_all add: idle_server_def new_server_def)
  from client_ids_distinct [OF s _ this] have "sorted_wrt (<) (map worker_client (connection_workers s))" by simp
  moreover have "map worker_client (connection_workers s) = [1, 2]"
    using s by (auto simp: accepts_client_def idle_server_def new_server_def reap_completed_connections_def server_events_def
        start_connection_def called_def Let_def)
  ultimately show ?thesis using s by simp
qed

section \<open>Descriptors\<close>

text \<open>The descriptors that the recorded calls opened and closed, and those that the server holds.\<close>

fun opened_by :: "descriptor_call \<Rightarrow> descriptor multiset" where
  "opened_by (Opened fd) = {#fd#}"
| "opened_by _ = {#}"

fun closed_by :: "descriptor_call \<Rightarrow> descriptor multiset" where
  "closed_by (Closed fd) = {#fd#}"
| "closed_by _ = {#}"

definition openings :: "descriptor_call list \<Rightarrow> descriptor multiset" where
  "openings cs = sum_list (map opened_by cs)"

definition closings :: "descriptor_call list \<Rightarrow> descriptor multiset" where
  "closings cs = sum_list (map closed_by cs)"

definition one :: "descriptor option \<Rightarrow> descriptor multiset" where
  "one d = (case d of None \<Rightarrow> {#} | Some fd \<Rightarrow> {#fd#})"

definition held_by :: "connection_worker list \<Rightarrow> descriptor multiset" where
  "held_by ws = sum_list (map (\<lambda>w. one (worker_socket w)) ws)"

definition held :: "tcp_server \<Rightarrow> descriptor multiset" where
  "held s = one (server_fd s) + one (master_fd s) + held_by (connection_workers s)"

text \<open>What was opened was closed once, is held by the server, or is among the given ones; threads that have returned hold nothing.\<close>

definition balanced :: "descriptor multiset \<Rightarrow> tcp_server \<Rightarrow> bool" where
  "balanced m s \<longleftrightarrow>
     openings (descriptor_calls s) = closings (descriptor_calls s) + held s + m \<and>
     (\<forall>w \<in> set (connection_workers s). worker_finished w \<longrightarrow> worker_socket w = None)"

lemma call_sums [simp]:
  "openings [] = {#}" "closings [] = {#}" "openings (c # cs) = opened_by c + openings cs" "closings (c # cs) = closed_by c + closings cs"
  "openings (cs @ ds) = openings cs + openings ds" "closings (cs @ ds) = closings cs + closings ds"
  "one None = {#}" "one (Some fd) = {#fd#}"
  "held_by [] = {#}" "held_by (w # ws) = one (worker_socket w) + held_by ws" "held_by (ws @ vs) = held_by ws + held_by vs"
  by (simp_all add: openings_def closings_def one_def held_by_def)

lemma on_descriptor_sums [simp]:
  "openings (on_descriptor Shutdown d) = {#}" "closings (on_descriptor Shutdown d) = {#}"
  "openings (on_descriptor Closed d) = {#}" "closings (on_descriptor Closed d) = one d"
  by (simp_all add: on_descriptor_def split: option.splits)

lemma shutdowns [simp]:
  "openings (concat (map (\<lambda>w. on_descriptor Shutdown (worker_socket w)) ws)) = {#}"
  "closings (concat (map (\<lambda>w. on_descriptor Shutdown (worker_socket w)) ws)) = {#}"
  by (induction ws) simp_all

lemma held_finished: "\<forall>w \<in> set ws. worker_socket w = None \<Longrightarrow> held_by ws = {#}"
  by (induction ws) simp_all

lemma held_unfinished:
  "\<forall>w \<in> set ws. worker_finished w \<longrightarrow> worker_socket w = None \<Longrightarrow> held_by (filter (\<lambda>w. \<not> worker_finished w) ws) = held_by ws"
  by (induction ws) auto

lemma returning_sums:
  "openings (concat (map (\<lambda>w. if worker_client w = client then on_descriptor Closed (worker_socket w) else []) ws)) = {#}"
  "closings (concat (map (\<lambda>w. if worker_client w = client then on_descriptor Closed (worker_socket w) else []) ws)) +
   held_by (map (\<lambda>w. if worker_client w = client then w\<lparr>worker_socket := None, worker_finished := True\<rparr> else w) ws) = held_by ws"
  by (induction ws) (auto simp: ac_simps)

lemma signalled_held [simp]: "held_by (map (\<lambda>w. w\<lparr>worker_stopped := True\<rparr>) ws) = held_by ws"
  by (induction ws) simp_all

text \<open>Every operation keeps the balance.\<close>

lemma worker_returns_balanced: "balanced m s \<Longrightarrow> balanced m (worker_returns client s)"
  using returning_sums [of client "connection_workers s"]
  by (auto simp: balanced_def worker_returns_def held_def ac_simps)

lemma signal_workers_balanced: "balanced m s \<Longrightarrow> balanced m (fst (signal_workers s))"
  by (auto simp: balanced_def signal_workers_def held_def)

lemma stop_begins_balanced: "balanced m s \<Longrightarrow> balanced m (stop_begins s)"
  by (simp add: balanced_def stop_begins_def held_def Let_def)

lemma clear_workers_balanced: "balanced m s \<Longrightarrow> list_all worker_finished (connection_workers s) \<Longrightarrow> balanced m (clear_workers s)"
  by (auto simp: balanced_def clear_workers_def held_def list_all_iff held_finished)

lemma balanced_updates [simp]:
  "balanced m (s\<lparr>command_processor := p\<rparr>) = balanced m s" "balanced m (s\<lparr>next_client_id := n\<rparr>) = balanced m s"
  "balanced m (s\<lparr>replication_joinable := b\<rparr>) = balanced m s"
  by (simp_all add: balanced_def held_def)

lemma server_event_balanced: "balanced m s \<Longrightarrow> balanced m (server_event e s)"
  by (cases e)
    (simp_all add: server_event_def worker_returns_balanced signal_workers_balanced stop_begins_balanced clear_workers_balanced)

lemma server_events_balanced: "balanced m s \<Longrightarrow> balanced m (server_events es s)"
  unfolding server_events_def by (induction es arbitrary: s) (simp_all add: server_event_balanced)

lemma reap_balanced: "balanced m s \<Longrightarrow> balanced m (reap_completed_connections s)"
  by (auto simp: balanced_def reap_completed_connections_def held_def held_unfinished)

text \<open>Between \<open>accept\<close> and the start of its thread a connection is in the hands of the main thread.\<close>

lemma accepted_balanced:
  assumes "balanced m s"
  shows "balanced m (accepted_state es fd s)"
proof -
  let ?s = "(called [Opened fd] s)\<lparr>next_client_id := next_client_id s + 1\<rparr>"
  have "balanced ({#fd#} + m) ?s" using assms by (simp add: balanced_def held_def)
  from server_events_balanced [OF this, of es] show ?thesis
    by (auto simp: accepted_state_def start_connection_def balanced_def held_def)
qed

lemma run_connection_loop_balanced:
  "run_connection_loop iterations s = (s', ended) \<Longrightarrow> balanced m s \<Longrightarrow> balanced m s'"
proof (induction iterations arbitrary: s)
  case (Cons x iterations)
  obtain meanwhile result before_start where x: "x = (meanwhile, result, before_start)" by (metis prod_cases3)
  define s1 where "s1 = server_events meanwhile (reap_completed_connections s)"
  have b1: "balanced m s1" using Cons.prems(2) unfolding s1_def by (intro server_events_balanced reap_balanced)
  from run_connection_loop_step [OF Cons.prems(1) [unfolded x]] show ?case
    unfolding s1_def [symmetric] using Cons.IH b1 accepted_balanced Cons.prems(2) by blast
qed simp

text \<open>After the join no thread is left that holds a socket.\<close>

lemma join_workers_balanced:
  "join_workers join ids s = Some s' \<Longrightarrow> balanced m s \<Longrightarrow>
   balanced m s' \<and> server_fd s' = server_fd s \<and> stopping s' = stopping s \<and> replication_joinable s' = replication_joinable s \<and>
   (\<forall>w \<in> set (connection_workers s'). \<exists>v \<in> set (connection_workers s).
      worker_client w = worker_client v \<and> (worker_client w \<in> set ids \<or> worker_finished v \<longrightarrow> worker_finished w))"
proof (induction ids arbitrary: s)
  case (Cons client ids)
  then obtain p where p: "join client (command_processor s) = Some p" by (cases "join client (command_processor s)") auto
  let ?s = "worker_returns client (s\<lparr>command_processor := p\<rparr>)"
  have b: "balanced m ?s" using Cons.prems(2) by (simp add: worker_returns_balanced)
  have ws: "connection_workers ?s =
      map (\<lambda>w. if worker_client w = client then w\<lparr>worker_socket := None, worker_finished := True\<rparr> else w) (connection_workers s)"
    "server_fd ?s = server_fd s" "stopping ?s = stopping s" "replication_joinable ?s = replication_joinable s"
    by (simp_all add: worker_returns_def)
  have "join_workers join ids ?s = Some s'" using Cons.prems(1) p by simp
  from Cons.IH [OF this b] show ?case unfolding ws by (fastforce split: if_splits)
qed auto

lemma stop_connection_workers_balanced:
  assumes "stop_connection_workers get join s = Some s'" "balanced m s"
  shows "balanced m s' \<and> connection_workers s' = [] \<and> stopping s' = stopping s \<and> replication_joinable s' = replication_joinable s"
proof -
  obtain s1 active where s1: "signal_workers s = (s1, active)" by fastforce
  obtain p1 qs where u: "unregister_all active (command_processor s1) = (p1, qs)" by fastforce
  from assms(1) s1 u obtain p2 s2 where g: "get_all get qs p1 = Some p2"
    and j: "join_workers join (worker_ids s1) (s1\<lparr>command_processor := p2\<rparr>) = Some s2" and s': "s' = clear_workers s2"
    by (auto simp: stop_connection_workers_def split: option.splits)
  have b1: "balanced m (s1\<lparr>command_processor := p2\<rparr>)" using signal_workers_balanced [OF assms(2)] s1 by simp
  from join_workers_balanced [OF j b1] have b2: "balanced m s2" "list_all worker_finished (connection_workers s2)"
    "stopping s2 = stopping s1" "replication_joinable s2 = replication_joinable s1" by (auto simp: list_all_iff)
  have "stopping s1 = stopping s" "replication_joinable s1 = replication_joinable s" using s1 by (auto simp: signal_workers_def)
  with b2 s' clear_workers_balanced show ?thesis by (auto simp: clear_workers_def)
qed

lemma stop_balanced:
  assumes "stop get join join_replication waiting s = Some s'" "balanced m s"
  shows "balanced m s' \<and> connection_workers s' = [] \<and> stop_complete s'"
proof (cases "stopping s")
  case True
  with assms server_events_balanced [OF assms(2)] show ?thesis
    by (auto simp: stop_def Let_def stop_complete_def split: if_splits)
next
  case False
  with assms(1) obtain s1 where s1: "stop_connection_workers get join (stop_begins s) = Some s1"
    by (auto simp: stop_def split: option.splits)
  have "stopping (stop_begins s)" by (simp add: stop_begins_def Let_def)
  with stop_connection_workers_balanced [OF s1 stop_begins_balanced [OF assms(2)]] assms(1) False s1 show ?thesis
    by (auto simp: stop_def stop_complete_def split: if_splits)
qed

lemma destroy_balanced:
  "destroy_server get join join_replication s = Some s' \<Longrightarrow> balanced {#} s \<Longrightarrow>
   openings (descriptor_calls s') = closings (descriptor_calls s')"
  by (auto simp: destroy_server_def balanced_def held_def dest!: stop_balanced [where m = "{#}"])

lemma try_addresses_sums: "try_addresses attempts = (cs, d) \<Longrightarrow> openings cs = closings cs + one d"
  by (induction attempts arbitrary: cs d rule: try_addresses.induct) (auto split: prod.splits)

lemma persistence_descriptors:
  "initialize_persistence get files s = Some (s', r) \<Longrightarrow>
   balanced m s' = balanced m s \<and> server_fd s' = server_fd s \<and> master_fd s' = master_fd s"
  by (auto simp: initialize_persistence_def Let_def split: if_splits sum.splits option.splits prod.splits result.splits)

lemma setup_server_balanced:
  "setup_server os s = (s', r) \<Longrightarrow> balanced m s \<Longrightarrow> server_fd s = None \<Longrightarrow> balanced m s' \<and> master_fd s' = master_fd s"
  by (auto simp: setup_server_def Let_def balanced_def held_def split: option.splits if_splits)

lemma setup_replication_balanced:
  "setup_replication addresses s = (s', r) \<Longrightarrow> balanced m s \<Longrightarrow> master_fd s = None \<Longrightarrow> balanced m s'"
  using try_addresses_sums
  by (fastforce simp: setup_replication_def connect_to_master_def balanced_def held_def split: option.splits sum.splits prod.splits)

lemma serve_balanced:
  assumes "serve get join join_replication st iterations waiting s = Some (status, s')"
    and "balanced m s" "server_fd s = None" "master_fd s = None"
  shows "balanced m s'"
proof -
  from assms(1) obtain s1 r1 where 1: "initialize_persistence get (start_files st) s = Some (s1, r1)"
    by (auto simp: serve_def split: option.splits)
  obtain s2 r2 where 2: "setup_server (listen_results st) s1 = (s2, r2)" by fastforce
  obtain s3 r3 where 3: "setup_replication (master_addresses st) s2 = (s3, r3)" by fastforce
  have b1: "balanced m s1" "server_fd s1 = None" "master_fd s1 = None" using persistence_descriptors [OF 1] assms(2-4) by auto
  have b2: "balanced m s2" "master_fd s2 = None" using setup_server_balanced [OF 2 b1(1,2)] b1(3) by auto
  have b3: "balanced m s3" using setup_replication_balanced [OF 3 b2] .
  have run: "balanced m s4" if "run get join join_replication iterations waiting s3 = Some s4" for s4
  proof -
    let ?s = "if master_fd s3 = None then s3 else s3\<lparr>replication_joinable := True\<rparr>"
    obtain s5 e where l: "run_connection_loop iterations ?s = (s5, e)" by fastforce
    have "balanced m s5" by (rule run_connection_loop_balanced [OF l]) (use b3 in simp)
    with that l stop_balanced show ?thesis by (auto simp: run_def split: bool.splits)
  qed
  from assms(1) 1 2 3 b1(1) b2(1) b3 run show ?thesis by (auto simp: serve_def split: sum.splits)
qed

text \<open>
  C10: Every descriptor that the program opens is closed, and only once. Whatever happens at the start, while
  connections are accepted, served, refused during a stop, and ended, and however the stop by the main thread or by a
  signal and the threads interleave: when the main function returns, the sockets that were opened (the
  listening one, those for the master, the accepted ones) are exactly those that were closed, counted with
  multiplicity.
\<close>

theorem descriptors_closed_once:
  assumes "main get join join_replication st iterations waiting = Some (status, Some s)"
  shows "openings (descriptor_calls s) = closings (descriptor_calls s)"
proof -
  from assms obtain config s1 where 1:
    "serve get join join_replication st iterations waiting (new_server (start_world st) (start_distribution st) config) = Some (status, s1)"
    "destroy_server get join join_replication s1 = Some s"
    by (auto simp: main_def split: option.splits sum.splits prod.splits)
  have "balanced {#} s1"
    by (rule serve_balanced [OF 1(1)]) (simp_all add: new_server_def balanced_def held_def)
  from destroy_balanced [OF 1(2) this] show ?thesis .
qed

text \<open>The files of a data directory whose log is new, or holds the given bytes.\<close>

definition data_files :: "string \<Rightarrow> aof_system" where
  "data_files bytes =
     \<lparr>directory_error = None, manifest_exists = Inr False, manifest_read = ManifestCannotOpen, manifest_created = WriteDone,
      log_open_error = None, log_bytes = \<lambda>_. bytes, log_writes = \<lambda>_. Wrote 1000, log_syncs = \<lambda>_. None\<rparr>"

definition plain_start :: startup where
  "plain_start =
     \<lparr>signal_mask_error = None, current_directory = Inr ''/data'', directory_status = \<lambda>_. IsDirectory, digest = \<lambda>_. None, arguments = [],
      start_world = still_world, start_distribution = \<lambda>_. 0,
      start_files = \<lparr>log_system = data_files [], log_opened = 0, log_outcome = LogContents, snapshot = NoFile, reservable = \<lambda>_. True\<rparr>,
      listen_results = \<lparr>listen_socket = Some 3, reuse_set = True, bound = True, listening = True\<rparr>, master_addresses = Inr []\<rparr>"

lemma plain_run:
  "\<exists>s. main answered_at_once (\<lambda>_. Some) Some plain_start [accepts_client 7, ([], ListenFailed, [])] [] = Some (0, Some s) \<and>
     descriptor_calls s = [Opened 3, Opened 7, Shutdown 3, Shutdown 7, Closed 7, Closed 3]"
  by (simp add: main_def serve_def plain_start_def parse_server_arguments_def initialize_persistence_def new_server_def default_config_def
      read_file_def load_rdb_entries_def submit_task_def answered_at_once_def setup_server_def setup_replication_def run_def
      accepts_client_def reap_completed_connections_def server_events_def start_connection_def called_def stop_def stop_begins_def
      stop_connection_workers_def signal_workers_def unregister_client_def new_processor_def worker_returns_def clear_workers_def
      destroy_server_def on_descriptor_def stop_complete_def Let_def)

theorem descriptors_closed_once_witness:
  "\<exists>s. main answered_at_once (\<lambda>_. Some) Some plain_start [accepts_client 7, ([], ListenFailed, [])] [] = Some (0, Some s) \<and>
     openings (descriptor_calls s) = {#3, 7#} \<and> closings (descriptor_calls s) = {#3, 7#}"
proof -
  from plain_run obtain s where s:
    "main answered_at_once (\<lambda>_. Some) Some plain_start [accepts_client 7, ([], ListenFailed, [])] [] = Some (0, Some s)"
    "descriptor_calls s = [Opened 3, Opened 7, Shutdown 3, Shutdown 7, Closed 7, Closed 3]" by blast
  from s(2) have "openings (descriptor_calls s) = {#3, 7#}" by simp
  with descriptors_closed_once [OF s(1)] s(1) show ?thesis by auto
qed

section \<open>Restart\<close>

lemma await_initialization:
  assumes "initialize_aof new_file cs p0 = (p1, q)" "tasks p0 = []" "fulfilled p0 = []"
    and "process_aof_initialization new_file cs q (p1\<lparr>tasks := []\<rparr>) = Some p2"
    and "pending_list_pops p2 = []" "pending_stream_reads p2 = []" "pending_waits p2 = []"
    and "fulfilled p2 = [(q, AofInitialized r)]"
  shows "\<exists>p3. await_worker (Suc n) q p1 = (p3, Some (AofInitialized r)) \<and> database p3 = database p2 \<and> aof_log p3 = aof_log p2"
proof -
  have t: "tasks p1 = [InitializeAofTask new_file cs q]" "fulfilled p1 = []"
    using assms(1-3) by (auto simp: initialize_aof_def submit_task_def)
  have "\<exists>p3. run_iteration p1 = Some p3 \<and> fulfilled p3 = fulfilled p2 \<and> database p3 = database p2 \<and> aof_log p3 = aof_log p2"
    using t assms(4-7) by (simp add: worker_simps tick_def)
  with t assms(8) show ?thesis by (auto simp: await_worker.simps)
qed


definition logging_config :: server_config where
  "logging_config = default_config\<lparr>config_aof := (config_aof default_config)\<lparr>enabled := True\<rparr>\<rparr>"

definition kept_files :: "string \<Rightarrow> persistent_files" where
  "kept_files bytes =
     \<lparr>log_system = data_files bytes, log_opened = 0, log_outcome = LogContents, snapshot = NoFile, reservable = \<lambda>_. True\<rparr>"


end
