(* ===== verification/Spec2Isabelle.thy ===== *)
theory Spec2Isabelle
  imports Database_Queries Replay Rstream Sessions Server_Config Rdb Aof Processor_Blocking Processor_Recovery
    Processor_Watch Processor_Pubsub Server_Correct
begin

text \<open>
  A verification development for an in-memory key-value server that speaks the Redis protocol (C++, under
  \<open>src/src\<close>).

  \<^bold>\<open>The program.\<close> \<open>main.cpp\<close> reads the configuration, loads the files and starts the server. The server
  (\<open>server.cpp\<close>) accepts connections and gives each a thread, which cuts the received bytes into commands and hands them, one
  at a time, to the command processor (\<open>command_processor.cpp\<close>). The processor has one worker, the only thread that touches the
  store; its callers get futures. It looks commands up in a table of handlers (\<open>commands.cpp\<close>, \<open>rlist.cpp\<close>,
  \<open>rstream.cpp\<close>) that work on the store (\<open>database.cpp\<close>), keeps transactions, blocked commands, subscriptions and
  access control, and appends each write to the append-only file (\<open>aof.cpp\<close>) and to the replication stream. Published
  messages and replication frames reach the connections through queues (\<open>pubsub.cpp\<close>, \<open>replication.cpp\<close>). A
  replica has a further thread that follows its master.

  \<^bold>\<open>Theories and sources.\<close>
  \<^item> \<open>Prelude\<close>: numbers as text (\<open>std::from_chars\<close>, \<open>std::to_string\<close>), 64-bit words, lemmas on lists and options.
  \<^item> \<open>Resp\<close>: \<open>resp.cpp\<close>, the parser of commands and the serializers.
  \<^item> \<open>Stream_Types\<close>, \<open>Database\<close>: \<open>rstream_types.hpp\<close> and \<open>database.cpp\<close>. \<open>Database_Correct\<close> has the
    invariant and the revision log, \<open>Database_Queries\<close> the functional behaviour, \<open>Store_Spec\<close> the refinement
    to a map from keys to values.
  \<^item> \<open>Time_Utils\<close>, \<open>Commands\<close>, \<open>Rlist\<close>, \<open>Rstream\<close>: \<open>utils/time.cpp\<close> and the handlers.
  \<^item> \<open>Dispatch\<close>: the table of handlers and what is logged (\<open>command_processor.cpp\<close>, free functions);
    \<open>Dispatch_Correct\<close> and \<open>Replay\<close>: what a command does to the store, and that its logged form does it again.
  \<^item> \<open>Sha256\<close>, \<open>Server_Config\<close>: \<open>utils/sha256.cpp\<close> and \<open>server_config.cpp\<close>.
  \<^item> \<open>Rdb\<close>, \<open>Aof\<close>: \<open>rdb.cpp\<close> and \<open>aof.cpp\<close>.
  \<^item> \<open>Sessions\<close>: \<open>pubsub.cpp\<close> and \<open>replication.cpp\<close>.
  \<^item> \<open>Processor_State\<close>, \<open>Processor_Clients\<close>, \<open>Processor\<close>: the class of \<open>command_processor.cpp\<close>, its state as the record
    \<open>processor\<close>, one definition per method, \<open>run_iteration\<close> for a turn of the worker.
  \<^item> \<open>Processor_Frame\<close>, \<open>Processor_Promises\<close>, \<open>Processor_Results\<close>: the state machine of the processor
    (\<open>processor_step\<close>: a submission, a turn of the worker, a step of a connection), what each operation leaves alone, and the
    accounting of promises and of their types.
  \<^item> \<open>Processor_Access\<close>, \<open>Processor_Store\<close>, \<open>Processor_Blocking\<close>, \<open>Processor_Watch\<close>, \<open>Processor_Pubsub\<close>: access
    control, what steps do to the store, blocked commands, optimistic transactions, subscriptions.
  \<^item> \<open>Journal\<close>, \<open>Processor_Journal\<close>, \<open>Processor_Recovery\<close>: what the log and the replication stream have in common, that the
    worker writes it, and that replaying it restores the store.
  \<^item> \<open>Sockets\<close>, \<open>Command_Loop\<close>, \<open>Replication_Stream\<close>, \<open>Replica\<close>: sending and receiving, the loop over buffered
    commands, the thread of a replica, and that a replica reaches its master's contents.
  \<^item> \<open>Connections\<close>, \<open>Connections_Correct\<close>, \<open>Connection_Service\<close>, \<open>Connection_End\<close>, \<open>Connection_Stop\<close>: the threads of clients
    and of attached replicas; they make only steps of the state machine, serve commands in order, leave nothing behind,
    and return when asked to.
  \<^item> \<open>Server\<close>, \<open>Server_Correct\<close>: the start, the accept loop, the stop and \<open>main.cpp\<close>; identifiers of clients, descriptors, restart.

  \<^bold>\<open>Conventions.\<close> A \<open>std::string\<close> is a \<open>string\<close>, a 64-bit counter a \<open>64 word\<close>, a size a natural number. \<open>std::expected\<close> is a
  sum type with the error on the left. Undefined behaviour, such as signed overflow, and an exception that nothing catches
  are the value \<open>None\<close>. Clocks, the outcomes of system calls, random numbers, the digest of the cryptographic library and
  the traversal order of hash tables are arguments. Weak and shared pointers are references into a heap that is part of
  the state.

  \<^bold>\<open>Interfaces.\<close> \<open>framed_stream\<close> (a parser and a printer), \<open>keyed_operation\<close> and \<open>ordered_search\<close> (the store),
  \<open>deque\<close> (lists), \<open>frame_queue\<close> (sessions), \<open>store_relation\<close> (what all steps do to the store), \<open>journal_consumer\<close>
  (replay and replica), \<open>blocked_invariant\<close> (blocked commands), \<open>step_closed\<close> and \<open>processor_access\<close> (threads that wait for the
  processor). Each is interpreted on the definitions of the program.

  \<^bold>\<open>Concurrency.\<close> The worker takes tasks in the order of the queue, and what other threads do between its turns is a step of the
  state machine. A thread that waits for a future, for \<open>poll\<close> or for another thread takes what the others
  do meanwhile as an argument, and the theorems hold for all such arguments that consist of steps. In the accept loop the
  other threads are events between its calls.

  \<^bold>\<open>Fuel and bounds.\<close> Loops over data are functions with a proof of termination. Loops that end only because the environment does
  something run over the list of what it does; at the end of the list the thread waits. \<open>await_worker n\<close> lets a
  worker that runs alone make at most \<open>n\<close> turns; theorems that say that something returns state the number, and one turn is
  enough for a task that does not block. The parser's theorems are for sizes below 2 to the power of 64, and the
  identifiers of clients are different for as many connections.

  \<^bold>\<open>Not modelled.\<close> The texts printed to the standard streams, since nothing reads them. The memory model
  below the mutexes and atomics: the steps of the models are those between lock operations. The system calls themselves,
  the digest function and the name resolution, which are not part of the sources. The theorem on restarts leaves out
  expiration times, since the log keeps them relative to the time of the replay.
\<close>

end
